theory Spec2Isabelle
  imports Main "HOL-Library.Monad_Syntax"
begin

section \<open>Data model\<close>

text \<open>
  A shallow embedding of \<^verbatim>\<open>rbtree.cpp\<close>: a red-black tree with parent pointers and one
  shared sentinel node. Nodes live in an explicit store, a partial map from addresses to
  node records. Every operation runs in the option monad: \<open>None\<close> stands for a read or
  write through a pointer that is not allocated, or for a loop that does not come back.

  \<^item> \<open>PNode\<close> is \<^verbatim>\<open>Node<ValueType> *\<close>; address \<open>0\<close> is \<^verbatim>\<open>nullptr\<close> and is never allocated.
  \<^item> \<open>next_free\<close> is the state of the allocator behind \<^verbatim>\<open>new\<close>: every address from
    \<open>next_free\<close> on is unused, and \<^verbatim>\<open>new\<close> hands out \<open>next_free\<close>. Memory is unbounded,
    so \<^verbatim>\<open>new\<close> does not fail. Which unused address \<^verbatim>\<open>new\<close> returns is up to the C++
    runtime, which may hand out a released address again; the model fixes one choice. The
    program never compares addresses by order and never looks at a released node, and the
    claims speak of values, sizes and cursors obtained from the set.
  \<^item> The members \<^verbatim>\<open>terminal_\<close>, \<^verbatim>\<open>root_\<close>, \<^verbatim>\<open>size_\<close>, \<^verbatim>\<open>head_\<close>, \<^verbatim>\<open>tail_\<close> are the fields
    \<open>terminal'\<close>, \<open>root'\<close>, \<open>size'\<close>, \<open>head'\<close>, \<open>tail'\<close> (a name cannot end in an underscore).
  \<^item> \<open>size'\<close> is a \<^verbatim>\<open>size_t\<close>. It is modelled as a natural number: it counts allocated
    nodes, whose number stays below the size of the address space on the real machine.
  \<^item> \<^verbatim>\<open>ValueType\<close> with its \<^verbatim>\<open>operator<\<close> is a type of class \<open>linorder\<close>.
\<close>

type_synonym PNode = nat

datatype NodeColor = BLACK | RED

record 'a Node =
  data :: 'a
  color :: NodeColor
  left :: PNode
  right :: PNode
  parent :: PNode

record 'a Set =
  heap :: "PNode \<Rightarrow> 'a Node option"
  next_free :: PNode
  terminal' :: PNode
  root' :: PNode
  size' :: nat
  head' :: PNode
  tail' :: PNode

subsection \<open>Reading and writing through a pointer\<close>

definition get_data :: "'a Set \<Rightarrow> PNode \<Rightarrow> 'a option" where
  "get_data s p = map_option data (heap s p)"

definition get_color :: "'a Set \<Rightarrow> PNode \<Rightarrow> NodeColor option" where
  "get_color s p = map_option color (heap s p)"

definition get_left :: "'a Set \<Rightarrow> PNode \<Rightarrow> PNode option" where
  "get_left s p = map_option left (heap s p)"

definition get_right :: "'a Set \<Rightarrow> PNode \<Rightarrow> PNode option" where
  "get_right s p = map_option right (heap s p)"

definition get_parent :: "'a Set \<Rightarrow> PNode \<Rightarrow> PNode option" where
  "get_parent s p = map_option parent (heap s p)"

definition set_color :: "PNode \<Rightarrow> NodeColor \<Rightarrow> 'a Set \<Rightarrow> 'a Set option" where
  "set_color p c s =
     (case heap s p of None \<Rightarrow> None
      | Some n \<Rightarrow> Some (s\<lparr>heap := (heap s)(p \<mapsto> n\<lparr>color := c\<rparr>)\<rparr>))"

definition set_left :: "PNode \<Rightarrow> PNode \<Rightarrow> 'a Set \<Rightarrow> 'a Set option" where
  "set_left p q s =
     (case heap s p of None \<Rightarrow> None
      | Some n \<Rightarrow> Some (s\<lparr>heap := (heap s)(p \<mapsto> n\<lparr>left := q\<rparr>)\<rparr>))"

definition set_right :: "PNode \<Rightarrow> PNode \<Rightarrow> 'a Set \<Rightarrow> 'a Set option" where
  "set_right p q s =
     (case heap s p of None \<Rightarrow> None
      | Some n \<Rightarrow> Some (s\<lparr>heap := (heap s)(p \<mapsto> n\<lparr>right := q\<rparr>)\<rparr>))"

definition set_parent :: "PNode \<Rightarrow> PNode \<Rightarrow> 'a Set \<Rightarrow> 'a Set option" where
  "set_parent p q s =
     (case heap s p of None \<Rightarrow> None
      | Some n \<Rightarrow> Some (s\<lparr>heap := (heap s)(p \<mapsto> n\<lparr>parent := q\<rparr>)\<rparr>))"

text \<open>\<^verbatim>\<open>new Node<ValueType>(...)\<close> and \<^verbatim>\<open>delete\<close>.\<close>

definition new_node :: "'a Node \<Rightarrow> 'a Set \<Rightarrow> PNode \<times> 'a Set" where
  "new_node n s =
     (next_free s, s\<lparr>heap := (heap s)(next_free s \<mapsto> n), next_free := Suc (next_free s)\<rparr>)"

definition delete_node :: "PNode \<Rightarrow> 'a Set \<Rightarrow> 'a Set option" where
  "delete_node p s =
     (case heap s p of None \<Rightarrow> None
      | Some n \<Rightarrow> Some (s\<lparr>heap := (heap s)(p := None)\<rparr>))"

section \<open>Node: local navigation (lines 152-200)\<close>

partial_function (option) Node_minimum :: "'a Set \<Rightarrow> PNode \<Rightarrow> PNode \<Rightarrow> PNode option" where
  "Node_minimum s terminal x = do {
     xl \<leftarrow> get_left s x;
     if xl \<noteq> terminal then Node_minimum s terminal xl else Some x }"

partial_function (option) Node_maximum :: "'a Set \<Rightarrow> PNode \<Rightarrow> PNode \<Rightarrow> PNode option" where
  "Node_maximum s terminal x = do {
     xr \<leftarrow> get_right s x;
     if xr \<noteq> terminal then Node_maximum s terminal xr else Some x }"

text \<open>The climbing loops of \<^verbatim>\<open>next\<close> and \<^verbatim>\<open>prev\<close>; \<^verbatim>\<open>&&\<close> reads \<^verbatim>\<open>x->right\<close> only when
  \<^verbatim>\<open>x != terminal\<close>.\<close>

partial_function (option) next_loop :: "'a Set \<Rightarrow> PNode \<Rightarrow> PNode \<Rightarrow> PNode \<Rightarrow> PNode option" where
  "next_loop s terminal x y =
     (if x \<noteq> terminal then do {
        xr \<leftarrow> get_right s x;
        if y = xr then do { xp \<leftarrow> get_parent s x; next_loop s terminal xp x }
        else Some x }
      else Some x)"

partial_function (option) prev_loop :: "'a Set \<Rightarrow> PNode \<Rightarrow> PNode \<Rightarrow> PNode \<Rightarrow> PNode option" where
  "prev_loop s terminal x y =
     (if x \<noteq> terminal then do {
        xl \<leftarrow> get_left s x;
        if y = xl then do { xp \<leftarrow> get_parent s x; prev_loop s terminal xp x }
        else Some x }
      else Some x)"

definition Node_next :: "'a Set \<Rightarrow> PNode \<Rightarrow> PNode \<Rightarrow> PNode option" where
  "Node_next s terminal this = do {
     r \<leftarrow> get_right s this;
     if r \<noteq> terminal then do { r \<leftarrow> get_right s this; Node_minimum s terminal r }
     else do { p \<leftarrow> get_parent s this; next_loop s terminal p this } }"

definition Node_prev :: "'a Set \<Rightarrow> PNode \<Rightarrow> PNode \<Rightarrow> PNode option" where
  "Node_prev s terminal this = do {
     l \<leftarrow> get_left s this;
     if l \<noteq> terminal then do { l \<leftarrow> get_left s this; Node_maximum s terminal l }
     else do { p \<leftarrow> get_parent s this; prev_loop s terminal p this } }"

section \<open>Set: construction, bounds, size (lines 203-285)\<close>

text \<open>The default constructor. \<open>d\<close> is \<^verbatim>\<open>ValueType()\<close>, the payload of the sentinel. The
  sentinel is allocated at the first address of an empty memory, with null links, which
  the constructor body then points at the sentinel itself.\<close>

definition Set_new :: "'a \<Rightarrow> 'a Set" where
  "Set_new d =
     (let t = (1::nat);
          n = \<lparr>data = d, color = BLACK, left = 0, right = 0, parent = 0\<rparr>;
          n = n\<lparr>left := t\<rparr>;
          n = n\<lparr>right := t\<rparr>;
          n = n\<lparr>parent := t\<rparr>
      in \<lparr>heap = Map.empty(t \<mapsto> n), next_free = Suc t, terminal' = t,
          root' = t, size' = 0, head' = t, tail' = t\<rparr>)"

text \<open>A cursor (\<^verbatim>\<open>SetIterator\<close>) is the pair of its container and its \<^verbatim>\<open>current\<close> node. The
  container is the state that is passed along, so a cursor is its \<^verbatim>\<open>current\<close> pointer.\<close>

definition Set_begin :: "'a Set \<Rightarrow> PNode" where
  "Set_begin s = head' s"

definition Set_end :: "'a Set \<Rightarrow> PNode" where
  "Set_end s = terminal' s"

definition Set_size :: "'a Set \<Rightarrow> nat" where
  "Set_size s = size' s"

definition Set_empty :: "'a Set \<Rightarrow> bool" where
  "Set_empty s = (Set_size s = 0)"

section \<open>Set: lookup (lines 396-429)\<close>

partial_function (option) find_loop :: "'a::linorder Set \<Rightarrow> 'a \<Rightarrow> PNode \<Rightarrow> PNode option" where
  "find_loop s v current =
     (if current \<noteq> terminal' s then do {
        d \<leftarrow> get_data s current;
        if v < d then do { l \<leftarrow> get_left s current; find_loop s v l }
        else if d < v then do { r \<leftarrow> get_right s current; find_loop s v r }
        else Some current }
      else Some current)"

definition Set_find :: "'a::linorder Set \<Rightarrow> 'a \<Rightarrow> PNode option" where
  "Set_find s v = find_loop s v (root' s)"

partial_function (option) lower_bound_loop ::
    "'a::linorder Set \<Rightarrow> 'a \<Rightarrow> PNode \<Rightarrow> PNode \<Rightarrow> PNode option" where
  "lower_bound_loop s v res current =
     (if current \<noteq> terminal' s then do {
        d \<leftarrow> get_data s current;
        if d < v then do { r \<leftarrow> get_right s current; lower_bound_loop s v res r }
        else if v < d then do {
          better \<leftarrow> (if res = terminal' s then Some True
                     else do { rd \<leftarrow> get_data s res; Some (d < rd) });
          l \<leftarrow> get_left s current;
          lower_bound_loop s v (if better then current else res) l }
        else Some current }
      else Some res)"

definition Set_lower_bound :: "'a::linorder Set \<Rightarrow> 'a \<Rightarrow> PNode option" where
  "Set_lower_bound s v = lower_bound_loop s v (terminal' s) (root' s)"

section \<open>Set: structural primitives (lines 432-494)\<close>

definition transplant :: "PNode \<Rightarrow> PNode \<Rightarrow> 'a Set \<Rightarrow> 'a Set option" where
  "transplant x y s = do {
     xp \<leftarrow> get_parent s x;
     s \<leftarrow> (if xp = terminal' s then Some (s\<lparr>root' := y\<rparr>)
          else do {
            xpl \<leftarrow> get_left s xp;
            if x = xpl then set_left xp y s else set_right xp y s });
     xp \<leftarrow> get_parent s x;
     set_parent y xp s }"

definition left_rotate :: "PNode \<Rightarrow> 'a Set \<Rightarrow> 'a Set option" where
  "left_rotate x s = do {
     y \<leftarrow> get_right s x;
     yl \<leftarrow> get_left s y;
     s \<leftarrow> set_right x yl s;
     yl \<leftarrow> get_left s y;
     s \<leftarrow> (if yl \<noteq> terminal' s then set_parent yl x s else Some s);
     s \<leftarrow> (if y \<noteq> terminal' s then do { xp \<leftarrow> get_parent s x; set_parent y xp s }
          else Some s);
     xp \<leftarrow> get_parent s x;
     s \<leftarrow> (if xp = terminal' s then Some (s\<lparr>root' := y\<rparr>)
          else do {
            xpl \<leftarrow> get_left s xp;
            if x = xpl then set_left xp y s else set_right xp y s });
     s \<leftarrow> set_left y x s;
     if x \<noteq> terminal' s then set_parent x y s else Some s }"

definition right_rotate :: "PNode \<Rightarrow> 'a Set \<Rightarrow> 'a Set option" where
  "right_rotate x s = do {
     y \<leftarrow> get_left s x;
     yr \<leftarrow> get_right s y;
     s \<leftarrow> set_left x yr s;
     yr \<leftarrow> get_right s y;
     s \<leftarrow> (if yr \<noteq> terminal' s then set_parent yr x s else Some s);
     s \<leftarrow> (if y \<noteq> terminal' s then do { xp \<leftarrow> get_parent s x; set_parent y xp s }
          else Some s);
     xp \<leftarrow> get_parent s x;
     s \<leftarrow> (if xp = terminal' s then Some (s\<lparr>root' := y\<rparr>)
          else do {
            xpr \<leftarrow> get_right s xp;
            if x = xpr then set_right xp y s else set_left xp y s });
     s \<leftarrow> set_right y x s;
     if x \<noteq> terminal' s then set_parent x y s else Some s }"

section \<open>Set: rebalancing (lines 497-591)\<close>

partial_function (option) insert_fix_up :: "PNode \<Rightarrow> 'a Set \<Rightarrow> 'a Set option" where
  "insert_fix_up x s = do {
     xpc \<leftarrow> get_parent s x \<bind> get_color s;
     if xpc = RED then do {
       xp \<leftarrow> get_parent s x;
       xppl \<leftarrow> get_parent s x \<bind> get_parent s \<bind> get_left s;
       if xp = xppl then do {
         y \<leftarrow> get_parent s x \<bind> get_parent s \<bind> get_right s;
         yc \<leftarrow> get_color s y;
         if yc = RED then do {
           xp \<leftarrow> get_parent s x;
           s \<leftarrow> set_color xp BLACK s;
           s \<leftarrow> set_color y BLACK s;
           xpp \<leftarrow> get_parent s x \<bind> get_parent s;
           s \<leftarrow> set_color xpp RED s;
           xpp \<leftarrow> get_parent s x \<bind> get_parent s;
           insert_fix_up xpp s }
         else do {
           xpr \<leftarrow> get_parent s x \<bind> get_right s;
           (x, s) \<leftarrow> (if x = xpr then do {
                         x \<leftarrow> get_parent s x;
                         s \<leftarrow> left_rotate x s;
                         Some (x, s) }
                       else Some (x, s));
           xp \<leftarrow> get_parent s x;
           s \<leftarrow> set_color xp BLACK s;
           xpp \<leftarrow> get_parent s x \<bind> get_parent s;
           s \<leftarrow> set_color xpp RED s;
           xpp \<leftarrow> get_parent s x \<bind> get_parent s;
           s \<leftarrow> right_rotate xpp s;
           insert_fix_up x s } }
       else do {
         y \<leftarrow> get_parent s x \<bind> get_parent s \<bind> get_left s;
         yc \<leftarrow> get_color s y;
         if yc = RED then do {
           xp \<leftarrow> get_parent s x;
           s \<leftarrow> set_color xp BLACK s;
           s \<leftarrow> set_color y BLACK s;
           xpp \<leftarrow> get_parent s x \<bind> get_parent s;
           s \<leftarrow> set_color xpp RED s;
           xpp \<leftarrow> get_parent s x \<bind> get_parent s;
           insert_fix_up xpp s }
         else do {
           xpl \<leftarrow> get_parent s x \<bind> get_left s;
           (x, s) \<leftarrow> (if x = xpl then do {
                         x \<leftarrow> get_parent s x;
                         s \<leftarrow> right_rotate x s;
                         Some (x, s) }
                       else Some (x, s));
           xp \<leftarrow> get_parent s x;
           s \<leftarrow> set_color xp BLACK s;
           xpp \<leftarrow> get_parent s x \<bind> get_parent s;
           s \<leftarrow> set_color xpp RED s;
           xpp \<leftarrow> get_parent s x \<bind> get_parent s;
           s \<leftarrow> left_rotate xpp s;
           insert_fix_up x s } } }
     else set_color (root' s) BLACK s }"

text \<open>The loop condition \<^verbatim>\<open>x != root_ && x->color == BLACK\<close> reads the colour only when
  \<^verbatim>\<open>x != root_\<close>. The assignment \<^verbatim>\<open>x = root_\<close> that ends the loop is the recursive call at
  \<open>root' s\<close>.\<close>

partial_function (option) erase_fix_up :: "PNode \<Rightarrow> 'a Set \<Rightarrow> 'a Set option" where
  "erase_fix_up x s = do {
     go \<leftarrow> (if x \<noteq> root' s then do { xc \<leftarrow> get_color s x; Some (xc = BLACK) }
            else Some False);
     if go then do {
       xpl \<leftarrow> get_parent s x \<bind> get_left s;
       if x = xpl then do {
         w \<leftarrow> get_parent s x \<bind> get_right s;
         wc \<leftarrow> get_color s w;
         (w, s) \<leftarrow> (if wc = RED then do {
                       s \<leftarrow> set_color w BLACK s;
                       xp \<leftarrow> get_parent s x;
                       s \<leftarrow> set_color xp RED s;
                       xp \<leftarrow> get_parent s x;
                       s \<leftarrow> left_rotate xp s;
                       w \<leftarrow> get_parent s x \<bind> get_right s;
                       Some (w, s) }
                     else Some (w, s));
         wlc \<leftarrow> get_left s w \<bind> get_color s;
         both \<leftarrow> (if wlc = BLACK then do {
                     wrc \<leftarrow> get_right s w \<bind> get_color s;
                     Some (wrc = BLACK) }
                   else Some False);
         if both then do {
           s \<leftarrow> set_color w RED s;
           xp \<leftarrow> get_parent s x;
           erase_fix_up xp s }
         else do {
           wrc \<leftarrow> get_right s w \<bind> get_color s;
           (w, s) \<leftarrow> (if wrc = BLACK then do {
                         wl \<leftarrow> get_left s w;
                         s \<leftarrow> set_color wl BLACK s;
                         s \<leftarrow> set_color w RED s;
                         s \<leftarrow> right_rotate w s;
                         w \<leftarrow> get_parent s x \<bind> get_right s;
                         Some (w, s) }
                       else Some (w, s));
           xpc \<leftarrow> get_parent s x \<bind> get_color s;
           s \<leftarrow> set_color w xpc s;
           xp \<leftarrow> get_parent s x;
           s \<leftarrow> set_color xp BLACK s;
           wr \<leftarrow> get_right s w;
           s \<leftarrow> set_color wr BLACK s;
           xp \<leftarrow> get_parent s x;
           s \<leftarrow> left_rotate xp s;
           erase_fix_up (root' s) s } }
       else do {
         w \<leftarrow> get_parent s x \<bind> get_left s;
         wc \<leftarrow> get_color s w;
         (w, s) \<leftarrow> (if wc = RED then do {
                       s \<leftarrow> set_color w BLACK s;
                       xp \<leftarrow> get_parent s x;
                       s \<leftarrow> set_color xp RED s;
                       xp \<leftarrow> get_parent s x;
                       s \<leftarrow> right_rotate xp s;
                       w \<leftarrow> get_parent s x \<bind> get_left s;
                       Some (w, s) }
                     else Some (w, s));
         wrc \<leftarrow> get_right s w \<bind> get_color s;
         both \<leftarrow> (if wrc = BLACK then do {
                     wlc \<leftarrow> get_left s w \<bind> get_color s;
                     Some (wlc = BLACK) }
                   else Some False);
         if both then do {
           s \<leftarrow> set_color w RED s;
           xp \<leftarrow> get_parent s x;
           erase_fix_up xp s }
         else do {
           wlc \<leftarrow> get_left s w \<bind> get_color s;
           (w, s) \<leftarrow> (if wlc = BLACK then do {
                         wr \<leftarrow> get_right s w;
                         s \<leftarrow> set_color wr BLACK s;
                         s \<leftarrow> set_color w RED s;
                         s \<leftarrow> left_rotate w s;
                         w \<leftarrow> get_parent s x \<bind> get_left s;
                         Some (w, s) }
                       else Some (w, s));
           xpc \<leftarrow> get_parent s x \<bind> get_color s;
           s \<leftarrow> set_color w xpc s;
           xp \<leftarrow> get_parent s x;
           s \<leftarrow> set_color xp BLACK s;
           wl \<leftarrow> get_left s w;
           s \<leftarrow> set_color wl BLACK s;
           xp \<leftarrow> get_parent s x;
           s \<leftarrow> right_rotate xp s;
           erase_fix_up (root' s) s } } }
     else set_color x BLACK s }"

section \<open>Set: insertion (lines 288-322)\<close>

text \<open>The descent of \<^verbatim>\<open>insert\<close>. \<open>Some None\<close> is the \<^verbatim>\<open>return\<close> inside the loop (the value
  is already stored), \<open>Some (Some y)\<close> is the loop running out at the sentinel below
  \<open>y\<close>.\<close>

partial_function (option) insert_loop ::
    "'a::linorder Set \<Rightarrow> 'a \<Rightarrow> PNode \<Rightarrow> PNode \<Rightarrow> PNode option option" where
  "insert_loop s v y x =
     (if x \<noteq> terminal' s then do {
        d \<leftarrow> get_data s x;
        if v < d then do { l \<leftarrow> get_left s x; insert_loop s v x l }
        else if d < v then do { r \<leftarrow> get_right s x; insert_loop s v x r }
        else Some None }
      else Some (Some y))"

definition Set_insert :: "'a::linorder \<Rightarrow> 'a Set \<Rightarrow> 'a Set option" where
  "Set_insert v s = do {
     found \<leftarrow> insert_loop s v (terminal' s) (root' s);
     case found of
       None \<Rightarrow> Some s
     | Some y \<Rightarrow> do {
         (z, s) \<leftarrow> Some (new_node \<lparr>data = v, color = RED, left = terminal' s,
                                  right = terminal' s, parent = y\<rparr> s);
         lo \<leftarrow> (if head' s = terminal' s then Some True
                else do { hd \<leftarrow> get_data s (head' s); Some (v < hd) });
         s \<leftarrow> Some (if lo then s\<lparr>head' := z\<rparr> else s);
         hi \<leftarrow> (if tail' s = terminal' s then Some True
                else do { td \<leftarrow> get_data s (tail' s); Some (td < v) });
         s \<leftarrow> Some (if hi then s\<lparr>tail' := z\<rparr> else s);
         s \<leftarrow> (if y = terminal' s then Some (s\<lparr>root' := z\<rparr>)
              else do {
                yd \<leftarrow> get_data s y;
                if v < yd then set_left y z s else set_right y z s });
         s \<leftarrow> Some (s\<lparr>size' := size' s + 1\<rparr>);
         insert_fix_up z s } }"

section \<open>Set: erasure (lines 325-378)\<close>

text \<open>\<^verbatim>\<open>erase(iterator)\<close> and \<^verbatim>\<open>erase(const ValueType&)\<close>. The decrement \<^verbatim>\<open>--size_\<close> runs only
  when a node is unlinked; \<^verbatim>\<open>size_\<close> counts the nodes, so it is positive then and
  the subtraction on natural numbers is the one on \<^verbatim>\<open>size_t\<close>.\<close>

definition Set_erase_it :: "PNode \<Rightarrow> 'a Set \<Rightarrow> 'a Set option" where
  "Set_erase_it old_node s =
     (if old_node = Set_end s then Some s
      else do {
        z \<leftarrow> Some old_node;
        s \<leftarrow> (if head' s = z then do {
                 h \<leftarrow> Node_next s (terminal' s) (head' s);
                 Some (s\<lparr>head' := h\<rparr>) }
              else Some s);
        s \<leftarrow> (if tail' s = z then do {
                 t \<leftarrow> Node_prev s (terminal' s) (tail' s);
                 Some (s\<lparr>tail' := t\<rparr>) }
              else Some s);
        original_color \<leftarrow> get_color s z;
        zl \<leftarrow> get_left s z;
        (x, original_color, s) \<leftarrow>
          (if zl = terminal' s then do {
             x \<leftarrow> get_right s z;
             zr \<leftarrow> get_right s z;
             s \<leftarrow> transplant z zr s;
             Some (x, original_color, s) }
           else do {
             zr \<leftarrow> get_right s z;
             if zr = terminal' s then do {
               x \<leftarrow> get_left s z;
               zl \<leftarrow> get_left s z;
               s \<leftarrow> transplant z zl s;
               Some (x, original_color, s) }
             else do {
               y \<leftarrow> get_right s z \<bind> Node_minimum s (terminal' s);
               original_color \<leftarrow> get_color s y;
               x \<leftarrow> get_right s y;
               yp \<leftarrow> get_parent s y;
               s \<leftarrow> (if yp = z then set_parent x y s
                    else do {
                      yr \<leftarrow> get_right s y;
                      s \<leftarrow> transplant y yr s;
                      zr \<leftarrow> get_right s z;
                      s \<leftarrow> set_right y zr s;
                      yr \<leftarrow> get_right s y;
                      set_parent yr y s });
               s \<leftarrow> transplant z y s;
               zl \<leftarrow> get_left s z;
               s \<leftarrow> set_left y zl s;
               yl \<leftarrow> get_left s y;
               s \<leftarrow> set_parent yl y s;
               zc \<leftarrow> get_color s z;
               s \<leftarrow> set_color y zc s;
               Some (x, original_color, s) } });
        s \<leftarrow> (if original_color = BLACK then erase_fix_up x s else Some s);
        s \<leftarrow> Some (s\<lparr>size' := size' s - 1\<rparr>);
        delete_node z s })"

definition Set_erase :: "'a::linorder \<Rightarrow> 'a Set \<Rightarrow> 'a Set option" where
  "Set_erase v s = do { it \<leftarrow> Set_find s v; Set_erase_it it s }"

section \<open>SetIterator (lines 630-680)\<close>

definition It_incr :: "'a Set \<Rightarrow> PNode \<Rightarrow> PNode option" where
  "It_incr s current = Node_next s (terminal' s) current"

definition It_decr :: "'a Set \<Rightarrow> PNode \<Rightarrow> PNode option" where
  "It_decr s current =
     (if current = terminal' s then Some (tail' s)
      else Node_prev s (terminal' s) current)"

definition It_deref :: "'a Set \<Rightarrow> PNode \<Rightarrow> 'a option" where
  "It_deref s current = get_data s current"

definition It_eq :: "PNode \<Rightarrow> PNode \<Rightarrow> bool" where
  "It_eq current other = (current = other)"

text \<open>The loops unfold by their defining equations when evaluated.\<close>

declare
  Node_minimum.simps [code]
  Node_maximum.simps [code]
  next_loop.simps [code]
  prev_loop.simps [code]
  find_loop.simps [code]
  lower_bound_loop.simps [code]
  insert_fix_up.simps [code]
  erase_fix_up.simps [code]
  insert_loop.simps [code]

section \<open>Client code: operation sequences and iteration\<close>

text \<open>A sequence of public mutations, run from left to right.\<close>

datatype 'a operation = Insert 'a | Erase 'a

fun apply_op :: "'a::linorder operation \<Rightarrow> 'a Set \<Rightarrow> 'a Set option" where
  "apply_op (Insert v) s = Set_insert v s"
| "apply_op (Erase v) s = Set_erase v s"

fun run :: "'a::linorder operation list \<Rightarrow> 'a Set \<Rightarrow> 'a Set option" where
  "run [] s = Some s"
| "run (c # cs) s = apply_op c s \<bind> run cs"

text \<open>The loop \<^verbatim>\<open>for (it = first; it != s.end(); ++it) out.push_back(*it)\<close>, and the same
  loop collecting the cursors themselves.\<close>

partial_function (option) iterate_from :: "'a Set \<Rightarrow> PNode \<Rightarrow> 'a list option" where
  "iterate_from s it =
     (if It_eq it (Set_end s) then Some []
      else do {
        v \<leftarrow> It_deref s it;
        it' \<leftarrow> It_incr s it;
        vs \<leftarrow> iterate_from s it';
        Some (v # vs) })"

declare iterate_from.simps [code]

definition iterate :: "'a Set \<Rightarrow> 'a list option" where
  "iterate s = iterate_from s (Set_begin s)"

partial_function (option) cursors_from :: "'a Set \<Rightarrow> PNode \<Rightarrow> PNode list option" where
  "cursors_from s it =
     (if It_eq it (Set_end s) then Some []
      else do {
        it' \<leftarrow> It_incr s it;
        ps \<leftarrow> cursors_from s it';
        Some (it # ps) })"

declare cursors_from.simps [code]

definition cursors :: "'a Set \<Rightarrow> PNode list option" where
  "cursors s = cursors_from s (Set_begin s)"


section \<open>Abstract trees and their representation in the store\<close>

datatype 'a tree = Tip | Bin "'a tree" PNode NodeColor 'a "'a tree"

datatype 'a frame = LF PNode NodeColor 'a "'a tree" | RF "'a tree" PNode NodeColor 'a

fun rootp :: "PNode \<Rightarrow> 'a tree \<Rightarrow> PNode" where
  "rootp T Tip = T"
| "rootp T (Bin l a c v r) = a"

fun nodes :: "'a tree \<Rightarrow> (PNode \<times> 'a) list" where
  "nodes Tip = []"
| "nodes (Bin l a c v r) = nodes l @ (a, v) # nodes r"

fun addrs :: "'a tree \<Rightarrow> PNode list" where
  "addrs Tip = []"
| "addrs (Bin l a c v r) = addrs l @ a # addrs r"

fun elems :: "'a tree \<Rightarrow> 'a list" where
  "elems Tip = []"
| "elems (Bin l a c v r) = elems l @ v # elems r"

fun col :: "'a tree \<Rightarrow> NodeColor" where
  "col Tip = BLACK"
| "col (Bin l a c v r) = c"

fun paint :: "NodeColor \<Rightarrow> 'a tree \<Rightarrow> 'a tree" where
  "paint c Tip = Tip"
| "paint c (Bin l a c' v r) = Bin l a c v r"

fun fill :: "'a tree \<Rightarrow> 'a frame \<Rightarrow> 'a tree" where
  "fill t (LF a c v r) = Bin t a c v r"
| "fill t (RF l a c v) = Bin l a c v t"

fun plug :: "'a tree \<Rightarrow> 'a frame list \<Rightarrow> 'a tree" where
  "plug t [] = t"
| "plug t (f # fs) = plug (fill t f) fs"

fun faddr :: "'a frame \<Rightarrow> PNode" where
  "faddr (LF a c v r) = a"
| "faddr (RF l a c v) = a"

fun fcol :: "'a frame \<Rightarrow> NodeColor" where
  "fcol (LF a c v r) = c"
| "fcol (RF l a c v) = c"

fun ptop :: "PNode \<Rightarrow> 'a frame list \<Rightarrow> PNode" where
  "ptop T [] = T"
| "ptop T (f # fs) = faddr f"

fun croot :: "PNode \<Rightarrow> 'a frame list \<Rightarrow> PNode" where
  "croot p [] = p"
| "croot p (f # fs) = croot (faddr f) fs"

fun cbefore :: "'a frame list \<Rightarrow> (PNode \<times> 'a) list" where
  "cbefore [] = []"
| "cbefore (LF a c v r # fs) = cbefore fs"
| "cbefore (RF l a c v # fs) = cbefore fs @ nodes l @ [(a, v)]"

fun cafter :: "'a frame list \<Rightarrow> (PNode \<times> 'a) list" where
  "cafter [] = []"
| "cafter (LF a c v r # fs) = (a, v) # nodes r @ cafter fs"
| "cafter (RF l a c v # fs) = cafter fs"

fun rep :: "(PNode \<Rightarrow> 'a Node option) \<Rightarrow> PNode \<Rightarrow> PNode \<Rightarrow> 'a tree \<Rightarrow> bool" where
  "rep h T pp Tip = True"
| "rep h T pp (Bin l a c v r) =
     (h a = Some \<lparr>data = v, color = c, left = rootp T l, right = rootp T r, parent = pp\<rparr>
      \<and> rep h T a l \<and> rep h T a r)"

fun rep_ctx ::
  "(PNode \<Rightarrow> 'a Node option) \<Rightarrow> PNode \<Rightarrow> PNode \<Rightarrow> PNode \<Rightarrow> 'a frame list \<Rightarrow> bool" where
  "rep_ctx h T up p [] = True"
| "rep_ctx h T up p (LF a c v r # fs) =
     (h a = Some \<lparr>data = v, color = c, left = p, right = rootp T r, parent = ptop up fs\<rparr>
      \<and> rep h T a r \<and> rep_ctx h T up a fs)"
| "rep_ctx h T up p (RF l a c v # fs) =
     (h a = Some \<lparr>data = v, color = c, left = rootp T l, right = p, parent = ptop up fs\<rparr>
      \<and> rep h T a l \<and> rep_ctx h T up a fs)"

definition sentinel :: "'a Set \<Rightarrow> bool" where
  "sentinel s = (\<exists>n. heap s (terminal' s) = Some n \<and> color n = BLACK
                    \<and> left n = terminal' s \<and> right n = terminal' s)"

definition tree_rep :: "'a Set \<Rightarrow> 'a tree \<Rightarrow> bool" where
  "tree_rep s t =
     (rep (heap s) (terminal' s) (terminal' s) t \<and> root' s = rootp (terminal' s) t
      \<and> distinct (addrs t) \<and> terminal' s \<notin> set (addrs t) \<and> sentinel s)"

definition same :: "'a Set \<Rightarrow> 'a Set \<Rightarrow> bool" where
  "same s s' = (terminal' s' = terminal' s \<and> head' s' = head' s \<and> tail' s' = tail' s
      \<and> size' s' = size' s \<and> next_free s' = next_free s \<and> dom (heap s') = dom (heap s)
      \<and> heap s' (terminal' s) = heap s (terminal' s))"

subsection \<open>Lists of a tree and of a context\<close>

lemma map_fst_nodes [simp]: "map fst (nodes t) = addrs t"
  by (induction t) auto

lemma map_snd_nodes [simp]: "map snd (nodes t) = elems t"
  by (induction t) auto

lemma fst_set_nodes [simp]: "fst ` set (nodes t) = set (addrs t)"
  using arg_cong[OF map_fst_nodes, of set t] by (simp del: map_fst_nodes)

lemma snd_set_nodes [simp]: "snd ` set (nodes t) = set (elems t)"
  using arg_cong[OF map_snd_nodes, of set t] by (simp del: map_snd_nodes)

lemma nodes_plug: "nodes (plug t fs) = cbefore fs @ nodes t @ cafter fs"
proof (induction fs arbitrary: t)
  case Nil show ?case by simp
next
  case (Cons f fs) show ?case by (cases f) (simp_all add: Cons)
qed

lemma addrs_plug: "addrs (plug t fs) = map fst (cbefore fs) @ addrs t @ map fst (cafter fs)"
  using arg_cong[OF nodes_plug, of "map fst" t fs] by simp

lemma elems_plug: "elems (plug t fs) = map snd (cbefore fs) @ elems t @ map snd (cafter fs)"
  using arg_cong[OF nodes_plug, of "map snd" t fs] by simp

lemma rootp_plug: "rootp T (plug t fs) = croot (rootp T t) fs"
proof (induction fs arbitrary: t)
  case Nil show ?case by simp
next
  case (Cons f fs) show ?case by (cases f) (simp_all add: Cons)
qed

lemma rootp_eq_T [simp]: "T \<notin> set (addrs t) \<Longrightarrow> (rootp T t = T) = (t = Tip)"
  by (cases t) auto

lemma rootp_neq [simp]:
  "a \<notin> set (addrs t) \<Longrightarrow> a \<noteq> T \<Longrightarrow> rootp T t \<noteq> a"
  "a \<notin> set (addrs t) \<Longrightarrow> a \<noteq> T \<Longrightarrow> a \<noteq> rootp T t"
  by (cases t; auto)+

lemma rootp_in: "t \<noteq> Tip \<Longrightarrow> rootp T t \<in> set (addrs t)"
  by (cases t) auto

lemma rootp_cases: "rootp T t = T \<or> rootp T t \<in> set (addrs t)"
  by (cases t) auto

lemma insert_dom [simp]: "h a \<noteq> None \<Longrightarrow> insert a (dom h) = dom h"
  by auto

subsection \<open>The store outside a tree does not matter\<close>

lemma rep_upd [simp]: "a \<notin> set (addrs t) \<Longrightarrow> rep (h(a := n)) T pp t = rep h T pp t"
  by (induction t arbitrary: pp) auto

lemma rep_ctx_upd [simp]:
  "a \<notin> fst ` set (cbefore fs) \<Longrightarrow> a \<notin> fst ` set (cafter fs) \<Longrightarrow>
   rep_ctx (h(a := n)) T up p fs = rep_ctx h T up p fs"
  by (induction h T up p fs rule: rep_ctx.induct) (auto simp: image_Un)

lemma rep_plug:
  "rep h T up (plug t fs) = (rep h T (ptop up fs) t \<and> rep_ctx h T up (rootp T t) fs)"
proof (induction fs arbitrary: t)
  case Nil show ?case by simp
next
  case (Cons f fs) show ?case by (cases f) (auto simp: Cons)
qed

lemma tree_rep_plug:
  "tree_rep s (plug t fs) =
     (rep (heap s) (terminal' s) (ptop (terminal' s) fs) t
      \<and> rep_ctx (heap s) (terminal' s) (terminal' s) (rootp (terminal' s) t) fs
      \<and> root' s = croot (rootp (terminal' s) t) fs
      \<and> distinct (map fst (cbefore fs) @ addrs t @ map fst (cafter fs))
      \<and> terminal' s \<notin> fst ` set (cbefore fs) \<and> terminal' s \<notin> set (addrs t)
      \<and> terminal' s \<notin> fst ` set (cafter fs) \<and> sentinel s)"
  by (auto simp: tree_rep_def rep_plug rootp_plug addrs_plug)

lemma sentinelE:
  assumes "sentinel s"
  obtains d p where "heap s (terminal' s) =
     Some \<lparr>data = d, color = BLACK, left = terminal' s, right = terminal' s, parent = p\<rparr>"
proof -
  from assms obtain n where n: "heap s (terminal' s) = Some n" "color n = BLACK"
    "left n = terminal' s" "right n = terminal' s" by (auto simp: sentinel_def)
  then have "n = \<lparr>data = data n, color = BLACK, left = terminal' s, right = terminal' s,
      parent = parent n\<rparr>" by simp
  with n(1) that show thesis by metis
qed

subsection \<open>Rotations\<close>

lemma left_rotate_tree:
  assumes "tree_rep s (plug (Bin a x cx vx (Bin b y cy vy c)) fs)"
  shows "\<exists>s'. left_rotate x s = Some s'
     \<and> tree_rep s' (plug (Bin (Bin a x cx vx b) y cy vy c) fs) \<and> same s s'"
proof -
  from assms have "sentinel s" by (simp add: tree_rep_def)
  then obtain d0 p0 where T: "heap s (terminal' s) =
     Some \<lparr>data = d0, color = BLACK, left = terminal' s, right = terminal' s, parent = p0\<rparr>"
    by (rule sentinelE)
  note defs = left_rotate_def get_left_def get_right_def get_parent_def
            set_left_def set_right_def set_parent_def same_def sentinel_def
  note unf = tree_rep_def rep_plug rootp_plug addrs_plug
  show ?thesis
  proof (cases b)
    case Tip
    show ?thesis
    proof (cases fs)
      case Nil
      with Tip T assms show ?thesis
        by (clarsimp simp: unf) (simp add: defs)
    next
      case (Cons f fs')
      with Tip T assms show ?thesis
        by (cases f; clarsimp simp: unf) (simp_all add: defs)
    qed
  next
    case (Bin bl ba bc bv br)
    show ?thesis
    proof (cases fs)
      case Nil
      with Bin T assms show ?thesis
        by (clarsimp simp: unf) (simp add: defs)
    next
      case (Cons f fs')
      with Bin T assms show ?thesis
        by (cases f; clarsimp simp: unf) (simp_all add: defs)
    qed
  qed
qed

lemma right_rotate_tree:
  assumes "tree_rep s (plug (Bin (Bin a y cy vy b) x cx vx c) fs)"
  shows "\<exists>s'. right_rotate x s = Some s'
     \<and> tree_rep s' (plug (Bin a y cy vy (Bin b x cx vx c)) fs) \<and> same s s'"
proof -
  from assms have "sentinel s" by (simp add: tree_rep_def)
  then obtain d0 p0 where T: "heap s (terminal' s) =
     Some \<lparr>data = d0, color = BLACK, left = terminal' s, right = terminal' s, parent = p0\<rparr>"
    by (rule sentinelE)
  note defs = right_rotate_def get_left_def get_right_def get_parent_def
            set_left_def set_right_def set_parent_def same_def sentinel_def
  note unf = tree_rep_def rep_plug rootp_plug addrs_plug
  show ?thesis
  proof (cases b)
    case Tip
    show ?thesis
    proof (cases fs)
      case Nil
      with Tip T assms show ?thesis
        by (clarsimp simp: unf) (simp add: defs)
    next
      case (Cons f fs')
      with Tip T assms show ?thesis
        by (cases f; clarsimp simp: unf) (simp_all add: defs)
    qed
  next
    case (Bin bl ba bc bv br)
    show ?thesis
    proof (cases fs)
      case Nil
      with Bin T assms show ?thesis
        by (clarsimp simp: unf) (simp add: defs)
    next
      case (Cons f fs')
      with Bin T assms show ?thesis
        by (cases f; clarsimp simp: unf) (simp_all add: defs)
    qed
  qed
qed

subsection \<open>Recolouring\<close>

lemma set_color_tree:
  assumes "tree_rep s (plug (Bin l a c v r) fs)"
  shows "\<exists>s'. set_color a c' s = Some s'
     \<and> tree_rep s' (plug (Bin l a c' v r) fs) \<and> same s s'"
  using assms
  by (clarsimp simp: tree_rep_def rep_plug rootp_plug addrs_plug)
     (simp add: set_color_def same_def sentinel_def)

lemma set_color_sentinel:
  assumes "tree_rep s t"
  shows "\<exists>s'. set_color (terminal' s) BLACK s = Some s' \<and> tree_rep s' t \<and> same s s'"
proof -
  from assms have "sentinel s" by (simp add: tree_rep_def)
  then obtain d0 p0 where T: "heap s (terminal' s) =
     Some \<lparr>data = d0, color = BLACK, left = terminal' s, right = terminal' s, parent = p0\<rparr>"
    by (rule sentinelE)
  with assms show ?thesis
    by (clarsimp simp: tree_rep_def) (simp add: set_color_def same_def sentinel_def)
qed


section \<open>Navigation and lookup on a represented tree\<close>

fun first :: "PNode \<Rightarrow> PNode list \<Rightarrow> PNode" where
  "first T [] = T"
| "first T (a # as) = a"

fun final :: "PNode \<Rightarrow> PNode list \<Rightarrow> PNode" where
  "final T [] = T"
| "final T (a # as) = last (a # as)"

lemma addrs_Nil [simp]: "(addrs t = []) = (t = Tip)"
  by (cases t) auto

lemma first_append [simp]: "first T (xs @ ys) = (if xs = [] then first T ys else first T xs)"
  by (cases xs) auto

lemma final_append [simp]: "final T (xs @ ys) = (if ys = [] then final T xs else final T ys)"
  by (cases xs; cases ys) auto

lemma final_snoc [simp]: "final T (xs @ [a]) = a"
  by (cases xs) auto

lemma plug_append: "plug t (fs @ gs) = plug (plug t fs) gs"
  by (induction fs arbitrary: t) auto

lemma Node_minimum_first:
  assumes "rep (heap s) T pp t" "t \<noteq> Tip" "T \<notin> set (addrs t)"
  shows "Node_minimum s T (rootp T t) = Some (first T (addrs t))"
  using assms
proof (induction t arbitrary: pp)
  case Tip
  then show ?case by simp
next
  case (Bin l a c v r)
  show ?case
  proof (cases l)
    case Tip
    with Bin.prems show ?thesis
      by (subst Node_minimum.simps) (simp add: get_left_def)
  next
    case B: (Bin ll la lc lv lr)
    with Bin.prems have "Node_minimum s T (rootp T l) = Some (first T (addrs l))"
      by (intro Bin.IH(1)[of a]) auto
    with B Bin.prems show ?thesis
      by (subst Node_minimum.simps) (simp add: get_left_def)
  qed
qed

lemma Node_maximum_final:
  assumes "rep (heap s) T pp t" "t \<noteq> Tip" "T \<notin> set (addrs t)"
  shows "Node_maximum s T (rootp T t) = Some (final T (addrs t))"
  using assms
proof (induction t arbitrary: pp)
  case Tip
  then show ?case by simp
next
  case (Bin l a c v r)
  show ?case
  proof (cases r)
    case Tip
    with Bin.prems show ?thesis
      by (subst Node_maximum.simps) (simp add: get_right_def)
  next
    case B: (Bin rl ra rc rv rr)
    with Bin.prems have "Node_maximum s T (rootp T r) = Some (final T (addrs r))"
      by (intro Bin.IH(2)[of a]) auto
    with B Bin.prems show ?thesis
      by (subst Node_maximum.simps) (simp add: get_right_def)
  qed
qed

lemma next_loop_first:
  assumes "rep_ctx (heap s) T T p fs" "p \<noteq> T"
    "distinct (map fst (cbefore fs) @ p # map fst (cafter fs))"
    "T \<notin> fst ` set (cbefore fs)" "T \<notin> fst ` set (cafter fs)"
  shows "next_loop s T (ptop T fs) p = Some (first T (map fst (cafter fs)))"
  using assms
proof (induction fs arbitrary: p)
  case Nil
  show ?case by (subst next_loop.simps) simp
next
  case (Cons f fs)
  show ?case
  proof (cases f)
    case (LF a c v r)
    with Cons.prems show ?thesis
      by (subst next_loop.simps) (auto simp: get_right_def)
  next
    case (RF l a c v)
    with Cons.prems have "next_loop s T (ptop T fs) a = Some (first T (map fst (cafter fs)))"
      by (intro Cons.IH) auto
    with RF Cons.prems show ?thesis
      by (subst next_loop.simps) (auto simp: get_right_def get_parent_def)
  qed
qed

lemma prev_loop_final:
  assumes "rep_ctx (heap s) T T p fs" "p \<noteq> T"
    "distinct (map fst (cbefore fs) @ p # map fst (cafter fs))"
    "T \<notin> fst ` set (cbefore fs)" "T \<notin> fst ` set (cafter fs)"
  shows "prev_loop s T (ptop T fs) p = Some (final T (map fst (cbefore fs)))"
  using assms
proof (induction fs arbitrary: p)
  case Nil
  show ?case by (subst prev_loop.simps) simp
next
  case (Cons f fs)
  show ?case
  proof (cases f)
    case (RF l a c v)
    with Cons.prems show ?thesis
      by (subst prev_loop.simps) (auto simp: get_left_def)
  next
    case (LF a c v r)
    with Cons.prems have "prev_loop s T (ptop T fs) a = Some (final T (map fst (cbefore fs)))"
      by (intro Cons.IH) auto
    with LF Cons.prems show ?thesis
      by (subst prev_loop.simps) (auto simp: get_left_def get_parent_def)
  qed
qed

lemma Node_next_plug:
  assumes "tree_rep s (plug (Bin l x c v r) fs)"
  shows "Node_next s (terminal' s) x = Some (first (terminal' s) (addrs r @ map fst (cafter fs)))"
proof (cases r)
  case Tip
  from assms have "next_loop s (terminal' s) (ptop (terminal' s) fs) x
      = Some (first (terminal' s) (map fst (cafter fs)))"
    by (intro next_loop_first) (auto simp: tree_rep_def rep_plug rootp_plug addrs_plug)
  with Tip assms show ?thesis
    by (auto simp: Node_next_def get_right_def get_parent_def tree_rep_def rep_plug rootp_plug addrs_plug)
next
  case (Bin rl ra rc rv rr)
  from assms have "Node_minimum s (terminal' s) (rootp (terminal' s) r)
      = Some (first (terminal' s) (addrs r))"
    by (intro Node_minimum_first[of s _ x]) (auto simp: tree_rep_def rep_plug rootp_plug addrs_plug Bin)
  with Bin assms show ?thesis
    by (auto simp: Node_next_def get_right_def tree_rep_def rep_plug rootp_plug addrs_plug)
qed

lemma Node_prev_plug:
  assumes "tree_rep s (plug (Bin l x c v r) fs)"
  shows "Node_prev s (terminal' s) x = Some (final (terminal' s) (map fst (cbefore fs) @ addrs l))"
proof (cases l)
  case Tip
  from assms have "prev_loop s (terminal' s) (ptop (terminal' s) fs) x
      = Some (final (terminal' s) (map fst (cbefore fs)))"
    by (intro prev_loop_final) (auto simp: tree_rep_def rep_plug rootp_plug addrs_plug)
  with Tip assms show ?thesis
    by (auto simp: Node_prev_def get_left_def get_parent_def tree_rep_def rep_plug rootp_plug addrs_plug)
next
  case (Bin ll la lc lv lr)
  from assms have "Node_maximum s (terminal' s) (rootp (terminal' s) l)
      = Some (final (terminal' s) (addrs l))"
    by (intro Node_maximum_final[of s _ x]) (auto simp: tree_rep_def rep_plug rootp_plug addrs_plug Bin)
  with Bin assms show ?thesis
    by (auto simp: Node_prev_def get_left_def tree_rep_def rep_plug rootp_plug addrs_plug)
qed

text \<open>Every node of a tree is the root of a subtree in a context.\<close>

lemma focus:
  assumes "(a, v) \<in> set (nodes t)"
  shows "\<exists>l c r fs. t = plug (Bin l a c v r) fs"
  using assms
proof (induction t)
  case Tip
  then show ?case by simp
next
  case (Bin l b cb vb r)
  from Bin.prems consider "(a, v) \<in> set (nodes l)" | "a = b \<and> v = vb" | "(a, v) \<in> set (nodes r)"
    by auto
  then show ?case
  proof cases
    case 1
    with Bin.IH(1) obtain l' c r' fs where "l = plug (Bin l' a c v r') fs" by blast
    then have "Bin l b cb vb r = plug (Bin l' a c v r') (fs @ [LF b cb vb r])"
      by (simp add: plug_append)
    then show ?thesis by blast
  next
    case 2
    then have "Bin l b cb vb r = plug (Bin l a cb v r) []" by simp
    then show ?thesis by blast
  next
    case 3
    with Bin.IH(2) obtain l' c r' fs where "r = plug (Bin l' a c v r') fs" by blast
    then have "Bin l b cb vb r = plug (Bin l' a c v r') (fs @ [RF l b cb vb])"
      by (simp add: plug_append)
    then show ?thesis by blast
  qed
qed

lemma distinct_split_eq:
  assumes "distinct (xs @ a # ys)" "xs @ a # ys = xs' @ a # ys'"
  shows "xs = xs' \<and> ys = ys'"
  using assms
proof (induction xs arbitrary: xs')
  case Nil
  then show ?case by (cases xs') auto
next
  case (Cons x xs)
  show ?case
  proof (cases xs')
    case Nil
    with Cons.prems show ?thesis by auto
  next
    case C: (Cons x' zs)
    from Cons.prems(1) have "distinct (xs @ a # ys)" by simp
    moreover from Cons.prems(2) C have "x = x'" "xs @ a # ys = zs @ a # ys'" by simp_all
    ultimately show ?thesis using Cons.IH[of zs] C by simp
  qed
qed

lemma addrs_nodes: "a \<in> set (addrs t) \<Longrightarrow> \<exists>v. (a, v) \<in> set (nodes t)"
  by (induction t) auto

lemma nodes_addrs: "(a, v) \<in> set (nodes t) \<Longrightarrow> a \<in> set (addrs t)"
  by (induction t) auto

lemma Node_next_list:
  assumes "tree_rep s t" "addrs t = xs @ a # ys"
  shows "Node_next s (terminal' s) a = Some (first (terminal' s) ys)"
proof -
  from assms(2) have "a \<in> set (addrs t)" by simp
  then obtain v where "(a, v) \<in> set (nodes t)"
    using addrs_nodes by fast
  from focus[OF this] obtain l c r fs where t: "t = plug (Bin l a c v r) fs"
    by blast
  with assms have "distinct (xs @ a # ys)"
    "xs @ a # ys = (map fst (cbefore fs) @ addrs l) @ a # (addrs r @ map fst (cafter fs))"
    by (auto simp: tree_rep_def addrs_plug simp del: distinct_append)
  then have "ys = addrs r @ map fst (cafter fs)"
    by (rule distinct_split_eq[THEN conjunct2])
  with Node_next_plug[of s l a c v r fs] assms(1) t show ?thesis by simp
qed

lemma Node_prev_list:
  assumes "tree_rep s t" "addrs t = xs @ a # ys"
  shows "Node_prev s (terminal' s) a = Some (final (terminal' s) xs)"
proof -
  from assms(2) have "a \<in> set (addrs t)" by simp
  then obtain v where "(a, v) \<in> set (nodes t)"
    using addrs_nodes by fast
  from focus[OF this] obtain l c r fs where t: "t = plug (Bin l a c v r) fs"
    by blast
  with assms have "distinct (xs @ a # ys)"
    "xs @ a # ys = (map fst (cbefore fs) @ addrs l) @ a # (addrs r @ map fst (cafter fs))"
    by (auto simp: tree_rep_def addrs_plug simp del: distinct_append)
  then have "xs = map fst (cbefore fs) @ addrs l"
    by (rule distinct_split_eq[THEN conjunct1])
  with Node_prev_plug[of s l a c v r fs] assms(1) t show ?thesis by simp
qed

lemma rep_data:
  assumes "rep h T pp t" "(a, v) \<in> set (nodes t)"
  shows "\<exists>n. h a = Some n \<and> data n = v"
  using assms by (induction t arbitrary: pp) auto

lemma iterate_from_nodes:
  assumes "tree_rep s t" "nodes t = xs @ ys"
  shows "iterate_from s (first (terminal' s) (map fst ys)) = Some (map snd ys)"
  using assms
proof (induction ys arbitrary: xs)
  case Nil
  show ?case by (subst iterate_from.simps) (simp add: It_eq_def Set_end_def)
next
  case (Cons p ys)
  obtain a v where p: "p = (a, v)" by (cases p)
  from Cons.prems p have mem: "(a, v) \<in> set (nodes t)" by simp
  with Cons.prems(1) have d: "It_deref s a = Some v"
    using rep_data[of "heap s" _ _ t a v] by (auto simp: tree_rep_def It_deref_def get_data_def)
  from mem have "a \<in> set (addrs t)" by (rule nodes_addrs)
  with Cons.prems(1) have aT: "a \<noteq> terminal' s" by (auto simp: tree_rep_def)
  from Cons.prems(2) p have "map fst (nodes t) = map fst (xs @ (a, v) # ys)"
    by (simp only:)
  then have "addrs t = map fst xs @ a # map fst ys" by simp
  with Cons.prems(1) have n: "It_incr s a = Some (first (terminal' s) (map fst ys))"
    unfolding It_incr_def by (rule Node_next_list)
  from Cons.prems p have "iterate_from s (first (terminal' s) (map fst ys)) = Some (map snd ys)"
    by (intro Cons.IH[of "xs @ [p]"]) auto
  with d n aT p show ?case
    by (subst iterate_from.simps) (simp add: It_eq_def Set_end_def)
qed

lemma iterate_elems:
  assumes "tree_rep s t" "head' s = first (terminal' s) (addrs t)"
  shows "iterate s = Some (elems t)"
  using iterate_from_nodes[OF assms(1), of "[]" "nodes t"] assms(2)
  by (simp add: iterate_def Set_begin_def)


section \<open>The invariants\<close>

fun bh :: "'a tree \<Rightarrow> nat" where
  "bh Tip = 0"
| "bh (Bin l a c v r) = (if c = BLACK then Suc (bh l) else bh l)"

fun no_red_red :: "'a tree \<Rightarrow> bool" where
  "no_red_red Tip = True"
| "no_red_red (Bin l a c v r) =
     ((c = RED \<longrightarrow> col l = BLACK \<and> col r = BLACK) \<and> no_red_red l \<and> no_red_red r)"

fun balanced :: "'a tree \<Rightarrow> bool" where
  "balanced Tip = True"
| "balanced (Bin l a c v r) = (bh l = bh r \<and> balanced l \<and> balanced r)"

fun bst :: "'a::linorder tree \<Rightarrow> bool" where
  "bst Tip = True"
| "bst (Bin l a c v r) =
     ((\<forall>x \<in> set (elems l). x < v) \<and> (\<forall>x \<in> set (elems r). v < x) \<and> bst l \<and> bst r)"

definition set_inv :: "'a::linorder Set \<Rightarrow> 'a tree \<Rightarrow> bool" where
  "set_inv s t =
     (tree_rep s t
      \<and> dom (heap s) = insert (terminal' s) (set (addrs t))
      \<and> (\<forall>a \<in> dom (heap s). a < next_free s)
      \<and> head' s = first (terminal' s) (addrs t)
      \<and> tail' s = final (terminal' s) (addrs t)
      \<and> size' s = length (addrs t)
      \<and> bst t \<and> col t = BLACK \<and> no_red_red t \<and> balanced t)"

definition set_ok :: "'a::linorder Set \<Rightarrow> bool" where
  "set_ok s = (\<exists>t. set_inv s t)"

lemma bst_sorted: "bst t = sorted_wrt (<) (elems t)"
proof (induction t)
  case Tip
  show ?case by simp
next
  case (Bin l a c v r)
  have "(\<forall>x\<in>set (elems l). \<forall>y\<in>set (elems r). x < y)"
    if "\<forall>x\<in>set (elems l). x < v" "\<forall>x\<in>set (elems r). v < x"
    using that by (meson less_trans)
  with Bin show ?case by (auto simp: sorted_wrt_append)
qed

lemma bst_distinct: "bst t \<Longrightarrow> distinct (elems t)"
  by (simp add: bst_sorted strict_sorted_iff)

lemma length_elems [simp]: "length (elems t) = length (addrs t)"
  by (induction t) auto

lemma nodes_elems: "(a, v) \<in> set (nodes t) \<Longrightarrow> v \<in> set (elems t)"
  by (induction t) auto

lemma elems_nodes: "v \<in> set (elems t) \<Longrightarrow> \<exists>a. (a, v) \<in> set (nodes t)"
  by (induction t) auto

lemma nodes_same_data:
  assumes "distinct (elems t)" "(a, v) \<in> set (nodes t)" "(b, v) \<in> set (nodes t)"
  shows "a = b"
  using assms by (induction t) (auto dest: nodes_elems)

lemma nodes_same_addr:
  assumes "distinct (addrs t)" "(a, v) \<in> set (nodes t)" "(a, w) \<in> set (nodes t)"
  shows "v = w"
  using assms by (induction t) (auto dest: nodes_addrs)

section \<open>find and lower-bound on the abstract tree\<close>

fun lookup :: "PNode \<Rightarrow> 'a::linorder tree \<Rightarrow> 'a \<Rightarrow> PNode" where
  "lookup T Tip v = T"
| "lookup T (Bin l a c x r) v =
     (if v < x then lookup T l v else if x < v then lookup T r v else a)"

fun lb :: "PNode \<Rightarrow> 'a::linorder tree \<Rightarrow> 'a \<Rightarrow> PNode \<Rightarrow> PNode" where
  "lb T Tip v res = res"
| "lb T (Bin l a c x r) v res =
     (if x < v then lb T r v res else if v < x then lb T l v a else a)"

lemma find_loop_lookup:
  assumes "rep (heap s) (terminal' s) pp t" "terminal' s \<notin> set (addrs t)"
  shows "find_loop s v (rootp (terminal' s) t) = Some (lookup (terminal' s) t v)"
  using assms
proof (induction t arbitrary: pp)
  case Tip
  show ?case by (subst find_loop.simps) simp
next
  case (Bin l a c x r)
  show ?case using Bin
    by (subst find_loop.simps) (auto simp: get_data_def get_left_def get_right_def)
qed

lemma lookup_present:
  "bst t \<Longrightarrow> v \<in> set (elems t) \<Longrightarrow> (lookup T t v, v) \<in> set (nodes t)"
  by (induction t) (auto dest: nodes_elems)

lemma lookup_absent: "v \<notin> set (elems t) \<Longrightarrow> lookup T t v = T"
  by (induction t) auto

lemma lower_bound_loop_lb:
  assumes "rep (heap s) (terminal' s) pp t" "terminal' s \<notin> set (addrs t)" "bst t"
    "res = terminal' s \<or> (\<exists>n. heap s res = Some n \<and> (\<forall>x \<in> set (elems t). x < data n))"
  shows "lower_bound_loop s v res (rootp (terminal' s) t) = Some (lb (terminal' s) t v res)"
  using assms
proof (induction t arbitrary: pp res)
  case Tip
  show ?case by (subst lower_bound_loop.simps) simp
next
  case (Bin l a c x r)
  have R: "lower_bound_loop s v res (rootp (terminal' s) r) = Some (lb (terminal' s) r v res)"
    using Bin.prems by (intro Bin.IH(2)[of a]) auto
  have L: "lower_bound_loop s v a (rootp (terminal' s) l) = Some (lb (terminal' s) l v a)"
    using Bin.prems by (intro Bin.IH(1)[of a]) auto
  from Bin.prems(4) have better: "res \<noteq> terminal' s \<Longrightarrow> \<exists>n. heap s res = Some n \<and> x < data n"
    by auto
  show ?case
  proof (cases "res = terminal' s")
    case True
    with Bin.prems R L show ?thesis
      by (subst lower_bound_loop.simps) (auto simp: get_data_def get_left_def get_right_def)
  next
    case False
    with better obtain n where "heap s res = Some n" "x < data n" by blast
    with False Bin.prems R L show ?thesis
      by (subst lower_bound_loop.simps) (auto simp: get_data_def get_left_def get_right_def)
  qed
qed

lemma lb_spec:
  assumes "bst t"
  shows "(\<exists>m. (lb T t v res, m) \<in> set (nodes t) \<and> v \<le> m
              \<and> (\<forall>x \<in> set (elems t). v \<le> x \<longrightarrow> m \<le> x))
         \<or> (lb T t v res = res \<and> (\<forall>x \<in> set (elems t). x < v))"
  using assms
proof (induction t arbitrary: res)
  case Tip
  show ?case by simp
next
  case (Bin l a c x r)
  from Bin.prems have B: "bst l" "bst r" "\<forall>y\<in>set (elems l). y < x" "\<forall>y\<in>set (elems r). x < y"
    by simp_all
  consider "x < v" | "v < x" | "x = v" by (meson linorder_cases)
  then show ?case
  proof cases
    case 1
    have small: "\<forall>y\<in>set (elems l). y < v" using B(3) 1 by (meson less_trans)
    from Bin.IH(2)[OF B(2), of res] show ?thesis
    proof
      assume "\<exists>m. (lb T r v res, m) \<in> set (nodes r) \<and> v \<le> m
              \<and> (\<forall>x \<in> set (elems r). v \<le> x \<longrightarrow> m \<le> x)"
      then obtain m where m: "(lb T r v res, m) \<in> set (nodes r)" "v \<le> m"
        "\<forall>x \<in> set (elems r). v \<le> x \<longrightarrow> m \<le> x" by blast
      have "\<forall>y \<in> set (elems (Bin l a c x r)). v \<le> y \<longrightarrow> m \<le> y"
        using m(3) small 1 by auto
      with m(1,2) 1 show ?thesis by auto
    next
      assume "lb T r v res = res \<and> (\<forall>x \<in> set (elems r). x < v)"
      with small 1 show ?thesis by auto
    qed
  next
    case 2
    have big: "\<forall>y\<in>set (elems r). v \<le> y \<and> x \<le> y" using B(4) 2 by (meson less_imp_le less_trans)
    from Bin.IH(1)[OF B(1), of a] show ?thesis
    proof
      assume "\<exists>m. (lb T l v a, m) \<in> set (nodes l) \<and> v \<le> m
              \<and> (\<forall>x \<in> set (elems l). v \<le> x \<longrightarrow> m \<le> x)"
      then obtain m where m: "(lb T l v a, m) \<in> set (nodes l)" "v \<le> m"
        "\<forall>x \<in> set (elems l). v \<le> x \<longrightarrow> m \<le> x" by blast
      from m(1) have "m \<in> set (elems l)" by (rule nodes_elems)
      with B(3) have "m < x" by blast
      then have "\<forall>y\<in>set (elems r). m \<le> y" using big by (meson less_imp_le order_trans)
      with m(3) \<open>m < x\<close> have "\<forall>y \<in> set (elems (Bin l a c x r)). v \<le> y \<longrightarrow> m \<le> y"
        by auto
      with m(1,2) 2 show ?thesis by auto
    next
      assume A: "lb T l v a = a \<and> (\<forall>x \<in> set (elems l). x < v)"
      then have "\<forall>y \<in> set (elems (Bin l a c x r)). v \<le> y \<longrightarrow> x \<le> y"
        using big by auto
      with A 2 show ?thesis by auto
    qed
  next
    case 3
    with B have "\<forall>y \<in> set (elems (Bin l a c x r)). v \<le> y \<longrightarrow> v \<le> y" by simp
    with 3 show ?thesis by auto
  qed
qed


section \<open>Rebalancing after insertion\<close>

lemma same_refl [simp]: "same s s"
  by (simp add: same_def)

lemma same_trans: "same s s1 \<Longrightarrow> same s1 s2 \<Longrightarrow> same s s2"
  by (simp add: same_def)

lemma same_terminal: "same s s' \<Longrightarrow> terminal' s' = terminal' s"
  by (simp add: same_def)

lemma set_color_root:
  assumes "tree_rep s t"
  shows "\<exists>s'. set_color (root' s) BLACK s = Some s' \<and> tree_rep s' (paint BLACK t) \<and> same s s'"
proof (cases t)
  case Tip
  with assms have "root' s = terminal' s" by (simp add: tree_rep_def)
  with set_color_sentinel[OF assms] Tip show ?thesis by simp
next
  case (Bin l a c v r)
  with assms have "root' s = a" by (simp add: tree_rep_def)
  with set_color_tree[of s l a c v r "[]" BLACK] assms Bin show ?thesis by simp
qed

text \<open>The loop of \<^verbatim>\<open>insert_fix_up\<close> on a subtree in its context: \<open>t\<close> is the subtree at
  \<^verbatim>\<open>x\<close>, the frames are the ancestors of \<^verbatim>\<open>x\<close>, nearest first. \<open>None\<close> is a red parent
  without a grandparent, where the code would write to the sentinel.\<close>

fun ifu :: "'a tree \<Rightarrow> 'a frame list \<Rightarrow> 'a tree option" where
  "ifu t [] = Some (paint BLACK t)"
| "ifu t [f] = (if fcol f = RED then None else Some (paint BLACK (fill t f)))"
| "ifu t (f # LF ga gc gv u # fs) =
     (if fcol f = BLACK then Some (paint BLACK (plug t (f # LF ga gc gv u # fs)))
      else if col u = RED
      then ifu (Bin (paint BLACK (fill t f)) ga RED gv (paint BLACK u)) fs
      else (case f of
          LF pa pc pv sib \<Rightarrow>
            Some (paint BLACK (plug (Bin t pa BLACK pv (Bin sib ga RED gv u)) fs))
        | RF sib pa pc pv \<Rightarrow>
            (case t of
               Tip \<Rightarrow> None
             | Bin xl xa xc xv xr \<Rightarrow>
                 Some (paint BLACK
                   (plug (Bin (Bin sib pa pc pv xl) xa BLACK xv (Bin xr ga RED gv u)) fs)))))"
| "ifu t (f # RF u ga gc gv # fs) =
     (if fcol f = BLACK then Some (paint BLACK (plug t (f # RF u ga gc gv # fs)))
      else if col u = RED
      then ifu (Bin (paint BLACK u) ga RED gv (paint BLACK (fill t f))) fs
      else (case f of
          RF sib pa pc pv \<Rightarrow>
            Some (paint BLACK (plug (Bin (Bin u ga RED gv sib) pa BLACK pv t) fs))
        | LF pa pc pv sib \<Rightarrow>
            (case t of
               Tip \<Rightarrow> None
             | Bin xl xa xc xv xr \<Rightarrow>
                 Some (paint BLACK
                   (plug (Bin (Bin u ga RED gv xl) xa BLACK xv (Bin xr pa pc pv sib)) fs)))))"

lemmas unf = tree_rep_def rep_plug rootp_plug addrs_plug
lemmas acc = get_color_def get_parent_def get_left_def get_right_def get_data_def

lemma insert_fix_up_exit:
  assumes "tree_rep s (plug (Bin l x c v r) fs)" "fs = [] \<or> fcol (hd fs) = BLACK"
  shows "\<exists>s'. insert_fix_up x s = Some s'
    \<and> tree_rep s' (paint BLACK (plug (Bin l x c v r) fs)) \<and> same s s'"
proof -
  from assms(1) have "sentinel s" by (simp add: tree_rep_def)
  then obtain d0 p0 where T: "heap s (terminal' s) =
     Some \<lparr>data = d0, color = BLACK, left = terminal' s, right = terminal' s, parent = p0\<rparr>"
    by (rule sentinelE)
  have "insert_fix_up x s = set_color (root' s) BLACK s"
  proof (cases fs)
    case Nil
    with assms T show ?thesis
      by (subst insert_fix_up.simps) (clarsimp simp: unf acc)
  next
    case (Cons f fs')
    with assms T show ?thesis
      by (subst insert_fix_up.simps) (cases f; clarsimp simp: unf acc)
  qed
  with set_color_root[OF assms(1)] show ?thesis by simp
qed


subsection \<open>One pass of the loop of \<^verbatim>\<open>insert_fix_up\<close>\<close>

lemma ifu_step_red_uncle_L:
  assumes "tree_rep s (plug (Bin xl x xc xv xr) (f # LF ga gc gv (Bin ul ua RED uv ur) # fs))"
    "fcol f = RED"
  shows "\<exists>s'. insert_fix_up x s = insert_fix_up ga s'
     \<and> tree_rep s' (plug (Bin (paint BLACK (fill (Bin xl x xc xv xr) f)) ga RED gv
                          (Bin ul ua BLACK uv ur)) fs)
     \<and> same s s'"
proof (cases f)
  case (LF pa pc pv sib)
  with assms show ?thesis
    apply (clarsimp simp: unf)
    apply (subst insert_fix_up.simps)
    apply (simp add: acc set_color_def)
    apply (rule exI, rule conjI, rule refl)
    apply (simp add: unf same_def sentinel_def)
    done
next
  case (RF sib pa pc pv)
  with assms show ?thesis
    apply (clarsimp simp: unf)
    apply (subst insert_fix_up.simps)
    apply (simp add: acc set_color_def)
    apply (rule exI, rule conjI, rule refl)
    apply (simp add: unf same_def sentinel_def)
    done
qed

lemma ifu_step_LL:
  assumes "tree_rep s (plug (Bin xl x xc xv xr) (LF pa RED pv sib # LF ga gc gv u # fs))"
    "col u = BLACK"
  shows "\<exists>s'. insert_fix_up x s = Some s'
     \<and> tree_rep s' (paint BLACK
          (plug (Bin (Bin xl x xc xv xr) pa BLACK pv (Bin sib ga RED gv u)) fs))
     \<and> same s s'"
proof -
  let ?t = "Bin xl x xc xv xr"
  from assms(1) have "sentinel s" by (simp add: tree_rep_def)
  then obtain d0 p0 where T: "heap s (terminal' s) =
     Some \<lparr>data = d0, color = BLACK, left = terminal' s, right = terminal' s, parent = p0\<rparr>"
    by (rule sentinelE)
  from assms(1) have T0: "tree_rep s (plug (Bin ?t pa RED pv sib) (LF ga gc gv u # fs))"
    by simp
  from set_color_tree[OF T0, of BLACK] obtain s1 where s1: "set_color pa BLACK s = Some s1"
    "tree_rep s1 (plug (Bin ?t pa BLACK pv sib) (LF ga gc gv u # fs))" "same s s1" by blast
  from s1(2) have T1: "tree_rep s1 (plug (Bin (Bin ?t pa BLACK pv sib) ga gc gv u) fs)"
    by simp
  from set_color_tree[OF T1, of RED] obtain s2 where s2: "set_color ga RED s1 = Some s2"
    "tree_rep s2 (plug (Bin (Bin ?t pa BLACK pv sib) ga RED gv u) fs)" "same s1 s2" by blast
  from right_rotate_tree[OF s2(2)] obtain s3 where s3: "right_rotate ga s2 = Some s3"
    "tree_rep s3 (plug (Bin ?t pa BLACK pv (Bin sib ga RED gv u)) fs)" "same s2 s3" by blast
  from s3(2) have T3: "tree_rep s3 (plug ?t (LF pa BLACK pv (Bin sib ga RED gv u) # fs))"
    by simp
  from insert_fix_up_exit[OF T3] obtain s4 where s4: "insert_fix_up x s3 = Some s4"
    "tree_rep s4 (paint BLACK (plug ?t (LF pa BLACK pv (Bin sib ga RED gv u) # fs)))"
    "same s3 s4" by auto
  have tm: "terminal' s1 = terminal' s" "terminal' s2 = terminal' s"
    using s1(3) s2(3) by (simp_all add: same_def)
  have "insert_fix_up x s = insert_fix_up x s3"
    using assms(1) s1(2) s2(2) T assms(2)
    apply (subst insert_fix_up.simps)
    apply (cases u)
     apply (clarsimp simp: unf tm)
     apply (simp add: acc s1(1) s2(1) s3(1))
    apply (clarsimp simp: unf tm)
    apply (simp add: acc s1(1) s2(1) s3(1))
    done
  moreover have "same s s4"
    using s1(3) s2(3) s3(3) s4(3) by (blast intro: same_trans)
  ultimately show ?thesis using s4 by auto
qed

lemma ifu_step_LR:
  assumes "tree_rep s (plug (Bin xl x xc xv xr) (RF sib pa RED pv # LF ga gc gv u # fs))"
    "col u = BLACK"
  shows "\<exists>s'. insert_fix_up x s = Some s'
     \<and> tree_rep s' (paint BLACK
          (plug (Bin (Bin sib pa RED pv xl) x BLACK xv (Bin xr ga RED gv u)) fs))
     \<and> same s s'"
proof -
  let ?p = "Bin sib pa RED pv xl"
  from assms(1) have "sentinel s" by (simp add: tree_rep_def)
  then obtain d0 p0 where T: "heap s (terminal' s) =
     Some \<lparr>data = d0, color = BLACK, left = terminal' s, right = terminal' s, parent = p0\<rparr>"
    by (rule sentinelE)
  from assms(1) have T0: "tree_rep s (plug (Bin sib pa RED pv (Bin xl x xc xv xr))
      (LF ga gc gv u # fs))" by simp
  from left_rotate_tree[OF T0] obtain s1 where s1: "left_rotate pa s = Some s1"
    "tree_rep s1 (plug (Bin ?p x xc xv xr) (LF ga gc gv u # fs))" "same s s1" by blast
  from set_color_tree[OF s1(2), of BLACK] obtain s2 where s2: "set_color x BLACK s1 = Some s2"
    "tree_rep s2 (plug (Bin ?p x BLACK xv xr) (LF ga gc gv u # fs))" "same s1 s2" by blast
  from s2(2) have T2: "tree_rep s2 (plug (Bin (Bin ?p x BLACK xv xr) ga gc gv u) fs)"
    by simp
  from set_color_tree[OF T2, of RED] obtain s3 where s3: "set_color ga RED s2 = Some s3"
    "tree_rep s3 (plug (Bin (Bin ?p x BLACK xv xr) ga RED gv u) fs)" "same s2 s3" by blast
  from right_rotate_tree[OF s3(2)] obtain s4 where s4: "right_rotate ga s3 = Some s4"
    "tree_rep s4 (plug (Bin ?p x BLACK xv (Bin xr ga RED gv u)) fs)" "same s3 s4" by blast
  from s4(2) have T4: "tree_rep s4 (plug ?p (LF x BLACK xv (Bin xr ga RED gv u) # fs))"
    by simp
  from insert_fix_up_exit[OF T4] obtain s5 where s5: "insert_fix_up pa s4 = Some s5"
    "tree_rep s5 (paint BLACK (plug ?p (LF x BLACK xv (Bin xr ga RED gv u) # fs)))"
    "same s4 s5" by auto
  have tm: "terminal' s1 = terminal' s" "terminal' s2 = terminal' s" "terminal' s3 = terminal' s"
    using s1(3) s2(3) s3(3) by (simp_all add: same_def)
  have "insert_fix_up x s = insert_fix_up pa s4"
    using assms(1) s1(2) s2(2) s3(2) T assms(2)
    apply (subst insert_fix_up.simps)
    apply (cases u)
     apply (clarsimp simp: unf tm)
     apply (simp add: acc s1(1) s2(1) s3(1) s4(1))
    apply (clarsimp simp: unf tm)
    apply (simp add: acc s1(1) s2(1) s3(1) s4(1))
    done
  moreover have "same s s5"
    using s1(3) s2(3) s3(3) s4(3) s5(3) by (blast intro: same_trans)
  ultimately show ?thesis using s5 by auto
qed

lemma ifu_step_red_uncle_R:
  assumes "tree_rep s (plug (Bin xl x xc xv xr) (f # RF (Bin ul ua RED uv ur) ga gc gv # fs))"
    "fcol f = RED"
  shows "\<exists>s'. insert_fix_up x s = insert_fix_up ga s'
     \<and> tree_rep s' (plug (Bin (Bin ul ua BLACK uv ur) ga RED gv
                          (paint BLACK (fill (Bin xl x xc xv xr) f))) fs)
     \<and> same s s'"
proof (cases f)
  case (LF pa pc pv sib)
  with assms show ?thesis
    apply (clarsimp simp: unf)
    apply (subst insert_fix_up.simps)
    apply (simp add: acc set_color_def)
    apply (rule exI, rule conjI, rule refl)
    apply (simp add: unf same_def sentinel_def)
    done
next
  case (RF sib pa pc pv)
  with assms show ?thesis
    apply (clarsimp simp: unf)
    apply (subst insert_fix_up.simps)
    apply (simp add: acc set_color_def)
    apply (rule exI, rule conjI, rule refl)
    apply (simp add: unf same_def sentinel_def)
    done
qed

lemma ifu_step_RR:
  assumes "tree_rep s (plug (Bin xl x xc xv xr) (RF sib pa RED pv # RF u ga gc gv # fs))"
    "col u = BLACK"
  shows "\<exists>s'. insert_fix_up x s = Some s'
     \<and> tree_rep s' (paint BLACK
          (plug (Bin (Bin u ga RED gv sib) pa BLACK pv (Bin xl x xc xv xr)) fs))
     \<and> same s s'"
proof -
  let ?t = "Bin xl x xc xv xr"
  from assms(1) have "sentinel s" by (simp add: tree_rep_def)
  then obtain d0 p0 where T: "heap s (terminal' s) =
     Some \<lparr>data = d0, color = BLACK, left = terminal' s, right = terminal' s, parent = p0\<rparr>"
    by (rule sentinelE)
  from assms(1) have T0: "tree_rep s (plug (Bin sib pa RED pv ?t) (RF u ga gc gv # fs))"
    by simp
  from set_color_tree[OF T0, of BLACK] obtain s1 where s1: "set_color pa BLACK s = Some s1"
    "tree_rep s1 (plug (Bin sib pa BLACK pv ?t) (RF u ga gc gv # fs))" "same s s1" by blast
  from s1(2) have T1: "tree_rep s1 (plug (Bin u ga gc gv (Bin sib pa BLACK pv ?t)) fs)"
    by simp
  from set_color_tree[OF T1, of RED] obtain s2 where s2: "set_color ga RED s1 = Some s2"
    "tree_rep s2 (plug (Bin u ga RED gv (Bin sib pa BLACK pv ?t)) fs)" "same s1 s2" by blast
  from left_rotate_tree[OF s2(2)] obtain s3 where s3: "left_rotate ga s2 = Some s3"
    "tree_rep s3 (plug (Bin (Bin u ga RED gv sib) pa BLACK pv ?t) fs)" "same s2 s3" by blast
  from s3(2) have T3: "tree_rep s3 (plug ?t (RF (Bin u ga RED gv sib) pa BLACK pv # fs))"
    by simp
  from insert_fix_up_exit[OF T3] obtain s4 where s4: "insert_fix_up x s3 = Some s4"
    "tree_rep s4 (paint BLACK (plug ?t (RF (Bin u ga RED gv sib) pa BLACK pv # fs)))"
    "same s3 s4" by auto
  have tm: "terminal' s1 = terminal' s" "terminal' s2 = terminal' s"
    using s1(3) s2(3) by (simp_all add: same_def)
  have "insert_fix_up x s = insert_fix_up x s3"
    using assms(1) s1(2) s2(2) T assms(2)
    apply (subst insert_fix_up.simps)
    apply (cases u)
     apply (clarsimp simp: unf tm)
     apply (simp add: acc s1(1) s2(1) s3(1))
    apply (clarsimp simp: unf tm)
    apply (simp add: acc s1(1) s2(1) s3(1))
    done
  moreover have "same s s4"
    using s1(3) s2(3) s3(3) s4(3) by (blast intro: same_trans)
  ultimately show ?thesis using s4 by auto
qed

lemma ifu_step_RL:
  assumes "tree_rep s (plug (Bin xl x xc xv xr) (LF pa RED pv sib # RF u ga gc gv # fs))"
    "col u = BLACK"
  shows "\<exists>s'. insert_fix_up x s = Some s'
     \<and> tree_rep s' (paint BLACK
          (plug (Bin (Bin u ga RED gv xl) x BLACK xv (Bin xr pa RED pv sib)) fs))
     \<and> same s s'"
proof -
  let ?p = "Bin xr pa RED pv sib"
  from assms(1) have "sentinel s" by (simp add: tree_rep_def)
  then obtain d0 p0 where T: "heap s (terminal' s) =
     Some \<lparr>data = d0, color = BLACK, left = terminal' s, right = terminal' s, parent = p0\<rparr>"
    by (rule sentinelE)
  from assms(1) have T0: "tree_rep s (plug (Bin (Bin xl x xc xv xr) pa RED pv sib)
      (RF u ga gc gv # fs))" by simp
  from right_rotate_tree[OF T0] obtain s1 where s1: "right_rotate pa s = Some s1"
    "tree_rep s1 (plug (Bin xl x xc xv ?p) (RF u ga gc gv # fs))" "same s s1" by blast
  from set_color_tree[OF s1(2), of BLACK] obtain s2 where s2: "set_color x BLACK s1 = Some s2"
    "tree_rep s2 (plug (Bin xl x BLACK xv ?p) (RF u ga gc gv # fs))" "same s1 s2" by blast
  from s2(2) have T2: "tree_rep s2 (plug (Bin u ga gc gv (Bin xl x BLACK xv ?p)) fs)"
    by simp
  from set_color_tree[OF T2, of RED] obtain s3 where s3: "set_color ga RED s2 = Some s3"
    "tree_rep s3 (plug (Bin u ga RED gv (Bin xl x BLACK xv ?p)) fs)" "same s2 s3" by blast
  from left_rotate_tree[OF s3(2)] obtain s4 where s4: "left_rotate ga s3 = Some s4"
    "tree_rep s4 (plug (Bin (Bin u ga RED gv xl) x BLACK xv ?p) fs)" "same s3 s4" by blast
  from s4(2) have T4: "tree_rep s4 (plug ?p (RF (Bin u ga RED gv xl) x BLACK xv # fs))"
    by simp
  from insert_fix_up_exit[OF T4] obtain s5 where s5: "insert_fix_up pa s4 = Some s5"
    "tree_rep s5 (paint BLACK (plug ?p (RF (Bin u ga RED gv xl) x BLACK xv # fs)))"
    "same s4 s5" by auto
  have tm: "terminal' s1 = terminal' s" "terminal' s2 = terminal' s" "terminal' s3 = terminal' s"
    using s1(3) s2(3) s3(3) by (simp_all add: same_def)
  have "insert_fix_up x s = insert_fix_up pa s4"
    using assms(1) s1(2) s2(2) s3(2) T assms(2)
    apply (subst insert_fix_up.simps)
    apply (cases u)
     apply (clarsimp simp: unf tm)
     apply (simp add: acc s1(1) s2(1) s3(1) s4(1))
    apply (clarsimp simp: unf tm)
    apply (simp add: acc s1(1) s2(1) s3(1) s4(1))
    done
  moreover have "same s s5"
    using s1(3) s2(3) s3(3) s4(3) s5(3) by (blast intro: same_trans)
  ultimately show ?thesis using s5 by auto
qed

lemma col_RED_Bin: "col u = RED \<Longrightarrow> \<exists>ul ua uv ur. u = Bin ul ua RED uv ur"
  by (cases u) auto

theorem insert_fix_up_refines:
  assumes "ifu t fs = Some t'" "t \<noteq> Tip" "tree_rep s (plug t fs)"
  shows "\<exists>s'. insert_fix_up (rootp (terminal' s) t) s = Some s' \<and> tree_rep s' t' \<and> same s s'"
  using assms
proof (induction t fs arbitrary: s rule: ifu.induct)
  case (1 t)
  then obtain xl x xc xv xr where t: "t = Bin xl x xc xv xr" by (cases t) auto
  with 1 insert_fix_up_exit[of s xl x xc xv xr "[]"] show ?case by auto
next
  case (2 t f)
  then obtain xl x xc xv xr where t: "t = Bin xl x xc xv xr" by (cases t) auto
  from 2 have "fcol f = BLACK" by (cases "fcol f") auto
  with 2 t insert_fix_up_exit[of s xl x xc xv xr "[f]"] show ?case by auto
next
  case (3 t f ga gc gv u fs)
  then obtain xl x xc xv xr where t: "t = Bin xl x xc xv xr" by (cases t) auto
  show ?case
  proof (cases "fcol f")
    case BLACK
    with 3 t insert_fix_up_exit[of s xl x xc xv xr "f # LF ga gc gv u # fs"] show ?thesis
      by auto
  next
    case RED
    show ?thesis
    proof (cases "col u")
      case R: RED
      then obtain ul ua uv ur where u: "u = Bin ul ua RED uv ur" using col_RED_Bin by blast
      from ifu_step_red_uncle_L[of s xl x xc xv xr f ga gc gv ul ua uv ur fs] 3(4) t u RED
      obtain s1 where s1: "insert_fix_up x s = insert_fix_up ga s1"
        "tree_rep s1 (plug (Bin (paint BLACK (fill t f)) ga RED gv (paint BLACK u)) fs)"
        "same s s1" by auto
      from 3(2) RED R have "ifu (Bin (paint BLACK (fill t f)) ga RED gv (paint BLACK u)) fs = Some t'"
        by simp
      from 3(1)[OF _ R this _ s1(2)] RED obtain s' where
        "insert_fix_up ga s1 = Some s'" "tree_rep s' t'" "same s1 s'" by auto
      with s1 t show ?thesis by (auto intro: same_trans)
    next
      case B: BLACK
      show ?thesis
      proof (cases f)
        case (LF pa pc pv sib)
        with 3(2,4) t RED B ifu_step_LL[of s xl x xc xv xr pa pv sib ga gc gv u fs]
        show ?thesis by auto
      next
        case (RF sib pa pc pv)
        with 3(2,4) t RED B ifu_step_LR[of s xl x xc xv xr sib pa pv ga gc gv u fs]
        show ?thesis by auto
      qed
    qed
  qed
next
  case (4 t f u ga gc gv fs)
  then obtain xl x xc xv xr where t: "t = Bin xl x xc xv xr" by (cases t) auto
  show ?case
  proof (cases "fcol f")
    case BLACK
    with 4 t insert_fix_up_exit[of s xl x xc xv xr "f # RF u ga gc gv # fs"] show ?thesis
      by auto
  next
    case RED
    show ?thesis
    proof (cases "col u")
      case R: RED
      then obtain ul ua uv ur where u: "u = Bin ul ua RED uv ur" using col_RED_Bin by blast
      from ifu_step_red_uncle_R[of s xl x xc xv xr f ul ua uv ur ga gc gv fs] 4(4) t u RED
      obtain s1 where s1: "insert_fix_up x s = insert_fix_up ga s1"
        "tree_rep s1 (plug (Bin (paint BLACK u) ga RED gv (paint BLACK (fill t f))) fs)"
        "same s s1" by auto
      from 4(2) RED R have "ifu (Bin (paint BLACK u) ga RED gv (paint BLACK (fill t f))) fs = Some t'"
        by simp
      from 4(1)[OF _ R this _ s1(2)] RED obtain s' where
        "insert_fix_up ga s1 = Some s'" "tree_rep s' t'" "same s1 s'" by auto
      with s1 t show ?thesis by (auto intro: same_trans)
    next
      case B: BLACK
      show ?thesis
      proof (cases f)
        case (RF sib pa pc pv)
        with 4(2,4) t RED B ifu_step_RR[of s xl x xc xv xr sib pa pv u ga gc gv fs]
        show ?thesis by auto
      next
        case (LF pa pc pv sib)
        with 4(2,4) t RED B ifu_step_RL[of s xl x xc xv xr pa pv sib u ga gc gv fs]
        show ?thesis by auto
      qed
    qed
  qed
qed


section \<open>The red-black invariants of a subtree in its context\<close>

fun ctx_ok :: "NodeColor \<Rightarrow> nat \<Rightarrow> 'a frame list \<Rightarrow> bool" where
  "ctx_ok c n [] = True"
| "ctx_ok c n (LF a ca v r # fs) =
     (no_red_red r \<and> balanced r \<and> bh r = n \<and> (ca = RED \<longrightarrow> c = BLACK \<and> col r = BLACK)
      \<and> ctx_ok ca (if ca = BLACK then Suc n else n) fs)"
| "ctx_ok c n (RF l a ca v # fs) =
     (no_red_red l \<and> balanced l \<and> bh l = n \<and> (ca = RED \<longrightarrow> c = BLACK \<and> col l = BLACK)
      \<and> ctx_ok ca (if ca = BLACK then Suc n else n) fs)"

lemma rb_plug:
  "(no_red_red (plug t fs) \<and> balanced (plug t fs)) =
   (no_red_red t \<and> balanced t \<and> ctx_ok (col t) (bh t) fs)"
proof (induction fs arbitrary: t)
  case Nil
  show ?case by simp
next
  case (Cons f fs)
  show ?case by (cases f) (auto simp: Cons)
qed

lemma col_plug: "col (plug t fs) = (if fs = [] then col t else fcol (last fs))"
proof (induction fs arbitrary: t)
  case Nil
  show ?case by simp
next
  case (Cons f fs)
  show ?case by (cases f) (auto simp: Cons)
qed

lemma ctx_ok_black: "ctx_ok c n fs \<Longrightarrow> ctx_ok BLACK n fs"
  by (induction c n fs rule: ctx_ok.induct) auto

lemma ctx_ok_top_black: "fs = [] \<or> fcol (hd fs) = BLACK \<Longrightarrow> ctx_ok c n fs = ctx_ok c' n fs"
  by (induction c n fs rule: ctx_ok.induct) auto

lemma nodes_paint [simp]: "nodes (paint c t) = nodes t"
  by (cases t) auto

lemma balanced_paint [simp]: "balanced (paint c t) = balanced t"
  by (cases t) auto

lemma no_red_red_paint_black [simp]: "no_red_red t \<Longrightarrow> no_red_red (paint BLACK t)"
  by (cases t) auto

lemma col_paint_black [simp]: "col (paint BLACK t) = BLACK"
  by (cases t) auto

lemma bh_paint_black: "col t = RED \<Longrightarrow> bh (paint BLACK t) = Suc (bh t)"
  by (cases t) auto

lemma paint_black_id [simp]: "col t = BLACK \<Longrightarrow> paint BLACK t = t"
  by (cases t) auto

lemma NodeColor_neq [simp]: "(c \<noteq> BLACK) = (c = RED)" "(c \<noteq> RED) = (c = BLACK)"
  by (cases c; simp)+

lemma rb_paint_root:
  assumes "no_red_red t" "balanced t"
  shows "no_red_red (paint BLACK t) \<and> balanced (paint BLACK t) \<and> col (paint BLACK t) = BLACK
    \<and> nodes (paint BLACK t) = nodes t"
  using assms by simp

theorem ifu_rb:
  assumes "no_red_red t" "balanced t" "col t = RED" "ctx_ok BLACK (bh t) fs"
    "fs = [] \<or> fcol (last fs) = BLACK"
  shows "\<exists>t'. ifu t fs = Some t' \<and> no_red_red t' \<and> balanced t' \<and> col t' = BLACK
    \<and> nodes t' = nodes (plug t fs)"
  using assms
proof (induction t fs rule: ifu.induct)
  case (1 t)
  then show ?case by simp
next
  case (2 t f)
  then show ?case by (cases f) auto
next
  case (3 t f ga gc gv u fs)
  show ?case
  proof (cases "fcol f")
    case BLACK
    from 3(5) BLACK have "ctx_ok (col t) (bh t) (f # LF ga gc gv u # fs)"
      using ctx_ok_top_black[of "f # LF ga gc gv u # fs" BLACK "bh t" "col t"] by simp
    with 3(2,3) have "no_red_red (plug t (f # LF ga gc gv u # fs))"
      "balanced (plug t (f # LF ga gc gv u # fs))"
      using rb_plug[of t "f # LF ga gc gv u # fs"] by simp_all
    with BLACK show ?thesis by simp
  next
    case RED
    show ?thesis
    proof (cases "col u")
      case R: RED
      then obtain ul ua uv ur where u: "u = Bin ul ua RED uv ur" using col_RED_Bin by blast
      let ?t' = "Bin (paint BLACK (fill t f)) ga RED gv (paint BLACK u)"
      from 3(2-5) RED u have "no_red_red ?t'" "balanced ?t'" "col ?t' = RED"
        "ctx_ok BLACK (bh ?t') fs"
        by (cases f; auto dest: ctx_ok_black)+
      moreover from 3(6) have "fs = [] \<or> fcol (last fs) = BLACK" by (auto split: if_splits)
      ultimately obtain t' where "ifu ?t' fs = Some t'" "no_red_red t'"
        "balanced t'" "col t' = BLACK" "nodes t' = nodes (plug ?t' fs)"
        using 3(1)[OF _ R] RED by auto
      with RED R u show ?thesis by (cases f) (auto simp: nodes_plug)
    next
      case B: BLACK
      obtain xl x xc xv xr where t: "t = Bin xl x xc xv xr" using 3(4) by (cases t) auto
      show ?thesis
      proof (cases f)
        case (LF pa pc pv sib)
        let ?n = "Bin t pa BLACK pv (Bin sib ga RED gv u)"
        from 3(2-5) RED B LF have "no_red_red ?n" "balanced ?n" "ctx_ok (col ?n) (bh ?n) fs"
          by auto
        then have "no_red_red (plug ?n fs)" "balanced (plug ?n fs)"
          using rb_plug[of ?n fs] by simp_all
        with RED B LF show ?thesis by (simp add: nodes_plug)
      next
        case (RF sib pa pc pv)
        let ?n = "Bin (Bin sib pa pc pv xl) x BLACK xv (Bin xr ga RED gv u)"
        from 3(2-5) RED B RF t have "no_red_red ?n" "balanced ?n" "ctx_ok (col ?n) (bh ?n) fs"
          by auto
        then have "no_red_red (plug ?n fs)" "balanced (plug ?n fs)"
          using rb_plug[of ?n fs] by simp_all
        with RED B RF t show ?thesis by (simp add: nodes_plug)
      qed
    qed
  qed
next
  case (4 t f u ga gc gv fs)
  show ?case
  proof (cases "fcol f")
    case BLACK
    from 4(5) BLACK have "ctx_ok (col t) (bh t) (f # RF u ga gc gv # fs)"
      using ctx_ok_top_black[of "f # RF u ga gc gv # fs" BLACK "bh t" "col t"] by simp
    with 4(2,3) have "no_red_red (plug t (f # RF u ga gc gv # fs))"
      "balanced (plug t (f # RF u ga gc gv # fs))"
      using rb_plug[of t "f # RF u ga gc gv # fs"] by simp_all
    with BLACK show ?thesis by simp
  next
    case RED
    show ?thesis
    proof (cases "col u")
      case R: RED
      then obtain ul ua uv ur where u: "u = Bin ul ua RED uv ur" using col_RED_Bin by blast
      let ?t' = "Bin (paint BLACK u) ga RED gv (paint BLACK (fill t f))"
      from 4(2-5) RED u have "no_red_red ?t'" "balanced ?t'" "col ?t' = RED"
        "ctx_ok BLACK (bh ?t') fs"
        by (cases f; auto dest: ctx_ok_black)+
      moreover from 4(6) have "fs = [] \<or> fcol (last fs) = BLACK" by (auto split: if_splits)
      ultimately obtain t' where "ifu ?t' fs = Some t'" "no_red_red t'"
        "balanced t'" "col t' = BLACK" "nodes t' = nodes (plug ?t' fs)"
        using 4(1)[OF _ R] RED by auto
      with RED R u show ?thesis by (cases f) (auto simp: nodes_plug)
    next
      case B: BLACK
      obtain xl x xc xv xr where t: "t = Bin xl x xc xv xr" using 4(4) by (cases t) auto
      show ?thesis
      proof (cases f)
        case (RF sib pa pc pv)
        let ?n = "Bin (Bin u ga RED gv sib) pa BLACK pv t"
        from 4(2-5) RED B RF have "no_red_red ?n" "balanced ?n" "ctx_ok (col ?n) (bh ?n) fs"
          by auto
        then have "no_red_red (plug ?n fs)" "balanced (plug ?n fs)"
          using rb_plug[of ?n fs] by simp_all
        with RED B RF show ?thesis by (simp add: nodes_plug)
      next
        case (LF pa pc pv sib)
        let ?n = "Bin (Bin u ga RED gv xl) x BLACK xv (Bin xr pa pc pv sib)"
        from 4(2-5) RED B LF t have "no_red_red ?n" "balanced ?n" "ctx_ok (col ?n) (bh ?n) fs"
          by auto
        then have "no_red_red (plug ?n fs)" "balanced (plug ?n fs)"
          using rb_plug[of ?n fs] by simp_all
        with RED B LF t show ?thesis by (simp add: nodes_plug)
      qed
    qed
  qed
qed


section \<open>Insertion\<close>

text \<open>The descent of \<^verbatim>\<open>insert\<close> on the abstract tree: the context of the leaf under which
  the new node goes, or \<open>None\<close> when the value is met on the way.\<close>

fun descend :: "'a::linorder tree \<Rightarrow> 'a \<Rightarrow> 'a frame list \<Rightarrow> 'a frame list option" where
  "descend Tip v fs = Some fs"
| "descend (Bin l a c x r) v fs =
     (if v < x then descend l v (LF a c x r # fs)
      else if x < v then descend r v (RF l a c x # fs)
      else None)"

fun fits :: "'a::linorder \<Rightarrow> 'a frame \<Rightarrow> bool" where
  "fits v (LF a c x r) = (v < x)"
| "fits v (RF l a c x) = (x < v)"

lemma insert_loop_descend:
  assumes "rep (heap s) (terminal' s) (ptop (terminal' s) fs) t" "terminal' s \<notin> set (addrs t)"
  shows "insert_loop s v (ptop (terminal' s) fs) (rootp (terminal' s) t)
    = Some (map_option (ptop (terminal' s)) (descend t v fs))"
  using assms
proof (induction t arbitrary: fs)
  case Tip
  show ?case by (subst insert_loop.simps) simp
next
  case (Bin l a c x r)
  have L: "insert_loop s v a (rootp (terminal' s) l)
    = Some (map_option (ptop (terminal' s)) (descend l v (LF a c x r # fs)))"
    using Bin.IH(1)[of "LF a c x r # fs"] Bin.prems by simp
  have R: "insert_loop s v a (rootp (terminal' s) r)
    = Some (map_option (ptop (terminal' s)) (descend r v (RF l a c x # fs)))"
    using Bin.IH(2)[of "RF l a c x # fs"] Bin.prems by simp
  from Bin.prems have a: "a \<noteq> terminal' s" "heap s a = Some \<lparr>data = x, color = c,
      left = rootp (terminal' s) l, right = rootp (terminal' s) r,
      parent = ptop (terminal' s) fs\<rparr>" by auto
  show ?case
    apply (subst insert_loop.simps)
    apply (simp only: rootp.simps a if_True if_False not_False_eq_True)
    apply (simp add: acc a L R)
    done
qed

lemma descend_plug: "descend t v fs = Some fs' \<Longrightarrow> plug Tip fs' = plug t fs"
  by (induction t arbitrary: fs) (auto split: if_splits)

lemma descend_fits:
  "descend t v fs = Some fs' \<Longrightarrow> \<forall>f \<in> set fs. fits v f \<Longrightarrow> \<forall>f \<in> set fs'. fits v f"
proof (induction t arbitrary: fs)
  case Tip
  then show ?case by simp
next
  case (Bin l a c x r)
  show ?case
  proof (cases "v < x")
    case True
    with Bin.prems(1) have "descend l v (LF a c x r # fs) = Some fs'" by simp
    moreover from True Bin.prems(2) have "\<forall>f \<in> set (LF a c x r # fs). fits v f" by simp
    ultimately show ?thesis by (rule Bin.IH(1))
  next
    case False
    with Bin.prems(1) have x: "x < v" by (simp split: if_splits)
    with False Bin.prems(1) have "descend r v (RF l a c x # fs) = Some fs'" by simp
    moreover from x Bin.prems(2) have "\<forall>f \<in> set (RF l a c x # fs). fits v f" by simp
    ultimately show ?thesis by (rule Bin.IH(2))
  qed
qed


lemma descend_present: "bst t \<Longrightarrow> v \<in> set (elems t) \<Longrightarrow> descend t v fs = None"
  by (induction t arbitrary: fs) auto

lemma descend_Some: "v \<notin> set (elems t) \<Longrightarrow> \<exists>fs'. descend t v fs = Some fs'"
  by (induction t arbitrary: fs) auto

lemma fits_bounds:
  assumes "sorted_wrt (<) (elems (plug t fs))" "\<forall>f \<in> set fs. fits v f"
  shows "(\<forall>x \<in> snd ` set (cbefore fs). x < v) \<and> (\<forall>x \<in> snd ` set (cafter fs). v < x)"
  using assms
proof (induction fs arbitrary: t)
  case Nil
  show ?case by simp
next
  case (Cons f fs)
  from Cons.prems have IH: "(\<forall>x \<in> snd ` set (cbefore fs). x < v) \<and> (\<forall>x \<in> snd ` set (cafter fs). v < x)"
    by (intro Cons.IH[of "fill t f"]) auto
  from Cons.prems(1) have S: "sorted_wrt (<) (elems (fill t f))"
    by (simp add: elems_plug sorted_wrt_append)
  show ?case
  proof (cases f)
    case (LF a c x r)
    with S have "\<forall>y \<in> set (elems r). x < y" by (simp add: sorted_wrt_append)
    moreover from LF Cons.prems(2) have "v < x" by simp
    ultimately have "\<forall>y \<in> set (elems r). v < y" by (meson less_trans)
    with LF IH \<open>v < x\<close> show ?thesis by (auto simp: image_Un)
  next
    case (RF l a c x)
    with S have "\<forall>y \<in> set (elems l). y < x" by (simp add: sorted_wrt_append)
    moreover from RF Cons.prems(2) have "x < v" by simp
    ultimately have "\<forall>y \<in> set (elems l). y < v" by (meson less_trans)
    with RF IH \<open>x < v\<close> show ?thesis by (auto simp: image_Un)
  qed
qed

lemma sorted_insert_plug:
  assumes "sorted_wrt (<) (elems (plug Tip fs))" "\<forall>f \<in> set fs. fits v f"
  shows "sorted_wrt (<) (elems (plug (Bin Tip z c v Tip) fs))"
  using assms fits_bounds[OF assms]
  by (auto simp: elems_plug sorted_wrt_append)


subsection \<open>Linking the new node\<close>

lemma plug_Tip_Tip: "plug t fs = Tip \<Longrightarrow> fs = [] \<and> t = Tip"
proof (induction fs arbitrary: t)
  case Nil
  then show ?case by simp
next
  case (Cons f fs)
  then have "fill t f = Tip" by simp
  then show ?case by (cases f) auto
qed

lemma set_inv_head_node:
  assumes "set_inv s t" "t \<noteq> Tip"
  shows "\<exists>n. heap s (head' s) = Some n \<and> (head' s, data n) = hd (nodes t)
    \<and> head' s \<noteq> terminal' s \<and> head' s \<in> set (addrs t)"
proof -
  from assms(2) have ne: "nodes t \<noteq> []" by (cases t) auto
  then obtain a v where h: "hd (nodes t) = (a, v)" by (cases "hd (nodes t)") auto
  with ne have mem: "(a, v) \<in> set (nodes t)" by (metis hd_in_set)
  from ne h have "first (terminal' s) (addrs t) = a"
    using arg_cong[of "map fst (nodes t)" "addrs t" "first (terminal' s)"]
    by (cases "nodes t") (auto simp del: map_fst_nodes simp: map_fst_nodes[symmetric])
  with assms(1) have "head' s = a" by (simp add: set_inv_def)
  moreover from assms(1) mem rep_data[of "heap s" "terminal' s" "terminal' s" t a v]
  obtain n where "heap s a = Some n" "data n = v" by (auto simp: set_inv_def tree_rep_def)
  moreover from mem have "a \<in> set (addrs t)" by (rule nodes_addrs)
  moreover from this assms(1) have "a \<noteq> terminal' s" by (auto simp: set_inv_def tree_rep_def)
  ultimately show ?thesis using h by auto
qed

lemma set_inv_tail_node:
  assumes "set_inv s t" "t \<noteq> Tip"
  shows "\<exists>n. heap s (tail' s) = Some n \<and> (tail' s, data n) = last (nodes t)
    \<and> tail' s \<noteq> terminal' s \<and> tail' s \<in> set (addrs t)"
proof -
  from assms(2) have ne: "nodes t \<noteq> []" by (cases t) auto
  then obtain a v where h: "last (nodes t) = (a, v)" by (cases "last (nodes t)") auto
  with ne have mem: "(a, v) \<in> set (nodes t)" by (metis last_in_set)
  from ne have "final (terminal' s) (map fst (nodes t)) = fst (last (nodes t))"
    by (cases "nodes t") (auto simp del: map_fst_nodes simp: last_map)
  with h have "final (terminal' s) (addrs t) = a" by simp
  with assms(1) have "tail' s = a" by (simp add: set_inv_def)
  moreover from assms(1) mem rep_data[of "heap s" "terminal' s" "terminal' s" t a v]
  obtain n where "heap s a = Some n" "data n = v" by (auto simp: set_inv_def tree_rep_def)
  moreover from mem have "a \<in> set (addrs t)" by (rule nodes_addrs)
  moreover from this assms(1) have "a \<noteq> terminal' s" by (auto simp: set_inv_def tree_rep_def)
  ultimately show ?thesis using h by auto
qed

lemma hd_less_iff:
  assumes "\<forall>x \<in> snd ` set bs. x < (v::'a::linorder)" "\<forall>x \<in> snd ` set as. v < x" "bs @ as \<noteq> []"
  shows "(v < snd (hd (bs @ as))) = (bs = [])"
proof (cases bs)
  case Nil
  with assms show ?thesis by (cases as) auto
next
  case (Cons b bs')
  with assms(1) have "snd b < v" by simp
  with Cons show ?thesis by auto
qed

lemma last_less_iff:
  assumes "\<forall>x \<in> snd ` set bs. x < (v::'a::linorder)" "\<forall>x \<in> snd ` set as. v < x" "bs @ as \<noteq> []"
  shows "(snd (last (bs @ as)) < v) = (as = [])"
proof (cases "as = []")
  case True
  with assms have "last bs \<in> set bs" by simp
  with assms(1) True show ?thesis by simp
next
  case False
  then have "last as \<in> set as" by simp
  with assms(2) have "v < snd (last as)" by simp
  with False show ?thesis by auto
qed

lemma insert_fix_up_cong: "S = S' \<Longrightarrow> insert_fix_up z S = insert_fix_up z S'"
  by simp

lemma insert_link:
  assumes inv: "set_inv s t" and d: "descend t v [] = Some fs"
  shows "\<exists>s5. Set_insert v s = insert_fix_up (next_free s) s5
     \<and> tree_rep s5 (plug (Bin Tip (next_free s) RED v Tip) fs)
     \<and> head' s5 = first (terminal' s) (addrs (plug (Bin Tip (next_free s) RED v Tip) fs))
     \<and> tail' s5 = final (terminal' s) (addrs (plug (Bin Tip (next_free s) RED v Tip) fs))
     \<and> size' s5 = Suc (size' s) \<and> next_free s5 = Suc (next_free s)
     \<and> dom (heap s5) = insert (next_free s) (dom (heap s)) \<and> terminal' s5 = terminal' s"
proof -
  define T where "T = terminal' s"
  define z where "z = next_free s"
  have pt: "plug Tip fs = t" using descend_plug[OF d] by simp
  from inv have tr0: "tree_rep s t" by (simp add: set_inv_def)
  with pt have tr: "tree_rep s (plug Tip fs)" by simp
  have fit: "\<forall>f \<in> set fs. fits v f" using descend_fits[OF d] by simp
  from inv have "sorted_wrt (<) (elems (plug Tip fs))" by (simp add: set_inv_def bst_sorted pt)
  from fits_bounds[OF this fit]
  have bnd: "\<forall>x \<in> snd ` set (cbefore fs). x < v" "\<forall>x \<in> snd ` set (cafter fs). v < x"
    by simp_all
  have loop: "insert_loop s v T (root' s) = Some (Some (ptop T fs))"
    using insert_loop_descend[of s "[]" t v] tr0 d by (simp add: tree_rep_def T_def)
  from inv have dom: "dom (heap s) = insert T (set (addrs t))" "\<forall>a \<in> dom (heap s). a < z"
    by (simp_all add: set_inv_def T_def z_def)
  then have fresh: "heap s z = None" "z \<noteq> T" "z \<notin> set (addrs t)" by (auto simp: domIff)
  from fresh(3) pt have "z \<notin> set (addrs (plug Tip fs))" by simp
  then have fresh': "z \<notin> fst ` set (cbefore fs)" "z \<notin> fst ` set (cafter fs)"
    by (simp_all add: addrs_plug)
  from inv pt have ht: "head' s = first T (map fst (cbefore fs) @ map fst (cafter fs))"
    "tail' s = final T (map fst (cbefore fs) @ map fst (cafter fs))"
    "size' s = length (cbefore fs) + length (cafter fs)"
    by (auto simp: set_inv_def addrs_plug T_def)
  from tr obtain d0 p0 where Tn: "heap s T =
     Some \<lparr>data = d0, color = BLACK, left = T, right = T, parent = p0\<rparr>"
    unfolding T_def by (auto simp: tree_rep_def elim: sentinelE)
  note post = unf same_def sentinel_def image_Un T_def[symmetric] z_def[symmetric]
  show ?thesis
  proof (cases fs)
    case Nil
    let ?S = "s\<lparr>heap := (heap s)(z \<mapsto> \<lparr>data = v, color = RED, left = T, right = T, parent = T\<rparr>),
      next_free := Suc z, head' := z, tail' := z, root' := z, size' := Suc (size' s)\<rparr>"
    from Nil ht have "Set_insert v s = insert_fix_up z ?S"
      by (simp add: Set_insert_def new_node_def loop T_def[symmetric] z_def[symmetric])
    moreover from Nil tr fresh Tn have "tree_rep ?S (plug (Bin Tip z RED v Tip) fs)"
      by (simp add: post)
    moreover from Nil fresh Tn have "dom (heap ?S) = insert z (dom (heap s))"
      by simp
    ultimately show ?thesis using Nil
      unfolding T_def[symmetric] z_def[symmetric]
      by (intro exI[of _ ?S]) (simp add: T_def[symmetric])
  next
    case (Cons f fs')
    with pt have tne: "t \<noteq> Tip" using plug_Tip_Tip[of Tip fs] by auto
    from set_inv_head_node[OF inv tne] obtain nh where nh: "heap s (head' s) = Some nh"
      "(head' s, data nh) = hd (nodes t)" "head' s \<noteq> T" "head' s \<in> set (addrs t)"
      unfolding T_def by blast
    from set_inv_tail_node[OF inv tne] obtain nt where nt: "heap s (tail' s) = Some nt"
      "(tail' s, data nt) = last (nodes t)" "tail' s \<noteq> T" "tail' s \<in> set (addrs t)"
      unfolding T_def by blast
    from tne pt have ne: "cbefore fs @ cafter fs \<noteq> []"
      using nodes_plug[of Tip fs] by (cases t) auto
    have nn: "nodes t = cbefore fs @ cafter fs" using nodes_plug[of Tip fs] pt by simp
    from nh(2) have "data nh = snd (hd (cbefore fs @ cafter fs))"
      by (simp add: nn[symmetric]) (metis snd_conv)
    with hd_less_iff[OF bnd ne] have lo: "(v < data nh) = (cbefore fs = [])" by simp
    from nt(2) have "data nt = snd (last (cbefore fs @ cafter fs))"
      by (simp add: nn[symmetric]) (metis snd_conv)
    with last_less_iff[OF bnd ne] have hi: "(data nt < v) = (cafter fs = [])" by simp
    from nh(4) nt(4) fresh(3) have hz: "head' s \<noteq> z" "tail' s \<noteq> z" by auto
    show ?thesis
    proof (cases f)
      case (LF a c x r)
      with fit Cons have vx: "v < x" by simp
      from tr Cons LF have fr: "heap s a = Some \<lparr>data = x, color = c, left = T,
          right = rootp T r, parent = ptop T fs'\<rparr>" "a \<noteq> T"
        by (auto simp: unf T_def)
      from fresh' Cons LF have za: "z \<noteq> a" "a \<noteq> z" by auto
      let ?S = "s\<lparr>heap := (heap s)(z \<mapsto> \<lparr>data = v, color = RED, left = T, right = T, parent = a\<rparr>,
          a \<mapsto> \<lparr>data = x, color = c, left = z, right = rootp T r, parent = ptop T fs'\<rparr>),
        next_free := Suc z, head' := (if cbefore fs' = [] then z else head' s),
        size' := Suc (size' s)\<rparr>"
      from Cons LF have "Set_insert v s = insert_fix_up z ?S"
        apply (simp add: Set_insert_def new_node_def loop acc set_left_def fr za nh(1,3) nt(1,3) hz
            lo hi vx fresh T_def[symmetric] z_def[symmetric])
        apply (intro conjI impI insert_fix_up_cong Set.equality; simp)
        done
      moreover from Cons LF tr fresh fresh' Tn have "tree_rep ?S (plug (Bin Tip z RED v Tip) fs)"
        by (simp add: post)
      moreover from fr fresh have "dom (heap ?S) = insert z (dom (heap s))"
        by auto
      ultimately show ?thesis using Cons LF ht
        unfolding T_def[symmetric] z_def[symmetric]
        by (intro exI[of _ ?S]) (simp add: T_def[symmetric] addrs_plug)
    next
      case (RF l a c x)
      with fit Cons have vx: "x < v" by simp
      then have nvx: "\<not> v < x" by simp
      from tr Cons RF have fr: "heap s a = Some \<lparr>data = x, color = c, left = rootp T l,
          right = T, parent = ptop T fs'\<rparr>" "a \<noteq> T"
        by (auto simp: unf T_def)
      from fresh' Cons RF have za: "z \<noteq> a" "a \<noteq> z" by auto
      let ?S = "s\<lparr>heap := (heap s)(z \<mapsto> \<lparr>data = v, color = RED, left = T, right = T, parent = a\<rparr>,
          a \<mapsto> \<lparr>data = x, color = c, left = rootp T l, right = z, parent = ptop T fs'\<rparr>),
        next_free := Suc z, tail' := (if cafter fs' = [] then z else tail' s),
        size' := Suc (size' s)\<rparr>"
      from Cons RF have "Set_insert v s = insert_fix_up z ?S"
        apply (simp add: Set_insert_def new_node_def loop acc set_right_def fr za nh(1,3) nt(1,3) hz
            lo hi vx nvx fresh T_def[symmetric] z_def[symmetric])
        apply (intro conjI impI insert_fix_up_cong Set.equality; simp)
        done
      moreover from Cons RF tr fresh fresh' Tn have "tree_rep ?S (plug (Bin Tip z RED v Tip) fs)"
        by (simp add: post)
      moreover from fr fresh have "dom (heap ?S) = insert z (dom (heap s))"
        by auto
      ultimately show ?thesis using Cons RF ht
        unfolding T_def[symmetric] z_def[symmetric]
        by (intro exI[of _ ?S]) (simp add: T_def[symmetric] addrs_plug)
    qed
  qed
qed


subsection \<open>Insertion keeps the invariants\<close>

lemma addrs_of_nodes: "nodes t' = nodes t \<Longrightarrow> addrs t' = addrs t"
  by (metis map_fst_nodes)

lemma elems_of_nodes: "nodes t' = nodes t \<Longrightarrow> elems t' = elems t"
  by (metis map_snd_nodes)

theorem Set_insert_new:
  assumes inv: "set_inv s t" and new: "v \<notin> set (elems t)"
  shows "\<exists>s' t'. Set_insert v s = Some s' \<and> set_inv s' t'
    \<and> set (elems t') = insert v (set (elems t)) \<and> size' s' = Suc (size' s)
    \<and> terminal' s' = terminal' s"
proof -
  define T where "T = terminal' s"
  define z where "z = next_free s"
  let ?t0 = "Bin Tip z RED v Tip"
  from descend_Some[OF new, of "[]"] obtain fs where d: "descend t v [] = Some fs" by blast
  have pt: "plug Tip fs = t" using descend_plug[OF d] by simp
  from insert_link[OF inv d] obtain s5 where s5: "Set_insert v s = insert_fix_up z s5"
    "tree_rep s5 (plug ?t0 fs)" "head' s5 = first T (addrs (plug ?t0 fs))"
    "tail' s5 = final T (addrs (plug ?t0 fs))" "size' s5 = Suc (size' s)"
    "next_free s5 = Suc z" "dom (heap s5) = insert z (dom (heap s))" "terminal' s5 = T"
    unfolding T_def z_def by blast
  from inv have rb: "no_red_red (plug Tip fs)" "balanced (plug Tip fs)" "col (plug Tip fs) = BLACK"
    by (simp_all add: set_inv_def pt)
  from rb(1,2) have "ctx_ok BLACK (bh ?t0) fs" using rb_plug[of Tip fs] by simp
  moreover from rb(3) have "fs = [] \<or> fcol (last fs) = BLACK" by (simp add: col_plug split: if_splits)
  ultimately obtain t' where t': "ifu ?t0 fs = Some t'" "no_red_red t'" "balanced t'"
    "col t' = BLACK" "nodes t' = nodes (plug ?t0 fs)"
    using ifu_rb[of ?t0 fs] by auto
  from insert_fix_up_refines[OF t'(1) _ s5(2)] s5(8) obtain s' where s': "insert_fix_up z s5 = Some s'"
    "tree_rep s' t'" "same s5 s'" by auto
  have ad: "addrs t' = map fst (cbefore fs) @ z # map fst (cafter fs)"
    using addrs_of_nodes[OF t'(5)] by (simp add: addrs_plug)
  have ad0: "addrs t = map fst (cbefore fs) @ map fst (cafter fs)"
    using addrs_plug[of Tip fs] pt by simp
  have el: "elems t' = map snd (cbefore fs) @ v # map snd (cafter fs)"
    using elems_of_nodes[OF t'(5)] by (simp add: elems_plug)
  have el0: "elems t = map snd (cbefore fs) @ map snd (cafter fs)"
    using elems_plug[of Tip fs] pt by simp
  from inv have "sorted_wrt (<) (elems (plug Tip fs))" by (simp add: set_inv_def bst_sorted pt)
  from sorted_insert_plug[OF this descend_fits[OF d], of z RED] have "bst t'"
    by (simp add: bst_sorted elems_of_nodes[OF t'(5)])
  moreover from inv have "dom (heap s) = insert T (set (addrs t))" "\<forall>a \<in> dom (heap s). a < z"
    "size' s = length (addrs t)"
    by (simp_all add: set_inv_def T_def z_def)
  ultimately have "set_inv s' t'"
    using s' s5 t'(2-4) unfolding set_inv_def same_def
    by (auto simp: ad ad0 addrs_plug less_Suc_eq)
  moreover have "set (elems t') = insert v (set (elems t))"
    by (auto simp: el el0)
  ultimately show ?thesis
    using s5(1,5,8) s'(1,3) by (auto simp: z_def[symmetric] T_def same_def)
qed

theorem Set_insert_dup:
  assumes inv: "set_inv s t" and old: "v \<in> set (elems t)"
  shows "Set_insert v s = Some s"
proof -
  from inv have "bst t" "tree_rep s t" by (simp_all add: set_inv_def)
  with old have "descend t v [] = None" by (simp add: descend_present)
  with insert_loop_descend[of s "[]" t v] \<open>tree_rep s t\<close>
  have "insert_loop s v (terminal' s) (root' s) = Some None"
    by (simp add: tree_rep_def)
  then show ?thesis by (simp add: Set_insert_def)
qed


section \<open>Rebalancing after erasure: the abstract loop\<close>

text \<open>One pass of the loop of \<^verbatim>\<open>erase_fix_up\<close> on the subtree \<open>t\<close> at \<^verbatim>\<open>x\<close> below the frame
  of its parent. \<open>Cont\<close> is the loop going on at the parent (\<^verbatim>\<open>x = x->parent\<close>), \<open>Done\<close>
  the whole tree when the loop ends with \<^verbatim>\<open>x = root_\<close>. \<open>None\<close> is a sibling that is the
  sentinel, which the code would recolour.\<close>

datatype 'a efu_res = Done "'a tree" | Cont "'a tree" "'a frame list"

fun efu_L :: "'a tree \<Rightarrow> PNode \<Rightarrow> NodeColor \<Rightarrow> 'a \<Rightarrow> 'a tree \<Rightarrow> 'a frame list
    \<Rightarrow> 'a efu_res option" where
  "efu_L t pa pc pv Tip fs = None"
| "efu_L t pa pc pv (Bin wl wa wc wv wr) fs =
     (if col wl = BLACK \<and> col wr = BLACK
      then Some (Cont (Bin t pa pc pv (Bin wl wa RED wv wr)) fs)
      else if col wr = BLACK
      then (case wl of
              Tip \<Rightarrow> None
            | Bin wll wla wlc wlv wlr \<Rightarrow>
                Some (Done (plug (Bin (Bin t pa BLACK pv wll) wla pc wlv
                                   (Bin wlr wa BLACK wv wr)) fs)))
      else Some (Done (plug (Bin (Bin t pa BLACK pv wl) wa pc wv (paint BLACK wr)) fs)))"

fun efu_R :: "'a tree \<Rightarrow> PNode \<Rightarrow> NodeColor \<Rightarrow> 'a \<Rightarrow> 'a tree \<Rightarrow> 'a frame list
    \<Rightarrow> 'a efu_res option" where
  "efu_R t pa pc pv Tip fs = None"
| "efu_R t pa pc pv (Bin wl wa wc wv wr) fs =
     (if col wr = BLACK \<and> col wl = BLACK
      then Some (Cont (Bin (Bin wl wa RED wv wr) pa pc pv t) fs)
      else if col wl = BLACK
      then (case wr of
              Tip \<Rightarrow> None
            | Bin wrl wra wrc wrv wrr \<Rightarrow>
                Some (Done (plug (Bin (Bin wl wa BLACK wv wrl) wra pc wrv
                                   (Bin wrr pa BLACK pv t)) fs)))
      else Some (Done (plug (Bin (paint BLACK wl) wa pc wv (Bin wr pa BLACK pv t)) fs)))"

fun efu_step :: "'a tree \<Rightarrow> 'a frame \<Rightarrow> 'a frame list \<Rightarrow> 'a efu_res option" where
  "efu_step t (LF pa pc pv w) fs =
     (case w of
        Tip \<Rightarrow> None
      | Bin wl wa wc wv wr \<Rightarrow>
          if wc = RED then efu_L t pa RED pv wl (LF wa BLACK wv wr # fs)
          else efu_L t pa pc pv w fs)"
| "efu_step t (RF w pa pc pv) fs =
     (case w of
        Tip \<Rightarrow> None
      | Bin wl wa wc wv wr \<Rightarrow>
          if wc = RED then efu_R t pa RED pv wr (RF wl wa BLACK wv # fs)
          else efu_R t pa pc pv w fs)"

lemma efu_L_Cont:
  "efu_L t pa pc pv w fs = Some (Cont t' fs') \<Longrightarrow> fs' = fs \<and> col t' = pc"
  by (cases w) (auto split: if_splits tree.splits)

lemma efu_R_Cont:
  "efu_R t pa pc pv w fs = Some (Cont t' fs') \<Longrightarrow> fs' = fs \<and> col t' = pc"
  by (cases w) (auto split: if_splits tree.splits)

lemma efu_step_Cont:
  assumes "efu_step t f fs = Some (Cont t' fs')"
  shows "fs' = fs \<or> (length fs' = Suc (length fs) \<and> col t' = RED)"
proof (cases f)
  case (LF pa pc pv w)
  with assms show ?thesis
    by (cases w) (auto split: if_splits dest: efu_L_Cont simp del: efu_L.simps)
next
  case (RF w pa pc pv)
  with assms show ?thesis
    by (cases w) (auto split: if_splits dest: efu_R_Cont simp del: efu_R.simps)
qed

function efu :: "'a tree \<Rightarrow> 'a frame list \<Rightarrow> 'a tree option" where
  "efu t [] = Some (paint BLACK t)"
| "efu t (f # fs) =
     (if col t = RED then Some (plug (paint BLACK t) (f # fs))
      else (case efu_step t f fs of
              None \<Rightarrow> None
            | Some (Done t') \<Rightarrow> Some (paint BLACK t')
            | Some (Cont t' fs') \<Rightarrow> efu t' fs'))"
  by pat_completeness auto
termination
proof (relation "measure (\<lambda>(t, fs). 2 * length fs + (if col t = RED then 0 else 1))")
  show "wf (measure (\<lambda>(t, fs). 2 * length fs + (if col t = RED then 0 else 1)))" by simp
next
  fix t :: "'a tree" and f fs x2 x2a x22
  assume "col t \<noteq> RED" "efu_step t f fs = Some x2" "x2 = Cont x2a x22"
  then have "efu_step t f fs = Some (Cont x2a x22)" by simp
  from efu_step_Cont[OF this] \<open>col t \<noteq> RED\<close>
  show "((x2a, x22), t, f # fs) \<in> measure (\<lambda>(t, fs). 2 * length fs + (if col t = RED then 0 else 1))"
    by auto
qed


subsection \<open>The abstract loop restores the red-black invariants\<close>

definition efu_inv :: "'a tree \<Rightarrow> 'a frame list \<Rightarrow> bool" where
  "efu_inv t fs = (no_red_red (paint BLACK t) \<and> balanced t \<and> ctx_ok BLACK (Suc (bh t)) fs
     \<and> (fs = [] \<or> fcol (last fs) = BLACK))"

fun efu_post :: "'a tree \<Rightarrow> 'a efu_res \<Rightarrow> bool" where
  "efu_post t0 (Done t') = (no_red_red t' \<and> balanced t' \<and> nodes t' = nodes t0)"
| "efu_post t0 (Cont t' fs') = (efu_inv t' fs' \<and> nodes (plug t' fs') = nodes t0)"

lemma bh_pos_Bin: "bh w = Suc n \<Longrightarrow> \<exists>wl wa wc wv wr. w = Bin wl wa wc wv wr"
  by (cases w) auto

lemma efu_L_inv:
  assumes "no_red_red t" "col t = BLACK" "balanced t"
    "no_red_red w" "balanced w" "bh w = Suc (bh t)" "col w = BLACK"
    "ctx_ok pc (if pc = BLACK then Suc (Suc (bh t)) else Suc (bh t)) fs"
    "fs = [] \<or> fcol (last fs) = BLACK"
  shows "\<exists>res. efu_L t pa pc pv w fs = Some res \<and> efu_post (plug (Bin t pa pc pv w) fs) res"
proof -
  from assms(6) obtain wl wa wc wv wr where w: "w = Bin wl wa wc wv wr"
    using bh_pos_Bin by blast
  with assms(7) have wc: "wc = BLACK" by simp
  with w assms(4,5,6) have ch: "no_red_red wl" "no_red_red wr" "balanced wl" "balanced wr"
    "bh wl = bh t" "bh wr = bh t" by auto
  consider (c2) "col wl = BLACK" "col wr = BLACK" | (c3) "col wl = RED" "col wr = BLACK"
    | (c4) "col wr = RED"
    by (cases "col wl"; cases "col wr") auto
  then show ?thesis
  proof cases
    case c2
    with assms w wc ch show ?thesis
      by (cases pc) (auto simp: efu_inv_def nodes_plug dest: ctx_ok_black)
  next
    case c3
    then obtain wll wla wlv wlr where wl: "wl = Bin wll wla RED wlv wlr"
      using col_RED_Bin by blast
    let ?n = "Bin (Bin t pa BLACK pv wll) wla pc wlv (Bin wlr wa BLACK wv wr)"
    from assms w wc ch wl c3 have "no_red_red ?n" "balanced ?n" "ctx_ok (col ?n) (bh ?n) fs"
      by (cases pc; auto)+
    then have "no_red_red (plug ?n fs)" "balanced (plug ?n fs)"
      using rb_plug[of ?n fs] by simp_all
    with w wl c3 show ?thesis by (simp add: nodes_plug)
  next
    case c4
    then obtain wrl wra wrv wrr where wr: "wr = Bin wrl wra RED wrv wrr"
      using col_RED_Bin by blast
    let ?n = "Bin (Bin t pa BLACK pv wl) wa pc wv (paint BLACK wr)"
    from assms w wc ch wr c4 have "no_red_red ?n" "balanced ?n" "ctx_ok (col ?n) (bh ?n) fs"
      by (cases pc; auto)+
    then have "no_red_red (plug ?n fs)" "balanced (plug ?n fs)"
      using rb_plug[of ?n fs] by simp_all
    with w wr c4 show ?thesis by (simp add: nodes_plug)
  qed
qed

lemma efu_R_inv:
  assumes "no_red_red t" "col t = BLACK" "balanced t"
    "no_red_red w" "balanced w" "bh w = Suc (bh t)" "col w = BLACK"
    "ctx_ok pc (if pc = BLACK then Suc (Suc (bh t)) else Suc (bh t)) fs"
    "fs = [] \<or> fcol (last fs) = BLACK"
  shows "\<exists>res. efu_R t pa pc pv w fs = Some res \<and> efu_post (plug (Bin w pa pc pv t) fs) res"
proof -
  from assms(6) obtain wl wa wc wv wr where w: "w = Bin wl wa wc wv wr"
    using bh_pos_Bin by blast
  with assms(7) have wc: "wc = BLACK" by simp
  with w assms(4,5,6) have ch: "no_red_red wl" "no_red_red wr" "balanced wl" "balanced wr"
    "bh wl = bh t" "bh wr = bh t" by auto
  consider (c2) "col wl = BLACK" "col wr = BLACK" | (c3) "col wr = RED" "col wl = BLACK"
    | (c4) "col wl = RED"
    by (cases "col wl"; cases "col wr") auto
  then show ?thesis
  proof cases
    case c2
    with assms w wc ch show ?thesis
      by (cases pc) (auto simp: efu_inv_def nodes_plug dest: ctx_ok_black)
  next
    case c3
    then obtain wrl wra wrv wrr where wr: "wr = Bin wrl wra RED wrv wrr"
      using col_RED_Bin by blast
    let ?n = "Bin (Bin wl wa BLACK wv wrl) wra pc wrv (Bin wrr pa BLACK pv t)"
    from assms w wc ch wr c3 have "no_red_red ?n" "balanced ?n" "ctx_ok (col ?n) (bh ?n) fs"
      by (cases pc; auto)+
    then have "no_red_red (plug ?n fs)" "balanced (plug ?n fs)"
      using rb_plug[of ?n fs] by simp_all
    with w wr c3 show ?thesis by (simp add: nodes_plug)
  next
    case c4
    then obtain wll wla wlv wlr where wl: "wl = Bin wll wla RED wlv wlr"
      using col_RED_Bin by blast
    let ?n = "Bin (paint BLACK wl) wa pc wv (Bin wr pa BLACK pv t)"
    from assms w wc ch wl c4 have "no_red_red ?n" "balanced ?n" "ctx_ok (col ?n) (bh ?n) fs"
      by (cases pc; auto)+
    then have "no_red_red (plug ?n fs)" "balanced (plug ?n fs)"
      using rb_plug[of ?n fs] by simp_all
    with w wl c4 show ?thesis by (simp add: nodes_plug)
  qed
qed

lemma efu_step_inv:
  assumes "efu_inv t (f # fs)" "col t = BLACK"
  shows "\<exists>res. efu_step t f fs = Some res \<and> efu_post (plug t (f # fs)) res"
proof -
  from assms have t: "no_red_red t" "balanced t" by (simp_all add: efu_inv_def)
  show ?thesis
  proof (cases f)
    case (LF pa pc pv w)
    with assms(1) have c: "no_red_red w" "balanced w" "bh w = Suc (bh t)"
      "pc = RED \<longrightarrow> col w = BLACK"
      "ctx_ok pc (if pc = BLACK then Suc (Suc (bh t)) else Suc (bh t)) fs"
      "fs = [] \<or> fcol (last fs) = BLACK"
      by (auto simp: efu_inv_def split: if_splits)
    from c(3) obtain wl wa wc wv wr where w: "w = Bin wl wa wc wv wr"
      using bh_pos_Bin by blast
    show ?thesis
    proof (cases wc)
      case BLACK
      with efu_L_inv[OF t(1) assms(2) t(2) c(1,2,3) _ c(5,6), of pa pv] w LF
      show ?thesis by simp
    next
      case RED
      with w c have pc: "pc = BLACK" by (cases pc) auto
      from RED w c(1,2,3) have wl: "no_red_red wl" "balanced wl" "bh wl = Suc (bh t)"
        "col wl = BLACK" "no_red_red wr" "balanced wr" "bh wr = Suc (bh t)" "col wr = BLACK"
        by auto
      from pc c(5) wl have "ctx_ok RED (if RED = BLACK then Suc (Suc (bh t)) else Suc (bh t))
          (LF wa BLACK wv wr # fs)" by simp
      moreover from c(6) have "LF wa BLACK wv wr # fs = []
          \<or> fcol (last (LF wa BLACK wv wr # fs)) = BLACK" by auto
      ultimately obtain res where "efu_L t pa RED pv wl (LF wa BLACK wv wr # fs) = Some res"
        "efu_post (plug (Bin t pa RED pv wl) (LF wa BLACK wv wr # fs)) res"
        using efu_L_inv[OF t(1) assms(2) t(2) wl(1,2,3,4), of RED "LF wa BLACK wv wr # fs" pa pv]
        by blast
      moreover have "nodes (plug (Bin t pa RED pv wl) (LF wa BLACK wv wr # fs))
          = nodes (plug t (f # fs))"
        using LF w by (simp add: nodes_plug)
      ultimately show ?thesis using LF w RED
        by (cases res) auto
    qed
  next
    case (RF w pa pc pv)
    with assms(1) have c: "no_red_red w" "balanced w" "bh w = Suc (bh t)"
      "pc = RED \<longrightarrow> col w = BLACK"
      "ctx_ok pc (if pc = BLACK then Suc (Suc (bh t)) else Suc (bh t)) fs"
      "fs = [] \<or> fcol (last fs) = BLACK"
      by (auto simp: efu_inv_def split: if_splits)
    from c(3) obtain wl wa wc wv wr where w: "w = Bin wl wa wc wv wr"
      using bh_pos_Bin by blast
    show ?thesis
    proof (cases wc)
      case BLACK
      with efu_R_inv[OF t(1) assms(2) t(2) c(1,2,3) _ c(5,6), of pa pv] w RF
      show ?thesis by simp
    next
      case RED
      with w c have pc: "pc = BLACK" by (cases pc) auto
      from RED w c(1,2,3) have wl: "no_red_red wr" "balanced wr" "bh wr = Suc (bh t)"
        "col wr = BLACK" "no_red_red wl" "balanced wl" "bh wl = Suc (bh t)" "col wl = BLACK"
        by auto
      from pc c(5) wl have "ctx_ok RED (if RED = BLACK then Suc (Suc (bh t)) else Suc (bh t))
          (RF wl wa BLACK wv # fs)" by simp
      moreover from c(6) have "RF wl wa BLACK wv # fs = []
          \<or> fcol (last (RF wl wa BLACK wv # fs)) = BLACK" by auto
      ultimately obtain res where "efu_R t pa RED pv wr (RF wl wa BLACK wv # fs) = Some res"
        "efu_post (plug (Bin wr pa RED pv t) (RF wl wa BLACK wv # fs)) res"
        using efu_R_inv[OF t(1) assms(2) t(2) wl(1,2,3,4), of RED "RF wl wa BLACK wv # fs" pa pv]
        by blast
      moreover have "nodes (plug (Bin wr pa RED pv t) (RF wl wa BLACK wv # fs))
          = nodes (plug t (f # fs))"
        using RF w by (simp add: nodes_plug)
      ultimately show ?thesis using RF w RED
        by (cases res) auto
    qed
  qed
qed

theorem efu_rb:
  assumes "efu_inv t fs"
  shows "\<exists>t'. efu t fs = Some t' \<and> no_red_red t' \<and> balanced t' \<and> col t' = BLACK
    \<and> nodes t' = nodes (plug t fs)"
  using assms
proof (induction t fs rule: efu.induct)
  case (1 t)
  then show ?case by (simp add: efu_inv_def)
next
  case (2 t f fs)
  show ?case
  proof (cases "col t")
    case RED
    with 2(2) have "no_red_red (paint BLACK t)" "balanced (paint BLACK t)"
      "ctx_ok (col (paint BLACK t)) (bh (paint BLACK t)) (f # fs)"
      by (simp_all add: efu_inv_def bh_paint_black)
    then have "no_red_red (plug (paint BLACK t) (f # fs))" "balanced (plug (paint BLACK t) (f # fs))"
      using rb_plug[of "paint BLACK t" "f # fs"] by simp_all
    moreover from 2(2) have "col (plug (paint BLACK t) (f # fs)) = BLACK"
      using col_plug[of "paint BLACK t" "f # fs"] by (simp add: efu_inv_def)
    ultimately show ?thesis using RED by (simp add: nodes_plug del: plug.simps)
  next
    case BLACK
    from efu_step_inv[OF 2(2) BLACK] obtain res where res: "efu_step t f fs = Some res"
      "efu_post (plug t (f # fs)) res" by blast
    show ?thesis
    proof (cases res)
      case (Done t')
      with res BLACK show ?thesis by simp
    next
      case (Cont t' fs')
      with res have "efu_inv t' fs'" "nodes (plug t' fs') = nodes (plug t (f # fs))" by simp_all
      with 2(1)[of res t' fs'] res(1) Cont BLACK show ?thesis by simp
    qed
  qed
qed


section \<open>Rebalancing after erasure: the loop on the store\<close>

text \<open>The part of one pass of the loop that follows the red-sibling case, for \<^verbatim>\<open>x\<close> a left
  child and for \<^verbatim>\<open>x\<close> a right child: the loop body of \<^verbatim>\<open>erase_fix_up\<close> from the test of the
  sibling's children on.\<close>

definition efu_rest_L :: "PNode \<Rightarrow> PNode \<Rightarrow> 'a Set \<Rightarrow> 'a Set option" where
  "efu_rest_L x w s = do {
         wlc \<leftarrow> get_left s w \<bind> get_color s;
         both \<leftarrow> (if wlc = BLACK then do {
                     wrc \<leftarrow> get_right s w \<bind> get_color s;
                     Some (wrc = BLACK) }
                   else Some False);
         if both then do {
           s \<leftarrow> set_color w RED s;
           xp \<leftarrow> get_parent s x;
           erase_fix_up xp s }
         else do {
           wrc \<leftarrow> get_right s w \<bind> get_color s;
           (w, s) \<leftarrow> (if wrc = BLACK then do {
                         wl \<leftarrow> get_left s w;
                         s \<leftarrow> set_color wl BLACK s;
                         s \<leftarrow> set_color w RED s;
                         s \<leftarrow> right_rotate w s;
                         w \<leftarrow> get_parent s x \<bind> get_right s;
                         Some (w, s) }
                       else Some (w, s));
           xpc \<leftarrow> get_parent s x \<bind> get_color s;
           s \<leftarrow> set_color w xpc s;
           xp \<leftarrow> get_parent s x;
           s \<leftarrow> set_color xp BLACK s;
           wr \<leftarrow> get_right s w;
           s \<leftarrow> set_color wr BLACK s;
           xp \<leftarrow> get_parent s x;
           s \<leftarrow> left_rotate xp s;
           erase_fix_up (root' s) s } }"

definition efu_rest_R :: "PNode \<Rightarrow> PNode \<Rightarrow> 'a Set \<Rightarrow> 'a Set option" where
  "efu_rest_R x w s = do {
         wrc \<leftarrow> get_right s w \<bind> get_color s;
         both \<leftarrow> (if wrc = BLACK then do {
                     wlc \<leftarrow> get_left s w \<bind> get_color s;
                     Some (wlc = BLACK) }
                   else Some False);
         if both then do {
           s \<leftarrow> set_color w RED s;
           xp \<leftarrow> get_parent s x;
           erase_fix_up xp s }
         else do {
           wlc \<leftarrow> get_left s w \<bind> get_color s;
           (w, s) \<leftarrow> (if wlc = BLACK then do {
                         wr \<leftarrow> get_right s w;
                         s \<leftarrow> set_color wr BLACK s;
                         s \<leftarrow> set_color w RED s;
                         s \<leftarrow> left_rotate w s;
                         w \<leftarrow> get_parent s x \<bind> get_left s;
                         Some (w, s) }
                       else Some (w, s));
           xpc \<leftarrow> get_parent s x \<bind> get_color s;
           s \<leftarrow> set_color w xpc s;
           xp \<leftarrow> get_parent s x;
           s \<leftarrow> set_color xp BLACK s;
           wl \<leftarrow> get_left s w;
           s \<leftarrow> set_color wl BLACK s;
           xp \<leftarrow> get_parent s x;
           s \<leftarrow> right_rotate xp s;
           erase_fix_up (root' s) s } }"

lemma erase_fix_up_unfold:
  "erase_fix_up x s = do {
     go \<leftarrow> (if x \<noteq> root' s then do { xc \<leftarrow> get_color s x; Some (xc = BLACK) }
            else Some False);
     if go then do {
       xpl \<leftarrow> get_parent s x \<bind> get_left s;
       if x = xpl then do {
         w \<leftarrow> get_parent s x \<bind> get_right s;
         wc \<leftarrow> get_color s w;
         (w, s) \<leftarrow> (if wc = RED then do {
                       s \<leftarrow> set_color w BLACK s;
                       xp \<leftarrow> get_parent s x;
                       s \<leftarrow> set_color xp RED s;
                       xp \<leftarrow> get_parent s x;
                       s \<leftarrow> left_rotate xp s;
                       w \<leftarrow> get_parent s x \<bind> get_right s;
                       Some (w, s) }
                     else Some (w, s));
         efu_rest_L x w s }
       else do {
         w \<leftarrow> get_parent s x \<bind> get_left s;
         wc \<leftarrow> get_color s w;
         (w, s) \<leftarrow> (if wc = RED then do {
                       s \<leftarrow> set_color w BLACK s;
                       xp \<leftarrow> get_parent s x;
                       s \<leftarrow> set_color xp RED s;
                       xp \<leftarrow> get_parent s x;
                       s \<leftarrow> right_rotate xp s;
                       w \<leftarrow> get_parent s x \<bind> get_left s;
                       Some (w, s) }
                     else Some (w, s));
         efu_rest_R x w s } }
     else set_color x BLACK s }"
  unfolding efu_rest_L_def efu_rest_R_def
  by (rule erase_fix_up.simps)

subsection \<open>Reading a represented tree\<close>

lemma node_at:
  assumes "tree_rep s (plug (Bin l a c v r) fs)"
  shows "heap s a = Some \<lparr>data = v, color = c, left = rootp (terminal' s) l,
     right = rootp (terminal' s) r, parent = ptop (terminal' s) fs\<rparr>"
  using assms by (simp add: tree_rep_def rep_plug)

lemma color_rootp:
  assumes "rep h T pp u" "h T = Some n" "color n = BLACK"
  shows "map_option color (h (rootp T u)) = Some (col u)"
  using assms by (cases u) auto

lemma color_children:
  assumes "tree_rep s (plug (Bin l a c v r) fs)"
  shows "map_option color (heap s (rootp (terminal' s) l)) = Some (col l)"
    "map_option color (heap s (rootp (terminal' s) r)) = Some (col r)"
proof -
  from assms have "sentinel s" by (simp add: tree_rep_def)
  then obtain n where n: "heap s (terminal' s) = Some n" "color n = BLACK"
    by (auto simp: sentinel_def)
  from assms have "rep (heap s) (terminal' s) a l" "rep (heap s) (terminal' s) a r"
    by (simp_all add: tree_rep_def rep_plug)
  with n show "map_option color (heap s (rootp (terminal' s) l)) = Some (col l)"
    "map_option color (heap s (rootp (terminal' s) r)) = Some (col r)"
    by (simp_all add: color_rootp)
qed

text \<open>When \<^verbatim>\<open>x\<close> is the sentinel, its parent field holds the parent of the leaf position.\<close>

definition xnode :: "'a Set \<Rightarrow> 'a tree \<Rightarrow> PNode \<Rightarrow> bool" where
  "xnode s t pa = (t = Tip \<longrightarrow> (\<exists>n. heap s (terminal' s) = Some n \<and> parent n = pa))"

lemma xnode_same: "same s s' \<Longrightarrow> xnode s t pa \<Longrightarrow> xnode s' t pa"
  by (auto simp: xnode_def same_def)

lemma xnode_Bin [simp]: "xnode s (Bin l a c v r) pa"
  by (simp add: xnode_def)

lemma croot_mem:
  "croot a fs = a \<or> croot a fs \<in> fst ` set (cbefore fs) \<union> fst ` set (cafter fs)"
proof (induction fs arbitrary: a)
  case Nil
  show ?case by simp
next
  case (Cons f fs)
  from Cons[of "faddr f"] show ?case by (cases f) (auto simp: image_Un)
qed

lemma xnode_get:
  assumes "tree_rep s (plug t (f # fs))" "xnode s t (faddr f)"
  shows "map_option parent (heap s (rootp (terminal' s) t)) = Some (faddr f)"
    "map_option color (heap s (rootp (terminal' s) t)) = Some (col t)"
    "rootp (terminal' s) t \<noteq> root' s"
proof -
  from assms(1) have "sentinel s" by (simp add: tree_rep_def)
  then obtain n where n: "heap s (terminal' s) = Some n" "color n = BLACK"
    by (auto simp: sentinel_def)
  from assms(1) have r: "rep (heap s) (terminal' s) (faddr f) t"
    by (cases f) (simp_all add: tree_rep_def rep_plug)
  with n assms(2) show "map_option parent (heap s (rootp (terminal' s) t)) = Some (faddr f)"
    by (cases t) (auto simp: xnode_def)
  from r n show "map_option color (heap s (rootp (terminal' s) t)) = Some (col t)"
    by (simp add: color_rootp)
  from assms(1) have d: "distinct (map fst (cbefore (f # fs)) @ addrs t @ map fst (cafter (f # fs)))"
    "terminal' s \<notin> fst ` set (cbefore (f # fs))" "terminal' s \<notin> fst ` set (cafter (f # fs))"
    "root' s = croot (rootp (terminal' s) t) (f # fs)"
    using tree_rep_plug[of s t "f # fs"] by simp_all
  define A where "A = fst ` set (cbefore (f # fs))"
  define B where "B = fst ` set (cafter (f # fs))"
  have "croot (faddr f) fs \<in> A \<union> B"
    unfolding A_def B_def using croot_mem[of "faddr f" fs] by (cases f) (auto simp: image_Un)
  with d(4) have m: "root' s \<in> A \<or> root' s \<in> B" by simp
  from d(2,3) have nT: "terminal' s \<notin> A" "terminal' s \<notin> B" by (simp_all add: A_def B_def)
  from d(1) have dis: "set (addrs t) \<inter> B = {}" "A \<inter> set (addrs t) = {}"
    by (simp_all add: Int_Un_distrib A_def B_def)
  show "rootp (terminal' s) t \<noteq> root' s"
  proof
    assume e: "rootp (terminal' s) t = root' s"
    from rootp_cases[of "terminal' s" t] show False
    proof
      assume "rootp (terminal' s) t = terminal' s"
      with e m nT show False by metis
    next
      assume "rootp (terminal' s) t \<in> set (addrs t)"
      with e have "root' s \<in> set (addrs t)" by simp
      with m dis show False by (metis IntI empty_iff)
    qed
  qed
qed

lemma erase_fix_up_at_root:
  assumes "tree_rep s t"
  shows "\<exists>s'. erase_fix_up (root' s) s = Some s' \<and> tree_rep s' (paint BLACK t) \<and> same s s'"
proof -
  have "erase_fix_up (root' s) s = set_color (root' s) BLACK s"
    by (subst erase_fix_up.simps) simp
  with set_color_root[OF assms] show ?thesis by simp
qed

lemma erase_fix_up_red:
  assumes "tree_rep s (plug (Bin l x RED v r) (f # fs))"
  shows "\<exists>s'. erase_fix_up x s = Some s' \<and> tree_rep s' (plug (Bin l x BLACK v r) (f # fs))
    \<and> same s s'"
proof -
  from xnode_get[OF assms] have c: "map_option color (heap s x) = Some RED" "x \<noteq> root' s"
    by simp_all
  have "erase_fix_up x s = set_color x BLACK s"
    by (subst erase_fix_up.simps) (simp add: acc c)
  with set_color_tree[OF assms, of BLACK] show ?thesis by simp
qed


subsection \<open>The cases of one pass of the loop\<close>

text \<open>For \<^verbatim>\<open>x\<close> a left child (\<open>L\<close>) and a right child (\<open>R\<close>): the three ways the loop body
  goes on after the red-sibling case, and the loop body up to there with a black and with
  a red sibling. Each proof follows the statements of the code one by one through the
  states \<open>s1\<close>, \<open>s2\<close>, ... that they produce.\<close>

lemma efu_rest_L_case2:
  assumes T0: "tree_rep s (plug (Bin t pa pc pv (Bin nt wa wc wv ft)) fs)"
    and XN0: "xnode s t pa"
    and A1: "col nt = BLACK"
    and A2: "col ft = BLACK"
  shows "\<exists>s'. efu_rest_L (rootp (terminal' s) t) wa s = erase_fix_up pa s' \<and> tree_rep s' (plug (Bin t pa pc pv (Bin nt wa RED wv ft)) fs) \<and> same s s'"
proof -
  from T0 have F0_wa: "tree_rep s (plug (Bin nt wa wc wv ft) (RF t pa pc pv # fs))" by simp
  have N0_wa: "heap s wa = Some \<lparr>data = wv, color = wc, left = rootp (terminal' s) nt, right = rootp (terminal' s) ft, parent = pa\<rparr>"
    using node_at[OF F0_wa] by simp
  have C0_wa: "map_option color (heap s (rootp (terminal' s) nt)) = Some (col nt)"
    "map_option color (heap s (rootp (terminal' s) ft)) = Some (col ft)"
    using color_children[OF F0_wa] by simp_all
  from set_color_tree[OF F0_wa, of RED] obtain s1 where E1: "set_color wa RED s = Some s1"
    and G1: "tree_rep s1 (plug (Bin nt wa RED wv ft) (RF t pa pc pv # fs))" and S1: "same s s1" by blast
  from G1 have T1: "tree_rep s1 (plug (Bin t pa pc pv (Bin nt wa RED wv ft)) fs)" by simp
  from S1 have tm1: "terminal' s1 = terminal' s" by (simp add: same_def)
  from xnode_same[OF S1 XN0] have XN1: "xnode s1 t pa" .
  from T1 have F1_t: "tree_rep s1 (plug t (LF pa pc pv (Bin nt wa RED wv ft) # fs))" by simp
  have X1: "map_option parent (heap s1 (rootp (terminal' s) t)) = Some pa"
    "map_option color (heap s1 (rootp (terminal' s) t)) = Some (col t)"
    "rootp (terminal' s) t \<noteq> root' s1"
    using xnode_get[OF F1_t] XN1 by (simp_all add: tm1)
  have EQ: "efu_rest_L (rootp (terminal' s) t) wa s = erase_fix_up pa s1"
    by (simp add: efu_rest_L_def acc N0_wa C0_wa E1 X1 A1 A2)
  have "same s s1" using S1 by (blast intro: same_trans)
  with EQ T1 show ?thesis by blast
qed

lemma efu_rest_L_case4:
  assumes T0: "tree_rep s (plug (Bin t pa pc pv (Bin nt wa wc wv (Bin fl fa RED fv fr))) fs)"
    and XN0: "xnode s t pa"
  shows "\<exists>s'. efu_rest_L (rootp (terminal' s) t) wa s = Some s' \<and> tree_rep s' (paint BLACK (plug (Bin (Bin t pa BLACK pv nt) wa pc wv (Bin fl fa BLACK fv fr)) fs)) \<and> same s s'"
proof -
  from T0 have F0_wa: "tree_rep s (plug (Bin nt wa wc wv (Bin fl fa RED fv fr)) (RF t pa pc pv # fs))" by simp
  have N0_wa: "heap s wa = Some \<lparr>data = wv, color = wc, left = rootp (terminal' s) nt, right = fa, parent = pa\<rparr>"
    using node_at[OF F0_wa] by simp
  have C0_wa: "map_option color (heap s (rootp (terminal' s) nt)) = Some (col nt)"
    using color_children[OF F0_wa] by simp_all
  from T0 have F0_fa: "tree_rep s (plug (Bin fl fa RED fv fr) (RF nt wa wc wv # RF t pa pc pv # fs))" by simp
  have N0_fa: "heap s fa = Some \<lparr>data = fv, color = RED, left = rootp (terminal' s) fl, right = rootp (terminal' s) fr, parent = wa\<rparr>"
    using node_at[OF F0_fa] by simp
  from T0 have F0_t: "tree_rep s (plug t (LF pa pc pv (Bin nt wa wc wv (Bin fl fa RED fv fr)) # fs))" by simp
  have X0: "map_option parent (heap s (rootp (terminal' s) t)) = Some pa"
    "map_option color (heap s (rootp (terminal' s) t)) = Some (col t)"
    "rootp (terminal' s) t \<noteq> root' s"
    using xnode_get[OF F0_t] XN0 by simp_all
  from T0 have F0_pa: "tree_rep s (plug (Bin t pa pc pv (Bin nt wa wc wv (Bin fl fa RED fv fr))) fs)" by simp
  have N0_pa: "heap s pa = Some \<lparr>data = pv, color = pc, left = rootp (terminal' s) t, right = wa, parent = ptop (terminal' s) fs\<rparr>"
    using node_at[OF F0_pa] by simp
  from set_color_tree[OF F0_wa, of pc] obtain s1 where E1: "set_color wa pc s = Some s1"
    and G1: "tree_rep s1 (plug (Bin nt wa pc wv (Bin fl fa RED fv fr)) (RF t pa pc pv # fs))" and S1: "same s s1" by blast
  from G1 have T1: "tree_rep s1 (plug (Bin t pa pc pv (Bin nt wa pc wv (Bin fl fa RED fv fr))) fs)" by simp
  from S1 have tm1: "terminal' s1 = terminal' s" by (simp add: same_def)
  from xnode_same[OF S1 XN0] have XN1: "xnode s1 t pa" .
  from T1 have F1_t: "tree_rep s1 (plug t (LF pa pc pv (Bin nt wa pc wv (Bin fl fa RED fv fr)) # fs))" by simp
  have X1: "map_option parent (heap s1 (rootp (terminal' s) t)) = Some pa"
    "map_option color (heap s1 (rootp (terminal' s) t)) = Some (col t)"
    "rootp (terminal' s) t \<noteq> root' s1"
    using xnode_get[OF F1_t] XN1 by (simp_all add: tm1)
  from T1 have F1_pa: "tree_rep s1 (plug (Bin t pa pc pv (Bin nt wa pc wv (Bin fl fa RED fv fr))) fs)" by simp
  from set_color_tree[OF F1_pa, of BLACK] obtain s2 where E2: "set_color pa BLACK s1 = Some s2"
    and G2: "tree_rep s2 (plug (Bin t pa BLACK pv (Bin nt wa pc wv (Bin fl fa RED fv fr))) fs)" and S2: "same s1 s2" by blast
  from G2 have T2: "tree_rep s2 (plug (Bin t pa BLACK pv (Bin nt wa pc wv (Bin fl fa RED fv fr))) fs)" by simp
  from S2 tm1 have tm2: "terminal' s2 = terminal' s" by (simp add: same_def)
  from xnode_same[OF S2 XN1] have XN2: "xnode s2 t pa" .
  from T2 have F2_wa: "tree_rep s2 (plug (Bin nt wa pc wv (Bin fl fa RED fv fr)) (RF t pa BLACK pv # fs))" by simp
  have N2_wa: "heap s2 wa = Some \<lparr>data = wv, color = pc, left = rootp (terminal' s) nt, right = fa, parent = pa\<rparr>"
    using node_at[OF F2_wa] by (simp add: tm2)
  from T2 have F2_fa: "tree_rep s2 (plug (Bin fl fa RED fv fr) (RF nt wa pc wv # RF t pa BLACK pv # fs))" by simp
  from set_color_tree[OF F2_fa, of BLACK] obtain s3 where E3: "set_color fa BLACK s2 = Some s3"
    and G3: "tree_rep s3 (plug (Bin fl fa BLACK fv fr) (RF nt wa pc wv # RF t pa BLACK pv # fs))" and S3: "same s2 s3" by blast
  from G3 have T3: "tree_rep s3 (plug (Bin t pa BLACK pv (Bin nt wa pc wv (Bin fl fa BLACK fv fr))) fs)" by simp
  from S3 tm2 have tm3: "terminal' s3 = terminal' s" by (simp add: same_def)
  from xnode_same[OF S3 XN2] have XN3: "xnode s3 t pa" .
  from T3 have F3_t: "tree_rep s3 (plug t (LF pa BLACK pv (Bin nt wa pc wv (Bin fl fa BLACK fv fr)) # fs))" by simp
  have X3: "map_option parent (heap s3 (rootp (terminal' s) t)) = Some pa"
    "map_option color (heap s3 (rootp (terminal' s) t)) = Some (col t)"
    "rootp (terminal' s) t \<noteq> root' s3"
    using xnode_get[OF F3_t] XN3 by (simp_all add: tm3)
  from T3 have F3_pa: "tree_rep s3 (plug (Bin t pa BLACK pv (Bin nt wa pc wv (Bin fl fa BLACK fv fr))) fs)" by simp
  from left_rotate_tree[OF F3_pa] obtain s4 where E4: "left_rotate pa s3 = Some s4"
    and G4: "tree_rep s4 (plug (Bin (Bin t pa BLACK pv nt) wa pc wv (Bin fl fa BLACK fv fr)) fs)" and S4: "same s3 s4" by blast
  from G4 have T4: "tree_rep s4 (plug (Bin (Bin t pa BLACK pv nt) wa pc wv (Bin fl fa BLACK fv fr)) fs)" by simp
  from S4 tm3 have tm4: "terminal' s4 = terminal' s" by (simp add: same_def)
  from xnode_same[OF S4 XN3] have XN4: "xnode s4 t pa" .
  from erase_fix_up_at_root[OF T4] obtain s5 where E5: "erase_fix_up (root' s4) s4 = Some s5"
    and T5: "tree_rep s5 (paint BLACK (plug (Bin (Bin t pa BLACK pv nt) wa pc wv (Bin fl fa BLACK fv fr)) fs))" and S5: "same s4 s5" by blast
  have EQ: "efu_rest_L (rootp (terminal' s) t) wa s = Some s5"
    by (simp add: efu_rest_L_def acc N0_wa C0_wa N0_fa X0 N0_pa E1 X1 E2 N2_wa E3 X3 E4 E5 )
  have "same s s5" using S1 S2 S3 S4 S5 by (blast intro: same_trans)
  with EQ T5 show ?thesis by blast
qed

lemma efu_rest_L_case3:
  assumes T0: "tree_rep s (plug (Bin t pa pc pv (Bin (Bin nl na RED nv nr) wa wc wv ft)) fs)"
    and XN0: "xnode s t pa"
    and A1: "col ft = BLACK"
  shows "\<exists>s'. efu_rest_L (rootp (terminal' s) t) wa s = Some s' \<and> tree_rep s' (paint BLACK (plug (Bin (Bin t pa BLACK pv nl) na pc nv (Bin nr wa BLACK wv ft)) fs)) \<and> same s s'"
proof -
  from T0 have F0_wa: "tree_rep s (plug (Bin (Bin nl na RED nv nr) wa wc wv ft) (RF t pa pc pv # fs))" by simp
  have N0_wa: "heap s wa = Some \<lparr>data = wv, color = wc, left = na, right = rootp (terminal' s) ft, parent = pa\<rparr>"
    using node_at[OF F0_wa] by simp
  have C0_wa: "map_option color (heap s (rootp (terminal' s) ft)) = Some (col ft)"
    using color_children[OF F0_wa] by simp_all
  from T0 have F0_na: "tree_rep s (plug (Bin nl na RED nv nr) (LF wa wc wv ft # RF t pa pc pv # fs))" by simp
  have N0_na: "heap s na = Some \<lparr>data = nv, color = RED, left = rootp (terminal' s) nl, right = rootp (terminal' s) nr, parent = wa\<rparr>"
    using node_at[OF F0_na] by simp
  from set_color_tree[OF F0_na, of BLACK] obtain s1 where E1: "set_color na BLACK s = Some s1"
    and G1: "tree_rep s1 (plug (Bin nl na BLACK nv nr) (LF wa wc wv ft # RF t pa pc pv # fs))" and S1: "same s s1" by blast
  from G1 have T1: "tree_rep s1 (plug (Bin t pa pc pv (Bin (Bin nl na BLACK nv nr) wa wc wv ft)) fs)" by simp
  from S1 have tm1: "terminal' s1 = terminal' s" by (simp add: same_def)
  from xnode_same[OF S1 XN0] have XN1: "xnode s1 t pa" .
  from T1 have F1_wa: "tree_rep s1 (plug (Bin (Bin nl na BLACK nv nr) wa wc wv ft) (RF t pa pc pv # fs))" by simp
  from set_color_tree[OF F1_wa, of RED] obtain s2 where E2: "set_color wa RED s1 = Some s2"
    and G2: "tree_rep s2 (plug (Bin (Bin nl na BLACK nv nr) wa RED wv ft) (RF t pa pc pv # fs))" and S2: "same s1 s2" by blast
  from G2 have T2: "tree_rep s2 (plug (Bin t pa pc pv (Bin (Bin nl na BLACK nv nr) wa RED wv ft)) fs)" by simp
  from S2 tm1 have tm2: "terminal' s2 = terminal' s" by (simp add: same_def)
  from xnode_same[OF S2 XN1] have XN2: "xnode s2 t pa" .
  from T2 have F2_wa: "tree_rep s2 (plug (Bin (Bin nl na BLACK nv nr) wa RED wv ft) (RF t pa pc pv # fs))" by simp
  from right_rotate_tree[OF F2_wa] obtain s3 where E3: "right_rotate wa s2 = Some s3"
    and G3: "tree_rep s3 (plug (Bin nl na BLACK nv (Bin nr wa RED wv ft)) (RF t pa pc pv # fs))" and S3: "same s2 s3" by blast
  from G3 have T3: "tree_rep s3 (plug (Bin t pa pc pv (Bin nl na BLACK nv (Bin nr wa RED wv ft))) fs)" by simp
  from S3 tm2 have tm3: "terminal' s3 = terminal' s" by (simp add: same_def)
  from xnode_same[OF S3 XN2] have XN3: "xnode s3 t pa" .
  from T3 have F3_t: "tree_rep s3 (plug t (LF pa pc pv (Bin nl na BLACK nv (Bin nr wa RED wv ft)) # fs))" by simp
  have X3: "map_option parent (heap s3 (rootp (terminal' s) t)) = Some pa"
    "map_option color (heap s3 (rootp (terminal' s) t)) = Some (col t)"
    "rootp (terminal' s) t \<noteq> root' s3"
    using xnode_get[OF F3_t] XN3 by (simp_all add: tm3)
  from T3 have F3_pa: "tree_rep s3 (plug (Bin t pa pc pv (Bin nl na BLACK nv (Bin nr wa RED wv ft))) fs)" by simp
  have N3_pa: "heap s3 pa = Some \<lparr>data = pv, color = pc, left = rootp (terminal' s) t, right = na, parent = ptop (terminal' s) fs\<rparr>"
    using node_at[OF F3_pa] by (simp add: tm3)
  from T3 have F3_na: "tree_rep s3 (plug (Bin nl na BLACK nv (Bin nr wa RED wv ft)) (RF t pa pc pv # fs))" by simp
  from set_color_tree[OF F3_na, of pc] obtain s4 where E4: "set_color na pc s3 = Some s4"
    and G4: "tree_rep s4 (plug (Bin nl na pc nv (Bin nr wa RED wv ft)) (RF t pa pc pv # fs))" and S4: "same s3 s4" by blast
  from G4 have T4: "tree_rep s4 (plug (Bin t pa pc pv (Bin nl na pc nv (Bin nr wa RED wv ft))) fs)" by simp
  from S4 tm3 have tm4: "terminal' s4 = terminal' s" by (simp add: same_def)
  from xnode_same[OF S4 XN3] have XN4: "xnode s4 t pa" .
  from T4 have F4_t: "tree_rep s4 (plug t (LF pa pc pv (Bin nl na pc nv (Bin nr wa RED wv ft)) # fs))" by simp
  have X4: "map_option parent (heap s4 (rootp (terminal' s) t)) = Some pa"
    "map_option color (heap s4 (rootp (terminal' s) t)) = Some (col t)"
    "rootp (terminal' s) t \<noteq> root' s4"
    using xnode_get[OF F4_t] XN4 by (simp_all add: tm4)
  from T4 have F4_pa: "tree_rep s4 (plug (Bin t pa pc pv (Bin nl na pc nv (Bin nr wa RED wv ft))) fs)" by simp
  from set_color_tree[OF F4_pa, of BLACK] obtain s5 where E5: "set_color pa BLACK s4 = Some s5"
    and G5: "tree_rep s5 (plug (Bin t pa BLACK pv (Bin nl na pc nv (Bin nr wa RED wv ft))) fs)" and S5: "same s4 s5" by blast
  from G5 have T5: "tree_rep s5 (plug (Bin t pa BLACK pv (Bin nl na pc nv (Bin nr wa RED wv ft))) fs)" by simp
  from S5 tm4 have tm5: "terminal' s5 = terminal' s" by (simp add: same_def)
  from xnode_same[OF S5 XN4] have XN5: "xnode s5 t pa" .
  from T5 have F5_na: "tree_rep s5 (plug (Bin nl na pc nv (Bin nr wa RED wv ft)) (RF t pa BLACK pv # fs))" by simp
  have N5_na: "heap s5 na = Some \<lparr>data = nv, color = pc, left = rootp (terminal' s) nl, right = wa, parent = pa\<rparr>"
    using node_at[OF F5_na] by (simp add: tm5)
  from T5 have F5_wa: "tree_rep s5 (plug (Bin nr wa RED wv ft) (RF nl na pc nv # RF t pa BLACK pv # fs))" by simp
  from set_color_tree[OF F5_wa, of BLACK] obtain s6 where E6: "set_color wa BLACK s5 = Some s6"
    and G6: "tree_rep s6 (plug (Bin nr wa BLACK wv ft) (RF nl na pc nv # RF t pa BLACK pv # fs))" and S6: "same s5 s6" by blast
  from G6 have T6: "tree_rep s6 (plug (Bin t pa BLACK pv (Bin nl na pc nv (Bin nr wa BLACK wv ft))) fs)" by simp
  from S6 tm5 have tm6: "terminal' s6 = terminal' s" by (simp add: same_def)
  from xnode_same[OF S6 XN5] have XN6: "xnode s6 t pa" .
  from T6 have F6_t: "tree_rep s6 (plug t (LF pa BLACK pv (Bin nl na pc nv (Bin nr wa BLACK wv ft)) # fs))" by simp
  have X6: "map_option parent (heap s6 (rootp (terminal' s) t)) = Some pa"
    "map_option color (heap s6 (rootp (terminal' s) t)) = Some (col t)"
    "rootp (terminal' s) t \<noteq> root' s6"
    using xnode_get[OF F6_t] XN6 by (simp_all add: tm6)
  from T6 have F6_pa: "tree_rep s6 (plug (Bin t pa BLACK pv (Bin nl na pc nv (Bin nr wa BLACK wv ft))) fs)" by simp
  from left_rotate_tree[OF F6_pa] obtain s7 where E7: "left_rotate pa s6 = Some s7"
    and G7: "tree_rep s7 (plug (Bin (Bin t pa BLACK pv nl) na pc nv (Bin nr wa BLACK wv ft)) fs)" and S7: "same s6 s7" by blast
  from G7 have T7: "tree_rep s7 (plug (Bin (Bin t pa BLACK pv nl) na pc nv (Bin nr wa BLACK wv ft)) fs)" by simp
  from S7 tm6 have tm7: "terminal' s7 = terminal' s" by (simp add: same_def)
  from xnode_same[OF S7 XN6] have XN7: "xnode s7 t pa" .
  from erase_fix_up_at_root[OF T7] obtain s8 where E8: "erase_fix_up (root' s7) s7 = Some s8"
    and T8: "tree_rep s8 (paint BLACK (plug (Bin (Bin t pa BLACK pv nl) na pc nv (Bin nr wa BLACK wv ft)) fs))" and S8: "same s7 s8" by blast
  have EQ: "efu_rest_L (rootp (terminal' s) t) wa s = Some s8"
    by (simp add: efu_rest_L_def acc N0_wa C0_wa N0_na E1 E2 E3 X3 N3_pa E4 X4 E5 N5_na E6 X6 E7 E8 A1)
  have "same s s8" using S1 S2 S3 S4 S5 S6 S7 S8 by (blast intro: same_trans)
  with EQ T8 show ?thesis by blast
qed

lemma erase_fix_up_L_black:
  assumes T0: "tree_rep s (plug (Bin t pa pc pv (Bin nt wa BLACK wv ft)) fs)"
    and XN0: "xnode s t pa"
    and A1: "col t = BLACK"
  shows "\<exists>s'. erase_fix_up (rootp (terminal' s) t) s = efu_rest_L (rootp (terminal' s) t) wa s' \<and> tree_rep s' (plug (Bin t pa pc pv (Bin nt wa BLACK wv ft)) fs) \<and> same s s'"
proof -
  from T0 have F0_t: "tree_rep s (plug t (LF pa pc pv (Bin nt wa BLACK wv ft) # fs))" by simp
  have X0: "map_option parent (heap s (rootp (terminal' s) t)) = Some pa"
    "map_option color (heap s (rootp (terminal' s) t)) = Some (col t)"
    "rootp (terminal' s) t \<noteq> root' s"
    using xnode_get[OF F0_t] XN0 by simp_all
  from T0 have F0_pa: "tree_rep s (plug (Bin t pa pc pv (Bin nt wa BLACK wv ft)) fs)" by simp
  have N0_pa: "heap s pa = Some \<lparr>data = pv, color = pc, left = rootp (terminal' s) t, right = wa, parent = ptop (terminal' s) fs\<rparr>"
    using node_at[OF F0_pa] by simp
  from T0 have F0_wa: "tree_rep s (plug (Bin nt wa BLACK wv ft) (RF t pa pc pv # fs))" by simp
  have N0_wa: "heap s wa = Some \<lparr>data = wv, color = BLACK, left = rootp (terminal' s) nt, right = rootp (terminal' s) ft, parent = pa\<rparr>"
    using node_at[OF F0_wa] by simp
  have EQ: "erase_fix_up (rootp (terminal' s) t) s = efu_rest_L (rootp (terminal' s) t) wa s"
    by (simp add: erase_fix_up_unfold[of "rootp (terminal' s) t"] acc X0 N0_pa N0_wa A1)
  have "same s s" by (rule same_refl)
  with EQ T0 show ?thesis by blast
qed

lemma erase_fix_up_L_red:
  assumes T0: "tree_rep s (plug (Bin t pa pc pv (Bin nt wa RED wv ft)) fs)"
    and XN0: "xnode s t pa"
    and A1: "col t = BLACK"
  shows "\<exists>s'. erase_fix_up (rootp (terminal' s) t) s = efu_rest_L (rootp (terminal' s) t) (rootp (terminal' s) nt) s' \<and> tree_rep s' (plug (Bin (Bin t pa RED pv nt) wa BLACK wv ft) fs) \<and> same s s'"
proof -
  from T0 have F0_t: "tree_rep s (plug t (LF pa pc pv (Bin nt wa RED wv ft) # fs))" by simp
  have X0: "map_option parent (heap s (rootp (terminal' s) t)) = Some pa"
    "map_option color (heap s (rootp (terminal' s) t)) = Some (col t)"
    "rootp (terminal' s) t \<noteq> root' s"
    using xnode_get[OF F0_t] XN0 by simp_all
  from T0 have F0_pa: "tree_rep s (plug (Bin t pa pc pv (Bin nt wa RED wv ft)) fs)" by simp
  have N0_pa: "heap s pa = Some \<lparr>data = pv, color = pc, left = rootp (terminal' s) t, right = wa, parent = ptop (terminal' s) fs\<rparr>"
    using node_at[OF F0_pa] by simp
  from T0 have F0_wa: "tree_rep s (plug (Bin nt wa RED wv ft) (RF t pa pc pv # fs))" by simp
  have N0_wa: "heap s wa = Some \<lparr>data = wv, color = RED, left = rootp (terminal' s) nt, right = rootp (terminal' s) ft, parent = pa\<rparr>"
    using node_at[OF F0_wa] by simp
  from set_color_tree[OF F0_wa, of BLACK] obtain s1 where E1: "set_color wa BLACK s = Some s1"
    and G1: "tree_rep s1 (plug (Bin nt wa BLACK wv ft) (RF t pa pc pv # fs))" and S1: "same s s1" by blast
  from G1 have T1: "tree_rep s1 (plug (Bin t pa pc pv (Bin nt wa BLACK wv ft)) fs)" by simp
  from S1 have tm1: "terminal' s1 = terminal' s" by (simp add: same_def)
  from xnode_same[OF S1 XN0] have XN1: "xnode s1 t pa" .
  from T1 have F1_t: "tree_rep s1 (plug t (LF pa pc pv (Bin nt wa BLACK wv ft) # fs))" by simp
  have X1: "map_option parent (heap s1 (rootp (terminal' s) t)) = Some pa"
    "map_option color (heap s1 (rootp (terminal' s) t)) = Some (col t)"
    "rootp (terminal' s) t \<noteq> root' s1"
    using xnode_get[OF F1_t] XN1 by (simp_all add: tm1)
  from T1 have F1_pa: "tree_rep s1 (plug (Bin t pa pc pv (Bin nt wa BLACK wv ft)) fs)" by simp
  from set_color_tree[OF F1_pa, of RED] obtain s2 where E2: "set_color pa RED s1 = Some s2"
    and G2: "tree_rep s2 (plug (Bin t pa RED pv (Bin nt wa BLACK wv ft)) fs)" and S2: "same s1 s2" by blast
  from G2 have T2: "tree_rep s2 (plug (Bin t pa RED pv (Bin nt wa BLACK wv ft)) fs)" by simp
  from S2 tm1 have tm2: "terminal' s2 = terminal' s" by (simp add: same_def)
  from xnode_same[OF S2 XN1] have XN2: "xnode s2 t pa" .
  from T2 have F2_t: "tree_rep s2 (plug t (LF pa RED pv (Bin nt wa BLACK wv ft) # fs))" by simp
  have X2: "map_option parent (heap s2 (rootp (terminal' s) t)) = Some pa"
    "map_option color (heap s2 (rootp (terminal' s) t)) = Some (col t)"
    "rootp (terminal' s) t \<noteq> root' s2"
    using xnode_get[OF F2_t] XN2 by (simp_all add: tm2)
  from T2 have F2_pa: "tree_rep s2 (plug (Bin t pa RED pv (Bin nt wa BLACK wv ft)) fs)" by simp
  from left_rotate_tree[OF F2_pa] obtain s3 where E3: "left_rotate pa s2 = Some s3"
    and G3: "tree_rep s3 (plug (Bin (Bin t pa RED pv nt) wa BLACK wv ft) fs)" and S3: "same s2 s3" by blast
  from G3 have T3: "tree_rep s3 (plug (Bin (Bin t pa RED pv nt) wa BLACK wv ft) fs)" by simp
  from S3 tm2 have tm3: "terminal' s3 = terminal' s" by (simp add: same_def)
  from xnode_same[OF S3 XN2] have XN3: "xnode s3 t pa" .
  from T3 have F3_t: "tree_rep s3 (plug t (LF pa RED pv nt # LF wa BLACK wv ft # fs))" by simp
  have X3: "map_option parent (heap s3 (rootp (terminal' s) t)) = Some pa"
    "map_option color (heap s3 (rootp (terminal' s) t)) = Some (col t)"
    "rootp (terminal' s) t \<noteq> root' s3"
    using xnode_get[OF F3_t] XN3 by (simp_all add: tm3)
  from T3 have F3_pa: "tree_rep s3 (plug (Bin t pa RED pv nt) (LF wa BLACK wv ft # fs))" by simp
  have N3_pa: "heap s3 pa = Some \<lparr>data = pv, color = RED, left = rootp (terminal' s) t, right = rootp (terminal' s) nt, parent = wa\<rparr>"
    using node_at[OF F3_pa] by (simp add: tm3)
  have EQ: "erase_fix_up (rootp (terminal' s) t) s = efu_rest_L (rootp (terminal' s) t) (rootp (terminal' s) nt) s3"
    by (simp add: erase_fix_up_unfold[of "rootp (terminal' s) t"] acc X0 N0_pa N0_wa E1 X1 E2 X2 E3 X3 N3_pa A1)
  have "same s s3" using S1 S2 S3 by (blast intro: same_trans)
  with EQ T3 show ?thesis by blast
qed

lemma efu_rest_R_case2:
  assumes T0: "tree_rep s (plug (Bin (Bin ft wa wc wv nt) pa pc pv t) fs)"
    and XN0: "xnode s t pa"
    and A1: "col nt = BLACK"
    and A2: "col ft = BLACK"
  shows "\<exists>s'. efu_rest_R (rootp (terminal' s) t) wa s = erase_fix_up pa s' \<and> tree_rep s' (plug (Bin (Bin ft wa RED wv nt) pa pc pv t) fs) \<and> same s s'"
proof -
  from T0 have F0_wa: "tree_rep s (plug (Bin ft wa wc wv nt) (LF pa pc pv t # fs))" by simp
  have N0_wa: "heap s wa = Some \<lparr>data = wv, color = wc, left = rootp (terminal' s) ft, right = rootp (terminal' s) nt, parent = pa\<rparr>"
    using node_at[OF F0_wa] by simp
  have C0_wa: "map_option color (heap s (rootp (terminal' s) ft)) = Some (col ft)"
    "map_option color (heap s (rootp (terminal' s) nt)) = Some (col nt)"
    using color_children[OF F0_wa] by simp_all
  from set_color_tree[OF F0_wa, of RED] obtain s1 where E1: "set_color wa RED s = Some s1"
    and G1: "tree_rep s1 (plug (Bin ft wa RED wv nt) (LF pa pc pv t # fs))" and S1: "same s s1" by blast
  from G1 have T1: "tree_rep s1 (plug (Bin (Bin ft wa RED wv nt) pa pc pv t) fs)" by simp
  from S1 have tm1: "terminal' s1 = terminal' s" by (simp add: same_def)
  from xnode_same[OF S1 XN0] have XN1: "xnode s1 t pa" .
  from T1 have F1_t: "tree_rep s1 (plug t (RF (Bin ft wa RED wv nt) pa pc pv # fs))" by simp
  have X1: "map_option parent (heap s1 (rootp (terminal' s) t)) = Some pa"
    "map_option color (heap s1 (rootp (terminal' s) t)) = Some (col t)"
    "rootp (terminal' s) t \<noteq> root' s1"
    using xnode_get[OF F1_t] XN1 by (simp_all add: tm1)
  have EQ: "efu_rest_R (rootp (terminal' s) t) wa s = erase_fix_up pa s1"
    by (simp add: efu_rest_R_def acc N0_wa C0_wa E1 X1 A1 A2)
  have "same s s1" using S1 by (blast intro: same_trans)
  with EQ T1 show ?thesis by blast
qed

lemma efu_rest_R_case4:
  assumes T0: "tree_rep s (plug (Bin (Bin (Bin fr fa RED fv fl) wa wc wv nt) pa pc pv t) fs)"
    and XN0: "xnode s t pa"
  shows "\<exists>s'. efu_rest_R (rootp (terminal' s) t) wa s = Some s' \<and> tree_rep s' (paint BLACK (plug (Bin (Bin fr fa BLACK fv fl) wa pc wv (Bin nt pa BLACK pv t)) fs)) \<and> same s s'"
proof -
  from T0 have F0_wa: "tree_rep s (plug (Bin (Bin fr fa RED fv fl) wa wc wv nt) (LF pa pc pv t # fs))" by simp
  have N0_wa: "heap s wa = Some \<lparr>data = wv, color = wc, left = fa, right = rootp (terminal' s) nt, parent = pa\<rparr>"
    using node_at[OF F0_wa] by simp
  have C0_wa: "map_option color (heap s (rootp (terminal' s) nt)) = Some (col nt)"
    using color_children[OF F0_wa] by simp_all
  from T0 have F0_fa: "tree_rep s (plug (Bin fr fa RED fv fl) (LF wa wc wv nt # LF pa pc pv t # fs))" by simp
  have N0_fa: "heap s fa = Some \<lparr>data = fv, color = RED, left = rootp (terminal' s) fr, right = rootp (terminal' s) fl, parent = wa\<rparr>"
    using node_at[OF F0_fa] by simp
  from T0 have F0_t: "tree_rep s (plug t (RF (Bin (Bin fr fa RED fv fl) wa wc wv nt) pa pc pv # fs))" by simp
  have X0: "map_option parent (heap s (rootp (terminal' s) t)) = Some pa"
    "map_option color (heap s (rootp (terminal' s) t)) = Some (col t)"
    "rootp (terminal' s) t \<noteq> root' s"
    using xnode_get[OF F0_t] XN0 by simp_all
  from T0 have F0_pa: "tree_rep s (plug (Bin (Bin (Bin fr fa RED fv fl) wa wc wv nt) pa pc pv t) fs)" by simp
  have N0_pa: "heap s pa = Some \<lparr>data = pv, color = pc, left = wa, right = rootp (terminal' s) t, parent = ptop (terminal' s) fs\<rparr>"
    using node_at[OF F0_pa] by simp
  from set_color_tree[OF F0_wa, of pc] obtain s1 where E1: "set_color wa pc s = Some s1"
    and G1: "tree_rep s1 (plug (Bin (Bin fr fa RED fv fl) wa pc wv nt) (LF pa pc pv t # fs))" and S1: "same s s1" by blast
  from G1 have T1: "tree_rep s1 (plug (Bin (Bin (Bin fr fa RED fv fl) wa pc wv nt) pa pc pv t) fs)" by simp
  from S1 have tm1: "terminal' s1 = terminal' s" by (simp add: same_def)
  from xnode_same[OF S1 XN0] have XN1: "xnode s1 t pa" .
  from T1 have F1_t: "tree_rep s1 (plug t (RF (Bin (Bin fr fa RED fv fl) wa pc wv nt) pa pc pv # fs))" by simp
  have X1: "map_option parent (heap s1 (rootp (terminal' s) t)) = Some pa"
    "map_option color (heap s1 (rootp (terminal' s) t)) = Some (col t)"
    "rootp (terminal' s) t \<noteq> root' s1"
    using xnode_get[OF F1_t] XN1 by (simp_all add: tm1)
  from T1 have F1_pa: "tree_rep s1 (plug (Bin (Bin (Bin fr fa RED fv fl) wa pc wv nt) pa pc pv t) fs)" by simp
  from set_color_tree[OF F1_pa, of BLACK] obtain s2 where E2: "set_color pa BLACK s1 = Some s2"
    and G2: "tree_rep s2 (plug (Bin (Bin (Bin fr fa RED fv fl) wa pc wv nt) pa BLACK pv t) fs)" and S2: "same s1 s2" by blast
  from G2 have T2: "tree_rep s2 (plug (Bin (Bin (Bin fr fa RED fv fl) wa pc wv nt) pa BLACK pv t) fs)" by simp
  from S2 tm1 have tm2: "terminal' s2 = terminal' s" by (simp add: same_def)
  from xnode_same[OF S2 XN1] have XN2: "xnode s2 t pa" .
  from T2 have F2_wa: "tree_rep s2 (plug (Bin (Bin fr fa RED fv fl) wa pc wv nt) (LF pa BLACK pv t # fs))" by simp
  have N2_wa: "heap s2 wa = Some \<lparr>data = wv, color = pc, left = fa, right = rootp (terminal' s) nt, parent = pa\<rparr>"
    using node_at[OF F2_wa] by (simp add: tm2)
  from T2 have F2_fa: "tree_rep s2 (plug (Bin fr fa RED fv fl) (LF wa pc wv nt # LF pa BLACK pv t # fs))" by simp
  from set_color_tree[OF F2_fa, of BLACK] obtain s3 where E3: "set_color fa BLACK s2 = Some s3"
    and G3: "tree_rep s3 (plug (Bin fr fa BLACK fv fl) (LF wa pc wv nt # LF pa BLACK pv t # fs))" and S3: "same s2 s3" by blast
  from G3 have T3: "tree_rep s3 (plug (Bin (Bin (Bin fr fa BLACK fv fl) wa pc wv nt) pa BLACK pv t) fs)" by simp
  from S3 tm2 have tm3: "terminal' s3 = terminal' s" by (simp add: same_def)
  from xnode_same[OF S3 XN2] have XN3: "xnode s3 t pa" .
  from T3 have F3_t: "tree_rep s3 (plug t (RF (Bin (Bin fr fa BLACK fv fl) wa pc wv nt) pa BLACK pv # fs))" by simp
  have X3: "map_option parent (heap s3 (rootp (terminal' s) t)) = Some pa"
    "map_option color (heap s3 (rootp (terminal' s) t)) = Some (col t)"
    "rootp (terminal' s) t \<noteq> root' s3"
    using xnode_get[OF F3_t] XN3 by (simp_all add: tm3)
  from T3 have F3_pa: "tree_rep s3 (plug (Bin (Bin (Bin fr fa BLACK fv fl) wa pc wv nt) pa BLACK pv t) fs)" by simp
  from right_rotate_tree[OF F3_pa] obtain s4 where E4: "right_rotate pa s3 = Some s4"
    and G4: "tree_rep s4 (plug (Bin (Bin fr fa BLACK fv fl) wa pc wv (Bin nt pa BLACK pv t)) fs)" and S4: "same s3 s4" by blast
  from G4 have T4: "tree_rep s4 (plug (Bin (Bin fr fa BLACK fv fl) wa pc wv (Bin nt pa BLACK pv t)) fs)" by simp
  from S4 tm3 have tm4: "terminal' s4 = terminal' s" by (simp add: same_def)
  from xnode_same[OF S4 XN3] have XN4: "xnode s4 t pa" .
  from erase_fix_up_at_root[OF T4] obtain s5 where E5: "erase_fix_up (root' s4) s4 = Some s5"
    and T5: "tree_rep s5 (paint BLACK (plug (Bin (Bin fr fa BLACK fv fl) wa pc wv (Bin nt pa BLACK pv t)) fs))" and S5: "same s4 s5" by blast
  have EQ: "efu_rest_R (rootp (terminal' s) t) wa s = Some s5"
    by (simp add: efu_rest_R_def acc N0_wa C0_wa N0_fa X0 N0_pa E1 X1 E2 N2_wa E3 X3 E4 E5 )
  have "same s s5" using S1 S2 S3 S4 S5 by (blast intro: same_trans)
  with EQ T5 show ?thesis by blast
qed

lemma efu_rest_R_case3:
  assumes T0: "tree_rep s (plug (Bin (Bin ft wa wc wv (Bin nr na RED nv nl)) pa pc pv t) fs)"
    and XN0: "xnode s t pa"
    and A1: "col ft = BLACK"
  shows "\<exists>s'. efu_rest_R (rootp (terminal' s) t) wa s = Some s' \<and> tree_rep s' (paint BLACK (plug (Bin (Bin ft wa BLACK wv nr) na pc nv (Bin nl pa BLACK pv t)) fs)) \<and> same s s'"
proof -
  from T0 have F0_wa: "tree_rep s (plug (Bin ft wa wc wv (Bin nr na RED nv nl)) (LF pa pc pv t # fs))" by simp
  have N0_wa: "heap s wa = Some \<lparr>data = wv, color = wc, left = rootp (terminal' s) ft, right = na, parent = pa\<rparr>"
    using node_at[OF F0_wa] by simp
  have C0_wa: "map_option color (heap s (rootp (terminal' s) ft)) = Some (col ft)"
    using color_children[OF F0_wa] by simp_all
  from T0 have F0_na: "tree_rep s (plug (Bin nr na RED nv nl) (RF ft wa wc wv # LF pa pc pv t # fs))" by simp
  have N0_na: "heap s na = Some \<lparr>data = nv, color = RED, left = rootp (terminal' s) nr, right = rootp (terminal' s) nl, parent = wa\<rparr>"
    using node_at[OF F0_na] by simp
  from set_color_tree[OF F0_na, of BLACK] obtain s1 where E1: "set_color na BLACK s = Some s1"
    and G1: "tree_rep s1 (plug (Bin nr na BLACK nv nl) (RF ft wa wc wv # LF pa pc pv t # fs))" and S1: "same s s1" by blast
  from G1 have T1: "tree_rep s1 (plug (Bin (Bin ft wa wc wv (Bin nr na BLACK nv nl)) pa pc pv t) fs)" by simp
  from S1 have tm1: "terminal' s1 = terminal' s" by (simp add: same_def)
  from xnode_same[OF S1 XN0] have XN1: "xnode s1 t pa" .
  from T1 have F1_wa: "tree_rep s1 (plug (Bin ft wa wc wv (Bin nr na BLACK nv nl)) (LF pa pc pv t # fs))" by simp
  from set_color_tree[OF F1_wa, of RED] obtain s2 where E2: "set_color wa RED s1 = Some s2"
    and G2: "tree_rep s2 (plug (Bin ft wa RED wv (Bin nr na BLACK nv nl)) (LF pa pc pv t # fs))" and S2: "same s1 s2" by blast
  from G2 have T2: "tree_rep s2 (plug (Bin (Bin ft wa RED wv (Bin nr na BLACK nv nl)) pa pc pv t) fs)" by simp
  from S2 tm1 have tm2: "terminal' s2 = terminal' s" by (simp add: same_def)
  from xnode_same[OF S2 XN1] have XN2: "xnode s2 t pa" .
  from T2 have F2_wa: "tree_rep s2 (plug (Bin ft wa RED wv (Bin nr na BLACK nv nl)) (LF pa pc pv t # fs))" by simp
  from left_rotate_tree[OF F2_wa] obtain s3 where E3: "left_rotate wa s2 = Some s3"
    and G3: "tree_rep s3 (plug (Bin (Bin ft wa RED wv nr) na BLACK nv nl) (LF pa pc pv t # fs))" and S3: "same s2 s3" by blast
  from G3 have T3: "tree_rep s3 (plug (Bin (Bin (Bin ft wa RED wv nr) na BLACK nv nl) pa pc pv t) fs)" by simp
  from S3 tm2 have tm3: "terminal' s3 = terminal' s" by (simp add: same_def)
  from xnode_same[OF S3 XN2] have XN3: "xnode s3 t pa" .
  from T3 have F3_t: "tree_rep s3 (plug t (RF (Bin (Bin ft wa RED wv nr) na BLACK nv nl) pa pc pv # fs))" by simp
  have X3: "map_option parent (heap s3 (rootp (terminal' s) t)) = Some pa"
    "map_option color (heap s3 (rootp (terminal' s) t)) = Some (col t)"
    "rootp (terminal' s) t \<noteq> root' s3"
    using xnode_get[OF F3_t] XN3 by (simp_all add: tm3)
  from T3 have F3_pa: "tree_rep s3 (plug (Bin (Bin (Bin ft wa RED wv nr) na BLACK nv nl) pa pc pv t) fs)" by simp
  have N3_pa: "heap s3 pa = Some \<lparr>data = pv, color = pc, left = na, right = rootp (terminal' s) t, parent = ptop (terminal' s) fs\<rparr>"
    using node_at[OF F3_pa] by (simp add: tm3)
  from T3 have F3_na: "tree_rep s3 (plug (Bin (Bin ft wa RED wv nr) na BLACK nv nl) (LF pa pc pv t # fs))" by simp
  from set_color_tree[OF F3_na, of pc] obtain s4 where E4: "set_color na pc s3 = Some s4"
    and G4: "tree_rep s4 (plug (Bin (Bin ft wa RED wv nr) na pc nv nl) (LF pa pc pv t # fs))" and S4: "same s3 s4" by blast
  from G4 have T4: "tree_rep s4 (plug (Bin (Bin (Bin ft wa RED wv nr) na pc nv nl) pa pc pv t) fs)" by simp
  from S4 tm3 have tm4: "terminal' s4 = terminal' s" by (simp add: same_def)
  from xnode_same[OF S4 XN3] have XN4: "xnode s4 t pa" .
  from T4 have F4_t: "tree_rep s4 (plug t (RF (Bin (Bin ft wa RED wv nr) na pc nv nl) pa pc pv # fs))" by simp
  have X4: "map_option parent (heap s4 (rootp (terminal' s) t)) = Some pa"
    "map_option color (heap s4 (rootp (terminal' s) t)) = Some (col t)"
    "rootp (terminal' s) t \<noteq> root' s4"
    using xnode_get[OF F4_t] XN4 by (simp_all add: tm4)
  from T4 have F4_pa: "tree_rep s4 (plug (Bin (Bin (Bin ft wa RED wv nr) na pc nv nl) pa pc pv t) fs)" by simp
  from set_color_tree[OF F4_pa, of BLACK] obtain s5 where E5: "set_color pa BLACK s4 = Some s5"
    and G5: "tree_rep s5 (plug (Bin (Bin (Bin ft wa RED wv nr) na pc nv nl) pa BLACK pv t) fs)" and S5: "same s4 s5" by blast
  from G5 have T5: "tree_rep s5 (plug (Bin (Bin (Bin ft wa RED wv nr) na pc nv nl) pa BLACK pv t) fs)" by simp
  from S5 tm4 have tm5: "terminal' s5 = terminal' s" by (simp add: same_def)
  from xnode_same[OF S5 XN4] have XN5: "xnode s5 t pa" .
  from T5 have F5_na: "tree_rep s5 (plug (Bin (Bin ft wa RED wv nr) na pc nv nl) (LF pa BLACK pv t # fs))" by simp
  have N5_na: "heap s5 na = Some \<lparr>data = nv, color = pc, left = wa, right = rootp (terminal' s) nl, parent = pa\<rparr>"
    using node_at[OF F5_na] by (simp add: tm5)
  from T5 have F5_wa: "tree_rep s5 (plug (Bin ft wa RED wv nr) (LF na pc nv nl # LF pa BLACK pv t # fs))" by simp
  from set_color_tree[OF F5_wa, of BLACK] obtain s6 where E6: "set_color wa BLACK s5 = Some s6"
    and G6: "tree_rep s6 (plug (Bin ft wa BLACK wv nr) (LF na pc nv nl # LF pa BLACK pv t # fs))" and S6: "same s5 s6" by blast
  from G6 have T6: "tree_rep s6 (plug (Bin (Bin (Bin ft wa BLACK wv nr) na pc nv nl) pa BLACK pv t) fs)" by simp
  from S6 tm5 have tm6: "terminal' s6 = terminal' s" by (simp add: same_def)
  from xnode_same[OF S6 XN5] have XN6: "xnode s6 t pa" .
  from T6 have F6_t: "tree_rep s6 (plug t (RF (Bin (Bin ft wa BLACK wv nr) na pc nv nl) pa BLACK pv # fs))" by simp
  have X6: "map_option parent (heap s6 (rootp (terminal' s) t)) = Some pa"
    "map_option color (heap s6 (rootp (terminal' s) t)) = Some (col t)"
    "rootp (terminal' s) t \<noteq> root' s6"
    using xnode_get[OF F6_t] XN6 by (simp_all add: tm6)
  from T6 have F6_pa: "tree_rep s6 (plug (Bin (Bin (Bin ft wa BLACK wv nr) na pc nv nl) pa BLACK pv t) fs)" by simp
  from right_rotate_tree[OF F6_pa] obtain s7 where E7: "right_rotate pa s6 = Some s7"
    and G7: "tree_rep s7 (plug (Bin (Bin ft wa BLACK wv nr) na pc nv (Bin nl pa BLACK pv t)) fs)" and S7: "same s6 s7" by blast
  from G7 have T7: "tree_rep s7 (plug (Bin (Bin ft wa BLACK wv nr) na pc nv (Bin nl pa BLACK pv t)) fs)" by simp
  from S7 tm6 have tm7: "terminal' s7 = terminal' s" by (simp add: same_def)
  from xnode_same[OF S7 XN6] have XN7: "xnode s7 t pa" .
  from erase_fix_up_at_root[OF T7] obtain s8 where E8: "erase_fix_up (root' s7) s7 = Some s8"
    and T8: "tree_rep s8 (paint BLACK (plug (Bin (Bin ft wa BLACK wv nr) na pc nv (Bin nl pa BLACK pv t)) fs))" and S8: "same s7 s8" by blast
  have EQ: "efu_rest_R (rootp (terminal' s) t) wa s = Some s8"
    by (simp add: efu_rest_R_def acc N0_wa C0_wa N0_na E1 E2 E3 X3 N3_pa E4 X4 E5 N5_na E6 X6 E7 E8 A1)
  have "same s s8" using S1 S2 S3 S4 S5 S6 S7 S8 by (blast intro: same_trans)
  with EQ T8 show ?thesis by blast
qed

lemma erase_fix_up_R_black:
  assumes T0: "tree_rep s (plug (Bin (Bin ft wa BLACK wv nt) pa pc pv t) fs)"
    and XN0: "xnode s t pa"
    and A1: "col t = BLACK"
    and A2: "rootp (terminal' s) t \<noteq> wa"
  shows "\<exists>s'. erase_fix_up (rootp (terminal' s) t) s = efu_rest_R (rootp (terminal' s) t) wa s' \<and> tree_rep s' (plug (Bin (Bin ft wa BLACK wv nt) pa pc pv t) fs) \<and> same s s'"
proof -
  from T0 have F0_t: "tree_rep s (plug t (RF (Bin ft wa BLACK wv nt) pa pc pv # fs))" by simp
  have X0: "map_option parent (heap s (rootp (terminal' s) t)) = Some pa"
    "map_option color (heap s (rootp (terminal' s) t)) = Some (col t)"
    "rootp (terminal' s) t \<noteq> root' s"
    using xnode_get[OF F0_t] XN0 by simp_all
  from T0 have F0_pa: "tree_rep s (plug (Bin (Bin ft wa BLACK wv nt) pa pc pv t) fs)" by simp
  have N0_pa: "heap s pa = Some \<lparr>data = pv, color = pc, left = wa, right = rootp (terminal' s) t, parent = ptop (terminal' s) fs\<rparr>"
    using node_at[OF F0_pa] by simp
  from T0 have F0_wa: "tree_rep s (plug (Bin ft wa BLACK wv nt) (LF pa pc pv t # fs))" by simp
  have N0_wa: "heap s wa = Some \<lparr>data = wv, color = BLACK, left = rootp (terminal' s) ft, right = rootp (terminal' s) nt, parent = pa\<rparr>"
    using node_at[OF F0_wa] by simp
  have EQ: "erase_fix_up (rootp (terminal' s) t) s = efu_rest_R (rootp (terminal' s) t) wa s"
    by (simp add: erase_fix_up_unfold[of "rootp (terminal' s) t"] acc X0 N0_pa N0_wa A1 A2)
  have "same s s" by (rule same_refl)
  with EQ T0 show ?thesis by blast
qed

lemma erase_fix_up_R_red:
  assumes T0: "tree_rep s (plug (Bin (Bin ft wa RED wv nt) pa pc pv t) fs)"
    and XN0: "xnode s t pa"
    and A1: "col t = BLACK"
    and A2: "rootp (terminal' s) t \<noteq> wa"
  shows "\<exists>s'. erase_fix_up (rootp (terminal' s) t) s = efu_rest_R (rootp (terminal' s) t) (rootp (terminal' s) nt) s' \<and> tree_rep s' (plug (Bin ft wa BLACK wv (Bin nt pa RED pv t)) fs) \<and> same s s'"
proof -
  from T0 have F0_t: "tree_rep s (plug t (RF (Bin ft wa RED wv nt) pa pc pv # fs))" by simp
  have X0: "map_option parent (heap s (rootp (terminal' s) t)) = Some pa"
    "map_option color (heap s (rootp (terminal' s) t)) = Some (col t)"
    "rootp (terminal' s) t \<noteq> root' s"
    using xnode_get[OF F0_t] XN0 by simp_all
  from T0 have F0_pa: "tree_rep s (plug (Bin (Bin ft wa RED wv nt) pa pc pv t) fs)" by simp
  have N0_pa: "heap s pa = Some \<lparr>data = pv, color = pc, left = wa, right = rootp (terminal' s) t, parent = ptop (terminal' s) fs\<rparr>"
    using node_at[OF F0_pa] by simp
  from T0 have F0_wa: "tree_rep s (plug (Bin ft wa RED wv nt) (LF pa pc pv t # fs))" by simp
  have N0_wa: "heap s wa = Some \<lparr>data = wv, color = RED, left = rootp (terminal' s) ft, right = rootp (terminal' s) nt, parent = pa\<rparr>"
    using node_at[OF F0_wa] by simp
  from set_color_tree[OF F0_wa, of BLACK] obtain s1 where E1: "set_color wa BLACK s = Some s1"
    and G1: "tree_rep s1 (plug (Bin ft wa BLACK wv nt) (LF pa pc pv t # fs))" and S1: "same s s1" by blast
  from G1 have T1: "tree_rep s1 (plug (Bin (Bin ft wa BLACK wv nt) pa pc pv t) fs)" by simp
  from S1 have tm1: "terminal' s1 = terminal' s" by (simp add: same_def)
  from xnode_same[OF S1 XN0] have XN1: "xnode s1 t pa" .
  from T1 have F1_t: "tree_rep s1 (plug t (RF (Bin ft wa BLACK wv nt) pa pc pv # fs))" by simp
  have X1: "map_option parent (heap s1 (rootp (terminal' s) t)) = Some pa"
    "map_option color (heap s1 (rootp (terminal' s) t)) = Some (col t)"
    "rootp (terminal' s) t \<noteq> root' s1"
    using xnode_get[OF F1_t] XN1 by (simp_all add: tm1)
  from T1 have F1_pa: "tree_rep s1 (plug (Bin (Bin ft wa BLACK wv nt) pa pc pv t) fs)" by simp
  from set_color_tree[OF F1_pa, of RED] obtain s2 where E2: "set_color pa RED s1 = Some s2"
    and G2: "tree_rep s2 (plug (Bin (Bin ft wa BLACK wv nt) pa RED pv t) fs)" and S2: "same s1 s2" by blast
  from G2 have T2: "tree_rep s2 (plug (Bin (Bin ft wa BLACK wv nt) pa RED pv t) fs)" by simp
  from S2 tm1 have tm2: "terminal' s2 = terminal' s" by (simp add: same_def)
  from xnode_same[OF S2 XN1] have XN2: "xnode s2 t pa" .
  from T2 have F2_t: "tree_rep s2 (plug t (RF (Bin ft wa BLACK wv nt) pa RED pv # fs))" by simp
  have X2: "map_option parent (heap s2 (rootp (terminal' s) t)) = Some pa"
    "map_option color (heap s2 (rootp (terminal' s) t)) = Some (col t)"
    "rootp (terminal' s) t \<noteq> root' s2"
    using xnode_get[OF F2_t] XN2 by (simp_all add: tm2)
  from T2 have F2_pa: "tree_rep s2 (plug (Bin (Bin ft wa BLACK wv nt) pa RED pv t) fs)" by simp
  from right_rotate_tree[OF F2_pa] obtain s3 where E3: "right_rotate pa s2 = Some s3"
    and G3: "tree_rep s3 (plug (Bin ft wa BLACK wv (Bin nt pa RED pv t)) fs)" and S3: "same s2 s3" by blast
  from G3 have T3: "tree_rep s3 (plug (Bin ft wa BLACK wv (Bin nt pa RED pv t)) fs)" by simp
  from S3 tm2 have tm3: "terminal' s3 = terminal' s" by (simp add: same_def)
  from xnode_same[OF S3 XN2] have XN3: "xnode s3 t pa" .
  from T3 have F3_t: "tree_rep s3 (plug t (RF nt pa RED pv # RF ft wa BLACK wv # fs))" by simp
  have X3: "map_option parent (heap s3 (rootp (terminal' s) t)) = Some pa"
    "map_option color (heap s3 (rootp (terminal' s) t)) = Some (col t)"
    "rootp (terminal' s) t \<noteq> root' s3"
    using xnode_get[OF F3_t] XN3 by (simp_all add: tm3)
  from T3 have F3_pa: "tree_rep s3 (plug (Bin nt pa RED pv t) (RF ft wa BLACK wv # fs))" by simp
  have N3_pa: "heap s3 pa = Some \<lparr>data = pv, color = RED, left = rootp (terminal' s) nt, right = rootp (terminal' s) t, parent = wa\<rparr>"
    using node_at[OF F3_pa] by (simp add: tm3)
  have EQ: "erase_fix_up (rootp (terminal' s) t) s = efu_rest_R (rootp (terminal' s) t) (rootp (terminal' s) nt) s3"
    by (simp add: erase_fix_up_unfold[of "rootp (terminal' s) t"] acc X0 N0_pa N0_wa E1 X1 E2 X2 E3 X3 N3_pa A1 A2)
  have "same s s3" using S1 S2 S3 by (blast intro: same_trans)
  with EQ T3 show ?thesis by blast
qed


subsection \<open>The loop on the store follows the abstract loop\<close>

lemma efu_rest_L_refines:
  assumes e: "efu_L t pa pc pv w fs = Some res"
    and T: "tree_rep s (plug (Bin t pa pc pv w) fs)" and X: "xnode s t pa"
  shows "case res of
      Done t' \<Rightarrow> \<exists>s'. efu_rest_L (rootp (terminal' s) t) (rootp (terminal' s) w) s = Some s'
                   \<and> tree_rep s' (paint BLACK t') \<and> same s s'
    | Cont t' fs' \<Rightarrow> \<exists>s'. efu_rest_L (rootp (terminal' s) t) (rootp (terminal' s) w) s
                         = erase_fix_up (rootp (terminal' s) t') s'
                   \<and> tree_rep s' (plug t' fs') \<and> same s s'"
proof (cases w)
  case Tip
  with e show ?thesis by simp
next
  case (Bin wl wa wc wv wr)
  consider (c2) "col wl = BLACK" "col wr = BLACK" | (c3) "col wl = RED" "col wr = BLACK"
    | (c4) "col wr = RED"
    by (cases "col wl"; cases "col wr") auto
  then show ?thesis
  proof cases
    case c2
    from e Bin c2 have r: "res = Cont (Bin t pa pc pv (Bin wl wa RED wv wr)) fs" by simp
    from efu_rest_L_case2[OF T[unfolded Bin] X c2] show ?thesis
      unfolding r Bin by simp
  next
    case c3
    then obtain wll wla wlv wlr where wl: "wl = Bin wll wla RED wlv wlr"
      using col_RED_Bin by blast
    from e Bin c3 wl have r: "res = Done (plug (Bin (Bin t pa BLACK pv wll) wla pc wlv
        (Bin wlr wa BLACK wv wr)) fs)" by simp
    from efu_rest_L_case3[OF T[unfolded Bin wl] X c3(2)] show ?thesis
      unfolding r Bin by simp
  next
    case c4
    then obtain wrl wra wrv wrr where wr: "wr = Bin wrl wra RED wrv wrr"
      using col_RED_Bin by blast
    from e Bin c4 wr have r: "res = Done (plug (Bin (Bin t pa BLACK pv wl) wa pc wv
        (Bin wrl wra BLACK wrv wrr)) fs)" by simp
    from efu_rest_L_case4[OF T[unfolded Bin wr] X] show ?thesis
      unfolding r Bin by simp
  qed
qed

lemma efu_rest_R_refines:
  assumes e: "efu_R t pa pc pv w fs = Some res"
    and T: "tree_rep s (plug (Bin w pa pc pv t) fs)" and X: "xnode s t pa"
  shows "case res of
      Done t' \<Rightarrow> \<exists>s'. efu_rest_R (rootp (terminal' s) t) (rootp (terminal' s) w) s = Some s'
                   \<and> tree_rep s' (paint BLACK t') \<and> same s s'
    | Cont t' fs' \<Rightarrow> \<exists>s'. efu_rest_R (rootp (terminal' s) t) (rootp (terminal' s) w) s
                         = erase_fix_up (rootp (terminal' s) t') s'
                   \<and> tree_rep s' (plug t' fs') \<and> same s s'"
proof (cases w)
  case Tip
  with e show ?thesis by simp
next
  case (Bin wl wa wc wv wr)
  consider (c2) "col wr = BLACK" "col wl = BLACK" | (c3) "col wr = RED" "col wl = BLACK"
    | (c4) "col wl = RED"
    by (cases "col wl"; cases "col wr") auto
  then show ?thesis
  proof cases
    case c2
    from e Bin c2 have r: "res = Cont (Bin (Bin wl wa RED wv wr) pa pc pv t) fs" by simp
    from efu_rest_R_case2[OF T[unfolded Bin] X c2] show ?thesis
      unfolding r Bin by simp
  next
    case c3
    then obtain wrl wra wrv wrr where wr: "wr = Bin wrl wra RED wrv wrr"
      using col_RED_Bin by blast
    from e Bin c3 wr have r: "res = Done (plug (Bin (Bin wl wa BLACK wv wrl) wra pc wrv
        (Bin wrr pa BLACK pv t)) fs)" by simp
    from efu_rest_R_case3[OF T[unfolded Bin wr] X c3(2)] show ?thesis
      unfolding r Bin by simp
  next
    case c4
    then obtain wll wla wlv wlr where wl: "wl = Bin wll wla RED wlv wlr"
      using col_RED_Bin by blast
    from e Bin c4 wl have r: "res = Done (plug (Bin (Bin wll wla BLACK wlv wlr) wa pc wv
        (Bin wr pa BLACK pv t)) fs)" by simp
    from efu_rest_R_case4[OF T[unfolded Bin wl] X] show ?thesis
      unfolding r Bin by simp
  qed
qed

lemma efu_L_Cont_Bin: "efu_L t pa pc pv w fs = Some (Cont t' fs') \<Longrightarrow> t' \<noteq> Tip"
  by (cases w) (auto split: if_splits tree.splits)

lemma efu_R_Cont_Bin: "efu_R t pa pc pv w fs = Some (Cont t' fs') \<Longrightarrow> t' \<noteq> Tip"
  by (cases w) (auto split: if_splits tree.splits)

lemma sibling_neq:
  assumes "tree_rep s (plug (Bin (Bin wl wa wc wv wr) pa pc pv t) fs)"
  shows "rootp (terminal' s) t \<noteq> wa"
proof -
  from assms have "wa \<notin> set (addrs t)" "wa \<noteq> terminal' s"
    by (auto simp: unf)
  then show ?thesis by simp
qed

lemma erase_fix_up_step:
  assumes e: "efu_step t f fs = Some res" and c: "col t = BLACK"
    and T: "tree_rep s (plug t (f # fs))" and X: "xnode s t (faddr f)"
  shows "case res of
      Done t' \<Rightarrow> \<exists>s'. erase_fix_up (rootp (terminal' s) t) s = Some s'
                   \<and> tree_rep s' (paint BLACK t') \<and> same s s'
    | Cont t' fs' \<Rightarrow> \<exists>s'. erase_fix_up (rootp (terminal' s) t) s
                         = erase_fix_up (rootp (terminal' s) t') s'
                   \<and> tree_rep s' (plug t' fs') \<and> same s s'"
proof (cases f)
  case (LF pa pc pv w)
  with e obtain wl wa wc wv wr where w: "w = Bin wl wa wc wv wr" by (cases w) auto
  from T LF w have T0: "tree_rep s (plug (Bin t pa pc pv (Bin wl wa wc wv wr)) fs)" by simp
  from X LF have X0: "xnode s t pa" by simp
  show ?thesis
  proof (cases "wc = RED")
    case True
    with e LF w have e': "efu_L t pa RED pv wl (LF wa BLACK wv wr # fs) = Some res" by simp
    from erase_fix_up_L_red[OF T0[unfolded True] X0 c] obtain s1 where
      E: "erase_fix_up (rootp (terminal' s) t) s
          = efu_rest_L (rootp (terminal' s) t) (rootp (terminal' s) wl) s1"
      and T1: "tree_rep s1 (plug (Bin (Bin t pa RED pv wl) wa BLACK wv wr) fs)"
      and S: "same s s1" by blast
    from S have tm: "terminal' s1 = terminal' s" by (simp add: same_def)
    from T1 have T1': "tree_rep s1 (plug (Bin t pa RED pv wl) (LF wa BLACK wv wr # fs))" by simp
    from efu_rest_L_refines[OF e' T1' xnode_same[OF S X0]] E S show ?thesis
      unfolding tm by (cases res) (auto intro: same_trans)
  next
    case False
    then have wc: "wc = BLACK" by (cases wc) auto
    with e LF w have e': "efu_L t pa pc pv (Bin wl wa BLACK wv wr) fs = Some res" by simp
    from erase_fix_up_L_black[OF T0[unfolded wc] X0 c] obtain s1 where
      E: "erase_fix_up (rootp (terminal' s) t) s = efu_rest_L (rootp (terminal' s) t) wa s1"
      and T1: "tree_rep s1 (plug (Bin t pa pc pv (Bin wl wa BLACK wv wr)) fs)"
      and S: "same s s1" by blast
    from S have tm: "terminal' s1 = terminal' s" by (simp add: same_def)
    from efu_rest_L_refines[OF e' T1 xnode_same[OF S X0]] E S show ?thesis
      unfolding tm by (cases res) (auto intro: same_trans)
  qed
next
  case (RF w pa pc pv)
  with e obtain wl wa wc wv wr where w: "w = Bin wl wa wc wv wr" by (cases w) auto
  from T RF w have T0: "tree_rep s (plug (Bin (Bin wl wa wc wv wr) pa pc pv t) fs)" by simp
  from X RF have X0: "xnode s t pa" by simp
  note n = sibling_neq[OF T0]
  show ?thesis
  proof (cases "wc = RED")
    case True
    with e RF w have e': "efu_R t pa RED pv wr (RF wl wa BLACK wv # fs) = Some res" by simp
    from erase_fix_up_R_red[OF T0[unfolded True] X0 c n] obtain s1 where
      E: "erase_fix_up (rootp (terminal' s) t) s
          = efu_rest_R (rootp (terminal' s) t) (rootp (terminal' s) wr) s1"
      and T1: "tree_rep s1 (plug (Bin wl wa BLACK wv (Bin wr pa RED pv t)) fs)"
      and S: "same s s1" by blast
    from S have tm: "terminal' s1 = terminal' s" by (simp add: same_def)
    from T1 have T1': "tree_rep s1 (plug (Bin wr pa RED pv t) (RF wl wa BLACK wv # fs))" by simp
    from efu_rest_R_refines[OF e' T1' xnode_same[OF S X0]] E S show ?thesis
      unfolding tm by (cases res) (auto intro: same_trans)
  next
    case False
    then have wc: "wc = BLACK" by (cases wc) auto
    with e RF w have e': "efu_R t pa pc pv (Bin wl wa BLACK wv wr) fs = Some res" by simp
    from erase_fix_up_R_black[OF T0[unfolded wc] X0 c n] obtain s1 where
      E: "erase_fix_up (rootp (terminal' s) t) s = efu_rest_R (rootp (terminal' s) t) wa s1"
      and T1: "tree_rep s1 (plug (Bin (Bin wl wa BLACK wv wr) pa pc pv t) fs)"
      and S: "same s s1" by blast
    from S have tm: "terminal' s1 = terminal' s" by (simp add: same_def)
    from efu_rest_R_refines[OF e' T1 xnode_same[OF S X0]] E S show ?thesis
      unfolding tm by (cases res) (auto intro: same_trans)
  qed
qed

theorem erase_fix_up_refines:
  assumes "efu t fs = Some t'" "tree_rep s (plug t fs)" "xnode s t (ptop (terminal' s) fs)"
  shows "\<exists>s'. erase_fix_up (rootp (terminal' s) t) s = Some s' \<and> tree_rep s' t' \<and> same s s'"
  using assms
proof (induction t fs arbitrary: s rule: efu.induct)
  case (1 t)
  then have "root' s = rootp (terminal' s) t" by (simp add: tree_rep_def)
  with erase_fix_up_at_root[of s t] 1 show ?case by simp
next
  case (2 t f fs)
  show ?case
  proof (cases "col t = RED")
    case True
    then obtain l x v r where t: "t = Bin l x RED v r" using col_RED_Bin by blast
    from 2(2) True have t': "t' = plug (paint BLACK t) (f # fs)" by simp
    from erase_fix_up_red[of s l x v r f fs] 2(3) t t' show ?thesis by simp
  next
    case False
    then have c: "col t = BLACK" by (cases "col t") auto
    from 2(4) have X: "xnode s t (faddr f)" by (cases f) simp_all
    from 2(2) False obtain res where e: "efu_step t f fs = Some res"
      by (cases "efu_step t f fs") auto
    note st = erase_fix_up_step[OF e c 2(3) X]
    show ?thesis
    proof (cases res)
      case (Done u)
      with 2(2) False e have "t' = paint BLACK u" by simp
      with st Done show ?thesis by simp
    next
      case (Cont u gs)
      with 2(2) False e have e': "efu u gs = Some t'" by simp
      from st Cont obtain s1 where
        E: "erase_fix_up (rootp (terminal' s) t) s = erase_fix_up (rootp (terminal' s) u) s1"
        and T1: "tree_rep s1 (plug u gs)" and S: "same s s1" by auto
      from S have tm: "terminal' s1 = terminal' s" by (simp add: same_def)
      have "u \<noteq> Tip"
      proof (cases f)
        case (LF pa pc pv w)
        with e Cont show ?thesis
          by (cases w) (auto split: if_splits dest: efu_L_Cont_Bin simp del: efu_L.simps)
      next
        case (RF w pa pc pv)
        with e Cont show ?thesis
          by (cases w) (auto split: if_splits dest: efu_R_Cont_Bin simp del: efu_R.simps)
      qed
      then have X1: "xnode s1 u (ptop (terminal' s1) gs)" by (simp add: xnode_def)
      from "2.IH"[OF False e Cont e' T1 X1] obtain s' where
        "erase_fix_up (rootp (terminal' s1) u) s1 = Some s'" "tree_rep s' t'" "same s1 s'"
        by blast
      with E S tm show ?thesis by (auto intro: same_trans)
    qed
  qed
qed


section \<open>Erasure on abstract trees\<close>

text \<open>The leftmost node of a non-empty tree (\<^verbatim>\<open>Node::minimum\<close>), with its colour, value and right
  subtree and with the path that leads to it.\<close>

fun split_min :: "'a tree \<Rightarrow> PNode \<Rightarrow> NodeColor \<Rightarrow> 'a \<Rightarrow> 'a tree \<Rightarrow> 'a frame list
    \<Rightarrow> PNode \<times> NodeColor \<times> 'a \<times> 'a tree \<times> 'a frame list" where
  "split_min Tip a c v r gs = (a, c, v, r, gs)"
| "split_min (Bin ll la lc lv lr) a c v r gs = split_min ll la lc lv lr (LF a c v r # gs)"

text \<open>The tree after the node \<^verbatim>\<open>z\<close> has been unlinked, as the subtree at \<^verbatim>\<open>x\<close> in its context,
  and the colour that left the tree (\<^verbatim>\<open>original_color\<close>).\<close>

fun esplice :: "'a tree \<Rightarrow> PNode \<Rightarrow> NodeColor \<Rightarrow> 'a \<Rightarrow> 'a tree \<Rightarrow> 'a frame list
    \<Rightarrow> 'a tree \<times> 'a frame list \<times> NodeColor" where
  "esplice Tip z c v r fs = (r, fs, c)"
| "esplice (Bin ll la lc lv lr) z c v Tip fs = (Bin ll la lc lv lr, fs, c)"
| "esplice (Bin ll la lc lv lr) z c v (Bin rl ra rc rv rr) fs =
     (case split_min rl ra rc rv rr [] of
        (y, cy, yv, yr, gs) \<Rightarrow> (yr, gs @ RF (Bin ll la lc lv lr) y c yv # fs, cy))"

definition erase_tree :: "'a tree \<Rightarrow> PNode \<Rightarrow> NodeColor \<Rightarrow> 'a \<Rightarrow> 'a tree \<Rightarrow> 'a frame list
    \<Rightarrow> 'a tree option" where
  "erase_tree l z c v r fs =
     (case esplice l z c v r fs of
        (x, gs, oc) \<Rightarrow> if oc = BLACK then efu x gs else Some (plug x gs))"

subsection \<open>Colour and black height at the top of a context\<close>

fun ctopc :: "NodeColor \<Rightarrow> 'a frame list \<Rightarrow> NodeColor" where
  "ctopc c [] = c"
| "ctopc c (f # fs) = ctopc (fcol f) fs"

fun ctopn :: "nat \<Rightarrow> 'a frame list \<Rightarrow> nat" where
  "ctopn n [] = n"
| "ctopn n (f # fs) = ctopn (if fcol f = BLACK then Suc n else n) fs"

lemma col_plug_ctopc: "col (plug t fs) = ctopc (col t) fs"
proof (induction fs arbitrary: t)
  case Nil
  show ?case by simp
next
  case (Cons f fs)
  show ?case by (cases f) (simp_all add: Cons)
qed

lemma bh_plug_ctopn: "ctx_ok (col t) (bh t) fs \<Longrightarrow> bh (plug t fs) = ctopn (bh t) fs"
proof (induction fs arbitrary: t)
  case Nil
  show ?case by simp
next
  case (Cons f fs)
  show ?case
  proof (cases f)
    case (LF a c v r)
    with Cons.prems have "ctx_ok (col (Bin t a c v r)) (bh (Bin t a c v r)) fs" by auto
    from Cons.IH[OF this] LF show ?thesis by simp
  next
    case (RF l a c v)
    with Cons.prems have "ctx_ok (col (Bin l a c v t)) (bh (Bin l a c v t)) fs" by auto
    from Cons.IH[OF this] RF Cons.prems show ?thesis by simp
  qed
qed

lemma ctx_ok_append:
  "ctx_ok c n (gs @ fs) = (ctx_ok c n gs \<and> ctx_ok (ctopc c gs) (ctopn n gs) fs)"
  by (induction c n gs rule: ctx_ok.induct) auto

lemma ctopc_black: "ctopc c gs = BLACK \<Longrightarrow> ctopc BLACK gs = BLACK"
  by (cases gs) auto

lemma ctopc_append [simp]: "ctopc c (gs @ fs) = ctopc (ctopc c gs) fs"
  by (induction gs arbitrary: c) auto

lemma ctopc_last: "fs \<noteq> [] \<Longrightarrow> ctopc c fs = fcol (last fs)"
  by (induction fs arbitrary: c) auto

subsection \<open>The leftmost node\<close>

lemma split_min_plug:
  assumes "split_min l a c v r gs = (y, cy, yv, yr, hs)"
  shows "\<exists>ks. hs = ks @ gs \<and> cbefore ks = [] \<and> plug (Bin Tip y cy yv yr) ks = Bin l a c v r"
  using assms
proof (induction l a c v r gs rule: split_min.induct)
  case (1 a c v r gs)
  then show ?case by simp
next
  case (2 ll la lc lv lr a c v r gs)
  from 2(2) have "split_min ll la lc lv lr (LF a c v r # gs) = (y, cy, yv, yr, hs)" by simp
  from 2(1)[OF this] obtain ks where ks: "hs = ks @ LF a c v r # gs" "cbefore ks = []"
    "plug (Bin Tip y cy yv yr) ks = Bin ll la lc lv lr" by blast
  have "cbefore (ks @ [LF a c v r]) = []" using ks(2)
    by (induction ks rule: cbefore.induct) auto
  moreover have "plug (Bin Tip y cy yv yr) (ks @ [LF a c v r]) = Bin (Bin ll la lc lv lr) a c v r"
    using ks(3) by (simp add: plug_append)
  ultimately show ?case using ks(1) by (intro exI[of _ "ks @ [LF a c v r]"]) simp
qed

subsection \<open>Erasure keeps the red-black invariants\<close>

lemma erase_finish:
  assumes "no_red_red x" "balanced x"
    "ctx_ok BLACK (if oc = BLACK then Suc (bh x) else bh x) gs"
    "oc = RED \<longrightarrow> col x = BLACK" "gs = [] \<or> fcol (last gs) = BLACK"
  shows "\<exists>t'. (if oc = BLACK then efu x gs else Some (plug x gs)) = Some t'
     \<and> no_red_red t' \<and> balanced t' \<and> col t' = BLACK \<and> nodes t' = nodes (plug x gs)"
proof (cases oc)
  case BLACK
  with assms have "efu_inv x gs" by (simp add: efu_inv_def)
  from efu_rb[OF this] BLACK show ?thesis by simp
next
  case RED
  with assms have "no_red_red x \<and> balanced x \<and> ctx_ok (col x) (bh x) gs" by simp
  then have "no_red_red (plug x gs) \<and> balanced (plug x gs)" by (rule rb_plug[THEN iffD2])
  moreover from RED assms have "col (plug x gs) = BLACK" by (auto simp: col_plug)
  ultimately show ?thesis using RED by simp
qed

theorem erase_tree_rb:
  assumes nr: "no_red_red (plug (Bin l z c v r) fs)" and ba: "balanced (plug (Bin l z c v r) fs)"
    and cb: "col (plug (Bin l z c v r) fs) = BLACK"
  shows "\<exists>t'. erase_tree l z c v r fs = Some t' \<and> no_red_red t' \<and> balanced t' \<and> col t' = BLACK
     \<and> nodes t' = cbefore fs @ nodes l @ nodes r @ cafter fs"
proof -
  have "no_red_red (Bin l z c v r) \<and> balanced (Bin l z c v r)
      \<and> ctx_ok (col (Bin l z c v r)) (bh (Bin l z c v r)) fs"
    by (rule rb_plug[THEN iffD1, OF conjI[OF nr ba]])
  then have Z: "no_red_red l" "no_red_red r" "balanced l" "balanced r" "bh l = bh r"
    "c = RED \<longrightarrow> col l = BLACK \<and> col r = BLACK"
    and C: "ctx_ok c (if c = BLACK then Suc (bh l) else bh l) fs" by (auto split: if_splits)
  from C have C': "ctx_ok BLACK (if c = BLACK then Suc (bh l) else bh l) fs"
    by (rule ctx_ok_black)
  from cb have top: "ctopc c fs = BLACK" by (simp add: col_plug_ctopc)
  then have last: "fs = [] \<or> fcol (last fs) = BLACK"
    by (cases "fs = []") (simp_all add: ctopc_last)
  show ?thesis
  proof (cases l)
    case Tip
    then have E: "erase_tree l z c v r fs = (if c = BLACK then efu r fs else Some (plug r fs))"
      by (simp add: erase_tree_def)
    from Tip Z C' last have "\<exists>t'. (if c = BLACK then efu r fs else Some (plug r fs)) = Some t'
       \<and> no_red_red t' \<and> balanced t' \<and> col t' = BLACK \<and> nodes t' = nodes (plug r fs)"
      by (intro erase_finish) auto
    then show ?thesis unfolding E by (simp add: nodes_plug Tip)
  next
    case L: (Bin ll la lc lv lr)
    show ?thesis
    proof (cases r)
      case Tip
      with L have E: "erase_tree l z c v r fs
          = (if c = BLACK then efu l fs else Some (plug l fs))"
        by (simp add: erase_tree_def)
      from Tip Z C' last have "\<exists>t'. (if c = BLACK then efu l fs else Some (plug l fs)) = Some t'
         \<and> no_red_red t' \<and> balanced t' \<and> col t' = BLACK \<and> nodes t' = nodes (plug l fs)"
        by (intro erase_finish) auto
      then show ?thesis unfolding E by (simp add: nodes_plug Tip)
    next
      case R: (Bin rl ra rc rv rr)
      obtain y cy yv yr ks where sm: "split_min rl ra rc rv rr [] = (y, cy, yv, yr, ks)"
        by (cases "split_min rl ra rc rv rr []") auto
      from split_min_plug[OF sm] R have ks: "cbefore ks = []"
        "plug (Bin Tip y cy yv yr) ks = r" by auto
      from Z(2,4) have "no_red_red (plug (Bin Tip y cy yv yr) ks)
         \<and> balanced (plug (Bin Tip y cy yv yr) ks)" by (simp add: ks(2))
      then have "no_red_red (Bin Tip y cy yv yr) \<and> balanced (Bin Tip y cy yv yr)
         \<and> ctx_ok (col (Bin Tip y cy yv yr)) (bh (Bin Tip y cy yv yr)) ks"
        by (rule rb_plug[THEN iffD1])
      then have Y: "no_red_red yr" "balanced yr" "bh yr = 0" "cy = RED \<longrightarrow> col yr = BLACK"
        and K: "ctx_ok cy (if cy = BLACK then Suc 0 else 0) ks" by (auto split: if_splits)
      from K have K': "ctx_ok BLACK (if cy = BLACK then Suc 0 else 0) ks" by (rule ctx_ok_black)
      from K have "bh (plug (Bin Tip y cy yv yr) ks) = ctopn (bh (Bin Tip y cy yv yr)) ks"
        by (intro bh_plug_ctopn) (cases cy; simp)
      with ks(2) have bhr: "bh r = ctopn (if cy = BLACK then Suc 0 else 0) ks" by simp
      from col_plug_ctopc[of "Bin Tip y cy yv yr" ks] ks(2) have colr: "col r = ctopc cy ks"
        by simp
      let ?gs = "ks @ RF l y c yv # fs"
      have 1: "ctx_ok BLACK (if cy = BLACK then Suc (bh yr) else bh yr) ?gs"
        using K' Y(3) Z C bhr colr by (auto simp: ctx_ok_append dest: ctopc_black)
      have 2: "?gs = [] \<or> fcol (last ?gs) = BLACK" using last top by auto
      from Y 1 2 have "\<exists>t'. (if cy = BLACK then efu yr ?gs else Some (plug yr ?gs)) = Some t'
         \<and> no_red_red t' \<and> balanced t' \<and> col t' = BLACK \<and> nodes t' = nodes (plug yr ?gs)"
        by (intro erase_finish) auto
      moreover have "nodes (plug yr ?gs) = cbefore fs @ nodes l @ nodes r @ cafter fs"
        unfolding ks(2)[symmetric] by (simp add: plug_append nodes_plug ks(1))
      moreover have "erase_tree l z c v r fs
          = (if cy = BLACK then efu yr ?gs else Some (plug yr ?gs))"
        using L R sm by (simp add: erase_tree_def)
      ultimately show ?thesis by simp
    qed
  qed
qed


section \<open>Unlinking a node in the store\<close>

definition fields_eq :: "'a Set \<Rightarrow> 'a Set \<Rightarrow> bool" where
  "fields_eq s s' = (terminal' s' = terminal' s \<and> head' s' = head' s \<and> tail' s' = tail' s
      \<and> size' s' = size' s \<and> next_free s' = next_free s \<and> dom (heap s') = dom (heap s))"

lemma fields_eq_refl [simp]: "fields_eq s s"
  by (simp add: fields_eq_def)

lemma fields_eq_trans: "fields_eq s s1 \<Longrightarrow> fields_eq s1 s2 \<Longrightarrow> fields_eq s s2"
  by (simp add: fields_eq_def)

lemma same_fields_eq: "same s s' \<Longrightarrow> fields_eq s s'"
  by (simp add: same_def fields_eq_def)

lemmas tdefs = transplant_def get_left_def get_right_def get_parent_def get_color_def
  set_left_def set_right_def set_parent_def set_color_def fields_eq_def sentinel_def xnode_def

lemmas dj = Int_Un_distrib Int_Un_distrib2

lemma transplant_right:
  assumes "tree_rep s (plug (Bin l z c v r) fs)"
  shows "\<exists>s'. transplant z (rootp (terminal' s) r) s = Some s' \<and> tree_rep s' (plug r fs)
     \<and> xnode s' r (ptop (terminal' s) fs) \<and> fields_eq s s' \<and> heap s' z = heap s z"
proof -
  from assms have "sentinel s" by (simp add: tree_rep_def)
  then obtain d0 p0 where T: "heap s (terminal' s) =
     Some \<lparr>data = d0, color = BLACK, left = terminal' s, right = terminal' s, parent = p0\<rparr>"
    by (rule sentinelE)
  show ?thesis
  proof (cases r)
    case Tip
    show ?thesis
    proof (cases fs)
      case Nil
      with Tip T assms show ?thesis
        by (clarsimp simp: unf dj) (simp add: tdefs dj)
    next
      case (Cons f fs')
      with Tip T assms show ?thesis
        by (cases f; clarsimp simp: unf dj) (simp_all add: tdefs dj)
    qed
  next
    case (Bin rl ra rc rv rr)
    show ?thesis
    proof (cases fs)
      case Nil
      with Bin T assms show ?thesis
        by (clarsimp simp: unf dj) (simp add: tdefs dj)
    next
      case (Cons f fs')
      with Bin T assms show ?thesis
        by (cases f; clarsimp simp: unf dj) (simp_all add: tdefs dj)
    qed
  qed
qed

lemma transplant_left:
  assumes "tree_rep s (plug (Bin l z c v r) fs)"
  shows "\<exists>s'. transplant z (rootp (terminal' s) l) s = Some s' \<and> tree_rep s' (plug l fs)
     \<and> xnode s' l (ptop (terminal' s) fs) \<and> fields_eq s s' \<and> heap s' z = heap s z"
proof -
  from assms have "sentinel s" by (simp add: tree_rep_def)
  then obtain d0 p0 where T: "heap s (terminal' s) =
     Some \<lparr>data = d0, color = BLACK, left = terminal' s, right = terminal' s, parent = p0\<rparr>"
    by (rule sentinelE)
  show ?thesis
  proof (cases l)
    case Tip
    show ?thesis
    proof (cases fs)
      case Nil
      with Tip T assms show ?thesis
        by (clarsimp simp: unf dj) (simp add: tdefs dj)
    next
      case (Cons f fs')
      with Tip T assms show ?thesis
        by (cases f; clarsimp simp: unf dj) (simp_all add: tdefs dj)
    qed
  next
    case (Bin rl ra rc rv rr)
    show ?thesis
    proof (cases fs)
      case Nil
      with Bin T assms show ?thesis
        by (clarsimp simp: unf dj) (simp add: tdefs dj)
    next
      case (Cons f fs')
      with Bin T assms show ?thesis
        by (cases f; clarsimp simp: unf dj) (simp_all add: tdefs dj)
    qed
  qed
qed

text \<open>The node \<^verbatim>\<open>y\<close> takes the place of \<^verbatim>\<open>z\<close>: lines 358-361 of \<^verbatim>\<open>erase\<close>.\<close>

definition relink :: "PNode \<Rightarrow> PNode \<Rightarrow> 'a Set \<Rightarrow> 'a Set option" where
  "relink z y s = do {
     s \<leftarrow> transplant z y s;
     zl \<leftarrow> get_left s z;
     s \<leftarrow> set_left y zl s;
     yl \<leftarrow> get_left s y;
     s \<leftarrow> set_parent yl y s;
     zc \<leftarrow> get_color s z;
     set_color y zc s }"

lemma splice_near:
  assumes "tree_rep s (plug (Bin (Bin ll la lc lv lr) z c v (Bin Tip y cy yv yr)) fs)"
  shows "\<exists>s'. (set_parent (rootp (terminal' s) yr) y s \<bind> relink z y) = Some s'
     \<and> tree_rep s' (plug (Bin (Bin ll la lc lv lr) y c yv yr) fs)
     \<and> xnode s' yr y \<and> fields_eq s s' \<and> heap s' z \<noteq> None"
proof -
  from assms have "sentinel s" by (simp add: tree_rep_def)
  then obtain d0 p0 where T: "heap s (terminal' s) =
     Some \<lparr>data = d0, color = BLACK, left = terminal' s, right = terminal' s, parent = p0\<rparr>"
    by (rule sentinelE)
  show ?thesis
  proof (cases yr)
    case Tip
    show ?thesis
    proof (cases fs)
      case Nil
      with Tip T assms show ?thesis
        by (clarsimp simp: unf dj) (simp add: tdefs dj relink_def)
    next
      case (Cons f fs')
      with Tip T assms show ?thesis
        by (cases f; clarsimp simp: unf dj) (simp_all add: tdefs dj relink_def)
    qed
  next
    case (Bin rl ra rc rv rr)
    show ?thesis
    proof (cases fs)
      case Nil
      with Bin T assms show ?thesis
        by (clarsimp simp: unf dj) (simp add: tdefs dj relink_def)
    next
      case (Cons f fs')
      with Bin T assms show ?thesis
        by (cases f; clarsimp simp: unf dj) (simp_all add: tdefs dj relink_def)
    qed
  qed
qed

lemma splice_far:
  assumes "tree_rep s (plug (Bin (Bin ll la lc lv lr) z c v (Bin rl ra rc rv rr)) fs)"
    and "heap s y = Some \<lparr>data = yv, color = cy, left = yl, right = yr, parent = yp\<rparr>"
    and "y \<notin> set (addrs (plug (Bin (Bin ll la lc lv lr) z c v (Bin rl ra rc rv rr)) fs))"
    and "y \<noteq> terminal' s"
  shows "\<exists>s'. (do { zr \<leftarrow> get_right s z; s \<leftarrow> set_right y zr s; yr \<leftarrow> get_right s y;
                    s \<leftarrow> set_parent yr y s; relink z y s }) = Some s'
     \<and> tree_rep s' (plug (Bin (Bin ll la lc lv lr) y c yv (Bin rl ra rc rv rr)) fs)
     \<and> fields_eq s s' \<and> heap s' (terminal' s) = heap s (terminal' s) \<and> heap s' z \<noteq> None"
proof -
  from assms have "sentinel s" by (simp add: tree_rep_def)
  then obtain d0 p0 where T: "heap s (terminal' s) =
     Some \<lparr>data = d0, color = BLACK, left = terminal' s, right = terminal' s, parent = p0\<rparr>"
    by (rule sentinelE)
  show ?thesis
  proof (cases fs)
    case Nil
    with T assms show ?thesis
      by (clarsimp simp: unf dj) (simp add: tdefs dj relink_def)
  next
    case (Cons f fs')
    with T assms show ?thesis
      by (cases f; clarsimp simp: unf dj) (simp_all add: tdefs dj relink_def)
  qed
qed


section \<open>Erasure in the store\<close>

text \<open>The body of \<^verbatim>\<open>erase(iterator)\<close> after the updates of \<^verbatim>\<open>head_\<close> and \<^verbatim>\<open>tail_\<close>.\<close>

definition erase_core :: "PNode \<Rightarrow> 'a Set \<Rightarrow> 'a Set option" where
  "erase_core z s = do {
        original_color \<leftarrow> get_color s z;
        zl \<leftarrow> get_left s z;
        (x, original_color, s) \<leftarrow>
          (if zl = terminal' s then do {
             x \<leftarrow> get_right s z;
             zr \<leftarrow> get_right s z;
             s \<leftarrow> transplant z zr s;
             Some (x, original_color, s) }
           else do {
             zr \<leftarrow> get_right s z;
             if zr = terminal' s then do {
               x \<leftarrow> get_left s z;
               zl \<leftarrow> get_left s z;
               s \<leftarrow> transplant z zl s;
               Some (x, original_color, s) }
             else do {
               y \<leftarrow> get_right s z \<bind> Node_minimum s (terminal' s);
               original_color \<leftarrow> get_color s y;
               x \<leftarrow> get_right s y;
               yp \<leftarrow> get_parent s y;
               s \<leftarrow> (if yp = z then set_parent x y s
                    else do {
                      yr \<leftarrow> get_right s y;
                      s \<leftarrow> transplant y yr s;
                      zr \<leftarrow> get_right s z;
                      s \<leftarrow> set_right y zr s;
                      yr \<leftarrow> get_right s y;
                      set_parent yr y s });
               s \<leftarrow> transplant z y s;
               zl \<leftarrow> get_left s z;
               s \<leftarrow> set_left y zl s;
               yl \<leftarrow> get_left s y;
               s \<leftarrow> set_parent yl y s;
               zc \<leftarrow> get_color s z;
               s \<leftarrow> set_color y zc s;
               Some (x, original_color, s) } });
        s \<leftarrow> (if original_color = BLACK then erase_fix_up x s else Some s);
        s \<leftarrow> Some (s\<lparr>size' := size' s - 1\<rparr>);
        delete_node z s }"

lemma Set_erase_it_unfold:
  "Set_erase_it old_node s =
     (if old_node = Set_end s then Some s
      else do {
        z \<leftarrow> Some old_node;
        s \<leftarrow> (if head' s = z then do {
                 h \<leftarrow> Node_next s (terminal' s) (head' s);
                 Some (s\<lparr>head' := h\<rparr>) }
              else Some s);
        s \<leftarrow> (if tail' s = z then do {
                 t \<leftarrow> Node_prev s (terminal' s) (tail' s);
                 Some (s\<lparr>tail' := t\<rparr>) }
              else Some s);
        erase_core z s })"
  unfolding erase_core_def by (rule Set_erase_it_def)

lemma tree_rep_head [simp]: "tree_rep (s\<lparr>head' := h\<rparr>) t = tree_rep s t"
  by (simp add: tree_rep_def sentinel_def)

lemma tree_rep_tail [simp]: "tree_rep (s\<lparr>tail' := h\<rparr>) t = tree_rep s t"
  by (simp add: tree_rep_def sentinel_def)

lemma tree_rep_size [simp]: "tree_rep (s\<lparr>size' := n\<rparr>) t = tree_rep s t"
  by (simp add: tree_rep_def sentinel_def)

lemma tree_rep_delete:
  assumes "tree_rep s t" "z \<notin> set (addrs t)" "z \<noteq> terminal' s"
  shows "tree_rep (s\<lparr>heap := (heap s)(z := None)\<rparr>) t"
  using assms by (simp add: tree_rep_def sentinel_def)

text \<open>The end of \<^verbatim>\<open>erase\<close>: rebalancing, the size, and the release of the node.\<close>

definition erase_end :: "PNode \<Rightarrow> PNode \<Rightarrow> NodeColor \<Rightarrow> 'a Set \<Rightarrow> 'a Set option" where
  "erase_end z x original_color s = do {
     s \<leftarrow> (if original_color = BLACK then erase_fix_up x s else Some s);
     s \<leftarrow> Some (s\<lparr>size' := size' s - 1\<rparr>);
     delete_node z s }"

definition erased :: "PNode \<Rightarrow> 'a Set \<Rightarrow> 'a Set \<Rightarrow> bool" where
  "erased z s s' = (terminal' s' = terminal' s \<and> head' s' = head' s \<and> tail' s' = tail' s
     \<and> size' s' = size' s - 1 \<and> next_free s' = next_free s
     \<and> dom (heap s') = dom (heap s) - {z})"

lemma erase_end_refines:
  assumes T: "tree_rep s (plug x gs)" and X: "xnode s x (ptop (terminal' s) gs)"
    and e: "(if oc = BLACK then efu x gs else Some (plug x gs)) = Some t'"
    and z: "z \<notin> set (addrs t')" "z \<noteq> terminal' s" "heap s z \<noteq> None"
  shows "\<exists>s'. erase_end z (rootp (terminal' s) x) oc s = Some s' \<and> tree_rep s' t'
     \<and> erased z s s'"
proof -
  have "\<exists>s1. (if oc = BLACK then erase_fix_up (rootp (terminal' s) x) s else Some s) = Some s1
      \<and> tree_rep s1 t' \<and> same s s1"
  proof (cases oc)
    case BLACK
    with e have "efu x gs = Some t'" by simp
    from erase_fix_up_refines[OF this T X] BLACK show ?thesis by simp
  next
    case RED
    with e T show ?thesis by auto
  qed
  then obtain s1 where s1: "(if oc = BLACK then erase_fix_up (rootp (terminal' s) x) s
      else Some s) = Some s1" "tree_rep s1 t'" "same s s1" by blast
  from s1(3) z(3) obtain n where n: "heap s1 z = Some n"
    by (auto simp: same_def dom_def set_eq_iff)
  let ?s' = "s1\<lparr>size' := size' s1 - 1, heap := (heap s1)(z := None)\<rparr>"
  have "erase_end z (rootp (terminal' s) x) oc s = Some ?s'"
    by (simp add: erase_end_def s1(1) delete_node_def n)
  moreover from s1(3) z(2) have "z \<noteq> terminal' s1" by (simp add: same_def)
  with s1(2) z(1) have "tree_rep ?s' t'"
    by (simp add: tree_rep_def sentinel_def)
  moreover from s1(3) have "erased z s ?s'"
    by (auto simp: erased_def same_def)
  ultimately show ?thesis by blast
qed

lemma erased_fields: "fields_eq s s1 \<Longrightarrow> erased z s1 s' \<Longrightarrow> erased z s s'"
  by (simp add: fields_eq_def erased_def)

lemma focus_neq_terminal: "tree_rep s (plug (Bin l z c v r) fs) \<Longrightarrow> z \<noteq> terminal' s"
  by (auto simp: unf)

lemma erase_core_A:
  assumes T: "tree_rep s (plug (Bin Tip z c v r) fs)"
    and e: "erase_tree Tip z c v r fs = Some t'" and z: "z \<notin> set (addrs t')"
  shows "\<exists>s'. erase_core z s = Some s' \<and> tree_rep s' t' \<and> erased z s s'"
proof -
  from node_at[OF T] have N: "heap s z = Some \<lparr>data = v, color = c, left = terminal' s,
      right = rootp (terminal' s) r, parent = ptop (terminal' s) fs\<rparr>" by simp
  from transplant_right[OF T] obtain s1 where
    s1: "transplant z (rootp (terminal' s) r) s = Some s1" "tree_rep s1 (plug r fs)"
      "xnode s1 r (ptop (terminal' s) fs)" "fields_eq s s1" "heap s1 z = heap s z" by blast
  from s1(4) have tm: "terminal' s1 = terminal' s" by (simp add: fields_eq_def)
  have EQ: "erase_core z s = erase_end z (rootp (terminal' s) r) c s1"
    by (simp add: erase_core_def erase_end_def acc N s1(1))
  from e have e': "(if c = BLACK then efu r fs else Some (plug r fs)) = Some t'"
    by (simp add: erase_tree_def)
  from focus_neq_terminal[OF T] tm have zT: "z \<noteq> terminal' s1" by simp
  from s1(3) tm have X: "xnode s1 r (ptop (terminal' s1) fs)" by simp
  from s1(5) N have "heap s1 z \<noteq> None" by simp
  from erase_end_refines[OF s1(2) X e' z zT this] obtain s' where
    "erase_end z (rootp (terminal' s1) r) c s1 = Some s'" "tree_rep s' t'" "erased z s1 s'"
    by blast
  with EQ tm erased_fields[OF s1(4)] show ?thesis by auto
qed

lemma erase_core_B:
  assumes T: "tree_rep s (plug (Bin (Bin ll la lc lv lr) z c v Tip) fs)"
    and e: "erase_tree (Bin ll la lc lv lr) z c v Tip fs = Some t'"
    and z: "z \<notin> set (addrs t')"
  shows "\<exists>s'. erase_core z s = Some s' \<and> tree_rep s' t' \<and> erased z s s'"
proof -
  let ?l = "Bin ll la lc lv lr"
  from node_at[OF T] have N: "heap s z = Some \<lparr>data = v, color = c, left = la,
      right = terminal' s, parent = ptop (terminal' s) fs\<rparr>" by simp
  from T have la: "la \<noteq> terminal' s" by (auto simp: unf)
  from transplant_left[OF T] obtain s1 where
    s1: "transplant z la s = Some s1" "tree_rep s1 (plug ?l fs)"
      "xnode s1 ?l (ptop (terminal' s) fs)" "fields_eq s s1" "heap s1 z = heap s z"
    by auto
  from s1(4) have tm: "terminal' s1 = terminal' s" by (simp add: fields_eq_def)
  have EQ: "erase_core z s = erase_end z la c s1"
    by (simp add: erase_core_def erase_end_def acc N s1(1) la)
  from e have e': "(if c = BLACK then efu ?l fs else Some (plug ?l fs)) = Some t'"
    by (simp add: erase_tree_def)
  from focus_neq_terminal[OF T] tm have zT: "z \<noteq> terminal' s1" by simp
  from s1(3) tm have X: "xnode s1 ?l (ptop (terminal' s1) fs)" by simp
  from s1(5) N have "heap s1 z \<noteq> None" by simp
  from erase_end_refines[OF s1(2) X e' z zT this] obtain s' where
    "erase_end z (rootp (terminal' s1) ?l) c s1 = Some s'" "tree_rep s' t'" "erased z s1 s'"
    by blast
  with EQ tm erased_fields[OF s1(4)] show ?thesis by auto
qed

lemma ptop_append: "ks \<noteq> [] \<Longrightarrow> ptop T (ks @ fs) = ptop T ks"
  by (cases ks) auto

lemma focus_fresh:
  "distinct (addrs (plug (Bin l a c v r) gs)) \<Longrightarrow> a \<notin> set (addrs (plug r gs))"
  by (auto simp: addrs_plug)

lemma erase_core_near:
  assumes T: "tree_rep s (plug (Bin (Bin ll la lc lv lr) z c v (Bin Tip y cy yv yr)) fs)"
    and e: "(if cy = BLACK then efu yr (RF (Bin ll la lc lv lr) y c yv # fs)
             else Some (plug yr (RF (Bin ll la lc lv lr) y c yv # fs))) = Some t'"
    and z: "z \<notin> set (addrs t')"
  shows "\<exists>s'. erase_core z s = Some s' \<and> tree_rep s' t' \<and> erased z s s'"
proof -
  let ?l = "Bin ll la lc lv lr"
  from node_at[OF T] have N: "heap s z = Some \<lparr>data = v, color = c, left = la,
      right = y, parent = ptop (terminal' s) fs\<rparr>" by simp
  from T have T2: "tree_rep s (plug (Bin Tip y cy yv yr) (RF ?l z c v # fs))" by simp
  from node_at[OF T2] have Ny: "heap s y = Some \<lparr>data = yv, color = cy, left = terminal' s,
      right = rootp (terminal' s) yr, parent = z\<rparr>" by simp
  from T have ne: "la \<noteq> terminal' s" "y \<noteq> terminal' s" by (auto simp: unf)
  have M: "Node_minimum s (terminal' s) y = Some y"
    by (subst Node_minimum.simps) (simp add: acc Ny)
  from splice_near[OF T] obtain s7 where
    s7: "(set_parent (rootp (terminal' s) yr) y s \<bind> relink z y) = Some s7"
      "tree_rep s7 (plug (Bin ?l y c yv yr) fs)" "xnode s7 yr y" "fields_eq s s7"
      "heap s7 z \<noteq> None" by blast
  from s7(4) have tm: "terminal' s7 = terminal' s" by (simp add: fields_eq_def)
  have "erase_core z s = (set_parent (rootp (terminal' s) yr) y s \<bind> relink z y)
      \<bind> erase_end z (rootp (terminal' s) yr) cy"
    by (simp add: erase_core_def erase_end_def[abs_def] relink_def acc N Ny M ne)
  with s7(1) have EQ: "erase_core z s = erase_end z (rootp (terminal' s) yr) cy s7" by simp
  from s7(2) have T7: "tree_rep s7 (plug yr (RF ?l y c yv # fs))" by simp
  from s7(3) have X: "xnode s7 yr (ptop (terminal' s7) (RF ?l y c yv # fs))" by simp
  from focus_neq_terminal[OF T] tm have zT: "z \<noteq> terminal' s7" by simp
  from erase_end_refines[OF T7 X e z zT s7(5)] obtain s' where
    "erase_end z (rootp (terminal' s7) yr) cy s7 = Some s'" "tree_rep s' t'" "erased z s7 s'"
    by blast
  with EQ tm erased_fields[OF s7(4)] show ?thesis by auto
qed

lemma croot_indep: "ks \<noteq> [] \<Longrightarrow> croot p ks = croot q ks"
  by (cases ks) auto

lemma ptop_in_plug: "ks \<noteq> [] \<Longrightarrow> ptop T ks \<in> set (addrs (plug t ks))"
proof (cases ks)
  case Nil
  assume "ks \<noteq> []"
  with Nil show ?thesis by simp
next
  case (Cons k ks')
  then show ?thesis by (cases k) (simp_all add: addrs_plug)
qed

lemma addrs_leftmost:
  "cbefore ks = [] \<Longrightarrow> addrs (plug (Bin Tip y cy yv yr) ks) = y # addrs yr @ map fst (cafter ks)"
  by (simp add: addrs_plug)

lemma erase_core_far:
  assumes T: "tree_rep s (plug (Bin (Bin ll la lc lv lr) z c v
                 (plug (Bin Tip y cy yv yr) ks)) fs)"
    and e: "(if cy = BLACK
             then efu yr (ks @ RF (Bin ll la lc lv lr) y c yv # fs)
             else Some (plug yr (ks @ RF (Bin ll la lc lv lr) y c yv # fs)))
            = Some t'"
    and z: "z \<notin> set (addrs t')" and kb: "cbefore ks = []" and kn: "ks \<noteq> []"
  shows "\<exists>s'. erase_core z s = Some s' \<and> tree_rep s' t' \<and> erased z s s'"
proof -
  let ?l = "Bin ll la lc lv lr"
  let ?r = "plug (Bin Tip y cy yv yr) ks"
  obtain rl ra rc rv rr where R: "plug yr ks = Bin rl ra rc rv rr"
    using plug_Tip_Tip[of yr ks] kn by (cases "plug yr ks") auto
  have "rootp (terminal' s) ?r = rootp (terminal' s) (plug yr ks)"
    using croot_indep[OF kn] by (simp add: rootp_plug)
  then have rootr: "rootp (terminal' s) ?r = ra" by (simp add: R)
  from node_at[OF T] have N: "heap s z = Some \<lparr>data = v, color = c, left = la,
      right = ra, parent = ptop (terminal' s) fs\<rparr>" by (simp add: rootr)
  from T have T2: "tree_rep s (plug (Bin Tip y cy yv yr) (ks @ RF ?l z c v # fs))"
    by (simp add: plug_append)
  from node_at[OF T2] have Ny: "heap s y = Some \<lparr>data = yv, color = cy, left = terminal' s,
      right = rootp (terminal' s) yr, parent = ptop (terminal' s) ks\<rparr>"
    by (simp add: ptop_append kn)
  from T have d: "la \<noteq> terminal' s" "z \<notin> set (addrs ?r)" "terminal' s \<notin> set (addrs ?r)"
    by (auto simp: unf)
  from d(3) kb have yT: "y \<noteq> terminal' s" by (auto simp: addrs_leftmost)
  from ptop_in_plug[OF kn, of "terminal' s" "Bin Tip y cy yv yr"] d(2)
  have kz: "ptop (terminal' s) ks \<noteq> z" by auto
  from d(3) rootp_in[of ?r "terminal' s"] plug_Tip_Tip[of "Bin Tip y cy yv yr" ks] rootr
  have raT: "ra \<noteq> terminal' s" by auto
  have M: "Node_minimum s (terminal' s) ra = Some y"
  proof -
    from T have "rep (heap s) (terminal' s) z ?r" by (simp add: unf)
    moreover have "?r \<noteq> Tip" using plug_Tip_Tip[of "Bin Tip y cy yv yr" ks] by auto
    ultimately have "Node_minimum s (terminal' s) (rootp (terminal' s) ?r)
        = Some (first (terminal' s) (addrs ?r))" using d(3) by (rule Node_minimum_first)
    then show ?thesis by (simp add: rootr addrs_leftmost[OF kb])
  qed
  from transplant_right[OF T2] obtain s1 where
    s1: "transplant y (rootp (terminal' s) yr) s = Some s1"
      "tree_rep s1 (plug yr (ks @ RF ?l z c v # fs))"
      "xnode s1 yr (ptop (terminal' s) (ks @ RF ?l z c v # fs))" "fields_eq s s1"
      "heap s1 y = heap s y" by blast
  from s1(4) have tm1: "terminal' s1 = terminal' s" by (simp add: fields_eq_def)
  from s1(2) have T3: "tree_rep s1 (plug (Bin ?l z c v (Bin rl ra rc rv rr)) fs)"
    by (simp add: plug_append R)
  from s1(5) Ny have Ny1: "heap s1 y = Some \<lparr>data = yv, color = cy, left = terminal' s,
      right = rootp (terminal' s) yr, parent = ptop (terminal' s) ks\<rparr>" by simp
  from T2 have "distinct (addrs (plug (Bin Tip y cy yv yr) (ks @ RF ?l z c v # fs)))"
    by (simp add: tree_rep_def)
  then have "y \<notin> set (addrs (plug yr (ks @ RF ?l z c v # fs)))" by (rule focus_fresh)
  then have fresh: "y \<notin> set (addrs (plug (Bin ?l z c v (Bin rl ra rc rv rr)) fs))"
    by (simp add: plug_append R)
  from yT tm1 have yT1: "y \<noteq> terminal' s1" by simp
  from splice_far[OF T3 Ny1 fresh yT1] obtain s7 where
    s7: "(do { zr \<leftarrow> get_right s1 z; s \<leftarrow> set_right y zr s1; yr \<leftarrow> get_right s y;
               s \<leftarrow> set_parent yr y s; relink z y s }) = Some s7"
      "tree_rep s7 (plug (Bin ?l y c yv (Bin rl ra rc rv rr)) fs)" "fields_eq s1 s7"
      "heap s7 (terminal' s1) = heap s1 (terminal' s1)" "heap s7 z \<noteq> None" by blast
  from s7(3) tm1 have tm: "terminal' s7 = terminal' s" by (simp add: fields_eq_def)
  have "erase_core z s = (transplant y (rootp (terminal' s) yr) s \<bind>
       (\<lambda>s1. do { zr \<leftarrow> get_right s1 z; s \<leftarrow> set_right y zr s1; yr \<leftarrow> get_right s y;
               s \<leftarrow> set_parent yr y s; relink z y s }))
      \<bind> erase_end z (rootp (terminal' s) yr) cy"
    by (simp add: erase_core_def erase_end_def[abs_def] relink_def acc N Ny M d(1) yT kz raT)
  with s1(1) s7(1) have EQ: "erase_core z s = erase_end z (rootp (terminal' s) yr) cy s7"
    by simp
  from s7(2) have T7: "tree_rep s7 (plug yr (ks @ RF ?l y c yv # fs))"
    by (simp add: plug_append R)
  from s1(3) s7(4) tm tm1 kn
  have X: "xnode s7 yr (ptop (terminal' s7) (ks @ RF ?l y c yv # fs))"
    by (simp add: xnode_def ptop_append)
  from focus_neq_terminal[OF T] tm have zT: "z \<noteq> terminal' s7" by simp
  from erase_end_refines[OF T7 X e z zT s7(5)] obtain s' where
    "erase_end z (rootp (terminal' s7) yr) cy s7 = Some s'" "tree_rep s' t'" "erased z s7 s'"
    by blast
  with EQ tm erased_fields[OF fields_eq_trans[OF s1(4) s7(3)]] show ?thesis by auto
qed

theorem erase_core_refines:
  assumes T: "tree_rep s (plug (Bin l z c v r) fs)"
    and e: "erase_tree l z c v r fs = Some t'" and z: "z \<notin> set (addrs t')"
  shows "\<exists>s'. erase_core z s = Some s' \<and> tree_rep s' t' \<and> erased z s s'"
proof (cases l)
  case Tip
  with erase_core_A[of s z c v r fs t'] assms show ?thesis by simp
next
  case L: (Bin ll la lc lv lr)
  show ?thesis
  proof (cases r)
    case Tip
    with erase_core_B[of s ll la lc lv lr z c v fs t'] L assms show ?thesis by simp
  next
    case R: (Bin rl ra rc rv rr)
    obtain y cy yv yr ks where sm: "split_min rl ra rc rv rr [] = (y, cy, yv, yr, ks)"
      by (cases "split_min rl ra rc rv rr []") auto
    from split_min_plug[OF sm] R have ks: "cbefore ks = []"
      "r = plug (Bin Tip y cy yv yr) ks" by auto
    from e L R sm have e': "(if cy = BLACK then efu yr (ks @ RF l y c yv # fs)
             else Some (plug yr (ks @ RF l y c yv # fs))) = Some t'"
      by (cases cy) (simp_all add: erase_tree_def)
    show ?thesis
    proof (cases ks)
      case Nil
      from T L ks(2) Nil have T': "tree_rep s (plug (Bin (Bin ll la lc lv lr) z c v
                 (Bin Tip y cy yv yr)) fs)" by simp
      from e' have e'': "(if cy = BLACK
             then efu yr (RF (Bin ll la lc lv lr) y c yv # fs)
             else Some (plug yr (RF (Bin ll la lc lv lr) y c yv # fs))) = Some t'"
        unfolding L Nil append_Nil .
      from erase_core_near[OF T' e'' z] show ?thesis .
    next
      case (Cons k ks')
      then have kn: "ks \<noteq> []" by simp
      from T L ks(2) have T': "tree_rep s (plug (Bin (Bin ll la lc lv lr) z c v
                 (plug (Bin Tip y cy yv yr) ks)) fs)" by simp
      from e' have e'': "(if cy = BLACK
             then efu yr (ks @ RF (Bin ll la lc lv lr) y c yv # fs)
             else Some (plug yr (ks @ RF (Bin ll la lc lv lr) y c yv # fs)))
            = Some t'" unfolding L .
      from erase_core_far[OF T' e'' z ks(1) kn] show ?thesis .
    qed
  qed
qed


section \<open>Erasure keeps the invariants\<close>

lemma first_split:
  "distinct (A @ z # B) \<Longrightarrow>
   (if first T (A @ z # B) = z then first T B else first T (A @ z # B)) = first T (A @ B)"
  by (cases A) auto

lemma final_split:
  "distinct (A @ z # B) \<Longrightarrow>
   (if final T (A @ z # B) = z then final T A else final T (A @ z # B)) = final T (A @ B)"
  by (cases B rule: rev_cases) (auto simp: final_append)

theorem Set_erase_it_node:
  assumes inv: "set_inv s t" and zv: "(z, v) \<in> set (nodes t)"
  shows "\<exists>s' t'. Set_erase_it z s = Some s' \<and> set_inv s' t'
     \<and> (\<exists>xs ys. nodes t = xs @ (z, v) # ys \<and> nodes t' = xs @ ys)
     \<and> terminal' s' = terminal' s \<and> size' s' = size' s - 1 \<and> next_free s' = next_free s"
proof -
  from focus[OF zv] obtain l c r fs where t: "t = plug (Bin l z c v r) fs" by blast
  define xs where "xs = cbefore fs @ nodes l"
  define ys where "ys = nodes r @ cafter fs"
  define A where "A = map fst xs"
  define B where "B = map fst ys"
  have nt: "nodes t = xs @ (z, v) # ys" by (simp add: t nodes_plug xs_def ys_def)
  have at: "addrs t = A @ z # B"
    using arg_cong[OF nt, of "map fst"] by (simp add: A_def B_def)
  from inv have T: "tree_rep s t" and dom: "dom (heap s) = insert (terminal' s) (set (addrs t))"
    and nf: "\<forall>a \<in> dom (heap s). a < next_free s"
    and hd: "head' s = first (terminal' s) (addrs t)"
    and tl: "tail' s = final (terminal' s) (addrs t)"
    and sz: "size' s = length (addrs t)"
    and b: "bst t" and rb: "col t = BLACK" "no_red_red t" "balanced t"
    by (simp_all add: set_inv_def)
  from T have dis: "distinct (A @ z # B)" and Tn: "terminal' s \<notin> set (A @ z # B)"
    by (simp_all add: tree_rep_def at)
  from rb t erase_tree_rb[of l z c v r fs] obtain t' where
    t': "erase_tree l z c v r fs = Some t'" "no_red_red t'" "balanced t'" "col t' = BLACK"
      "nodes t' = xs @ ys" by (auto simp: xs_def ys_def)
  have at': "addrs t' = A @ B"
    using arg_cong[OF t'(5), of "map fst"] by (simp add: A_def B_def)
  from dis have zn: "z \<notin> set (addrs t')" by (simp add: at')
  from Tn have zT: "z \<noteq> terminal' s" by auto
  define h where "h = (if head' s = z then first (terminal' s) B else head' s)"
  define sh where "sh = (if head' s = z then s\<lparr>head' := first (terminal' s) B\<rparr> else s)"
  define g where "g = (if tail' s = z then final (terminal' s) A else tail' s)"
  define st where "st = (if tail' s = z then sh\<lparr>tail' := final (terminal' s) A\<rparr> else sh)"
  have Tsh: "tree_rep sh t" using T by (simp add: sh_def)
  have Tst: "tree_rep st t" using Tsh by (simp add: st_def)
  have fsh: "terminal' sh = terminal' s" "tail' sh = tail' s" by (simp_all add: sh_def)
  have fst: "terminal' st = terminal' s" "head' st = h" "tail' st = g" "size' st = size' s"
    "next_free st = next_free s" "heap st = heap s"
    by (simp_all add: st_def sh_def h_def g_def)
  from Node_next_list[OF T at] have nx: "Node_next s (terminal' s) z = Some (first (terminal' s) B)" .
  from Node_prev_list[OF Tsh at] fsh have pv:
    "Node_prev sh (terminal' s) z = Some (final (terminal' s) A)" by simp
  have E: "Set_erase_it z s = erase_core z st"
    using zT nx pv fsh
    by (cases "head' s = z"; cases "tail' s = z";
        simp add: Set_erase_it_unfold Set_end_def st_def sh_def)
  from Tst t have "tree_rep st (plug (Bin l z c v r) fs)" by simp
  from erase_core_refines[OF this t'(1) zn] obtain s' where
    s': "erase_core z st = Some s'" "tree_rep s' t'" "erased z st s'" by blast
  from s'(3) fst have f': "terminal' s' = terminal' s" "head' s' = h" "tail' s' = g"
    "size' s' = size' s - 1" "next_free s' = next_free s" "dom (heap s') = dom (heap s) - {z}"
    by (simp_all add: erased_def)
  have 1: "dom (heap s') = insert (terminal' s') (set (addrs t'))"
    using dis Tn by (auto simp: f' dom at at')
  have 2: "\<forall>a \<in> dom (heap s'). a < next_free s'" using nf by (simp add: f')
  have "h = first (terminal' s) (A @ B)" unfolding h_def hd at by (rule first_split[OF dis])
  then have 3: "head' s' = first (terminal' s') (addrs t')" by (simp only: f' at')
  have "g = final (terminal' s) (A @ B)" unfolding g_def tl at by (rule final_split[OF dis])
  then have 4: "tail' s' = final (terminal' s') (addrs t')" by (simp only: f' at')
  have 5: "size' s' = length (addrs t')" by (simp add: f' sz at at')
  have "elems t = map snd xs @ v # map snd ys" "elems t' = map snd xs @ map snd ys"
    using arg_cong[OF nt, of "map snd"] arg_cong[OF t'(5), of "map snd"] by simp_all
  with b have 6: "bst t'" by (auto simp: bst_sorted sorted_wrt_append)
  from s'(2) 1 2 3 4 5 6 t'(2,3,4) have "set_inv s' t'" by (simp add: set_inv_def)
  with E s'(1) nt t'(5) f' show ?thesis by auto
qed


section \<open>Operation sequences\<close>

lemma set_inv_new: "set_inv (Set_new d) Tip"
  by (simp add: set_inv_def tree_rep_def Set_new_def sentinel_def)

lemma set_inv_iterate: "set_inv s t \<Longrightarrow> iterate s = Some (elems t)"
  by (simp add: set_inv_def iterate_elems)

lemma set_inv_find:
  assumes "set_inv s t"
  shows "Set_find s v = Some (lookup (terminal' s) t v)"
  using assms find_loop_lookup[of s "terminal' s" t v]
  by (simp add: set_inv_def tree_rep_def Set_find_def)

lemma set_inv_deref:
  assumes "set_inv s t" "(p, v) \<in> set (nodes t)"
  shows "It_deref s p = Some v" "p \<noteq> terminal' s"
proof -
  from assms rep_data[of "heap s" "terminal' s" "terminal' s" t p v]
  show "It_deref s p = Some v"
    by (auto simp: set_inv_def tree_rep_def It_deref_def get_data_def)
  from assms(2) have "p \<in> set (addrs t)" by (rule nodes_addrs)
  with assms(1) show "p \<noteq> terminal' s" by (auto simp: set_inv_def tree_rep_def)
qed

theorem Set_erase_present:
  assumes inv: "set_inv s t" and old: "v \<in> set (elems t)"
  shows "\<exists>s' t'. Set_erase v s = Some s' \<and> set_inv s' t'
    \<and> set (elems t') = set (elems t) - {v} \<and> size' s' = size' s - 1
    \<and> terminal' s' = terminal' s"
proof -
  from inv have b: "bst t" by (simp add: set_inv_def)
  define z where "z = lookup (terminal' s) t v"
  from b old have zv: "(z, v) \<in> set (nodes t)" unfolding z_def by (rule lookup_present)
  from Set_erase_it_node[OF inv zv] obtain s' t' xs ys where
    r: "Set_erase_it z s = Some s'" "set_inv s' t'" "nodes t = xs @ (z, v) # ys"
      "nodes t' = xs @ ys" "terminal' s' = terminal' s" "size' s' = size' s - 1" by blast
  have e: "elems t = map snd xs @ v # map snd ys" "elems t' = map snd xs @ map snd ys"
    using arg_cong[OF r(3), of "map snd"] arg_cong[OF r(4), of "map snd"] by simp_all
  from bst_distinct[OF b] have "distinct (map snd xs @ v # map snd ys)" by (simp only: e)
  then have "set (elems t') = set (elems t) - {v}" unfolding e by auto
  moreover have "Set_erase v s = Some s'"
    using set_inv_find[OF inv, of v] r(1) by (simp add: Set_erase_def z_def)
  ultimately show ?thesis using r by blast
qed

theorem Set_erase_absent:
  assumes inv: "set_inv s t" and new: "v \<notin> set (elems t)"
  shows "Set_erase v s = Some s"
  using set_inv_find[OF inv, of v] lookup_absent[OF new, of "terminal' s"]
  by (simp add: Set_erase_def Set_erase_it_def Set_end_def)

text \<open>The values inserted and not erased afterwards.\<close>

fun model_set :: "'a operation list \<Rightarrow> 'a set \<Rightarrow> 'a set" where
  "model_set [] S = S"
| "model_set (Insert v # cs) S = model_set cs (insert v S)"
| "model_set (Erase v # cs) S = model_set cs (S - {v})"

lemma apply_op_inv:
  assumes inv: "set_inv s t"
  shows "\<exists>s' t'. apply_op c s = Some s' \<and> set_inv s' t'
    \<and> set (elems t') = model_set [c] (set (elems t)) \<and> terminal' s' = terminal' s"
proof (cases c)
  case (Insert v)
  show ?thesis
  proof (cases "v \<in> set (elems t)")
    case True
    with Set_insert_dup[OF inv True] inv Insert show ?thesis by auto
  next
    case False
    with Set_insert_new[OF inv False] Insert show ?thesis by auto
  qed
next
  case (Erase v)
  show ?thesis
  proof (cases "v \<in> set (elems t)")
    case True
    with Set_erase_present[OF inv True] Erase show ?thesis by auto
  next
    case False
    with Set_erase_absent[OF inv False] inv Erase show ?thesis by auto
  qed
qed

theorem run_inv:
  assumes "set_inv s t"
  shows "\<exists>s' t'. run ops s = Some s' \<and> set_inv s' t'
    \<and> set (elems t') = model_set ops (set (elems t)) \<and> terminal' s' = terminal' s"
  using assms
proof (induction ops arbitrary: s t)
  case Nil
  then show ?case by auto
next
  case (Cons c cs)
  from apply_op_inv[OF Cons.prems, of c] obtain s1 t1 where
    1: "apply_op c s = Some s1" "set_inv s1 t1"
      "set (elems t1) = model_set [c] (set (elems t))" "terminal' s1 = terminal' s" by blast
  from Cons.IH[OF 1(2)] obtain s' t' where
    2: "run cs s1 = Some s'" "set_inv s' t'"
      "set (elems t') = model_set cs (set (elems t1))" "terminal' s' = terminal' s1" by blast
  have "model_set cs (model_set [c] S) = model_set (c # cs) S" for S
    by (cases c) simp_all
  with 1 2 show ?case by auto
qed

corollary run_new:
  "\<exists>s t. run ops (Set_new d) = Some s \<and> set_inv s t \<and> set (elems t) = model_set ops {}"
  using run_inv[OF set_inv_new, of ops d] by auto


section \<open>Facts about a set that satisfies the invariants\<close>

lemma cursors_from_addrs:
  assumes "tree_rep s t" "addrs t = xs @ ys"
  shows "cursors_from s (first (terminal' s) ys) = Some ys"
  using assms
proof (induction ys arbitrary: xs)
  case Nil
  show ?case by (subst cursors_from.simps) (simp add: It_eq_def Set_end_def)
next
  case (Cons a ys)
  from Cons.prems have "a \<in> set (addrs t)" by simp
  with Cons.prems(1) have aT: "a \<noteq> terminal' s" by (auto simp: tree_rep_def)
  from Cons.prems have n: "It_incr s a = Some (first (terminal' s) ys)"
    unfolding It_incr_def by (intro Node_next_list) auto
  from Cons.prems have "cursors_from s (first (terminal' s) ys) = Some ys"
    by (intro Cons.IH[of "xs @ [a]"]) auto
  with n aT show ?case
    by (subst cursors_from.simps) (simp add: It_eq_def Set_end_def)
qed

lemma set_inv_cursors: "set_inv s t \<Longrightarrow> cursors s = Some (addrs t)"
  using cursors_from_addrs[of s t "[]" "addrs t"]
  by (simp add: set_inv_def cursors_def Set_begin_def)

lemma set_inv_lower_bound:
  assumes "set_inv s t"
  shows "Set_lower_bound s v = Some (lb (terminal' s) t v (terminal' s))"
  using assms lower_bound_loop_lb[of s "terminal' s" t "terminal' s" v]
  by (simp add: set_inv_def tree_rep_def Set_lower_bound_def)

lemma set_inv_sorted: "set_inv s t \<Longrightarrow> sorted_wrt (<) (elems t)"
  by (simp add: set_inv_def bst_sorted)

lemma set_inv_size: "set_inv s t \<Longrightarrow> Set_size s = length (elems t)"
  by (simp add: set_inv_def Set_size_def)

lemma strict_sorted_list_of_set:
  "sorted_wrt (<) xs \<Longrightarrow> sorted_list_of_set (set xs) = xs"
  by (simp add: strict_sorted_iff sorted_list_of_set.idem_if_sorted_distinct)

lemma strict_sorted_Max: "xs \<noteq> [] \<Longrightarrow> sorted_wrt (<) xs \<Longrightarrow> Max (set xs) = last xs"
proof (induction xs rule: list_nonempty_induct)
  case (single x)
  show ?case by simp
next
  case (cons x xs)
  then have "Max (set xs) = last xs" by simp
  moreover from cons have "x < last xs" by simp
  ultimately show ?case using cons(1) by (auto simp: max_def)
qed

lemma strict_sorted_Min: "sorted_wrt (<) xs \<Longrightarrow> xs \<noteq> [] \<Longrightarrow> Min (set xs) = hd xs"
  by (cases xs) (auto simp: strict_sorted_iff intro!: Min_eqI)

lemma last_node: "t \<noteq> Tip \<Longrightarrow> (last (addrs t), last (elems t)) \<in> set (nodes t)"
proof -
  assume "t \<noteq> Tip"
  then have n: "nodes t \<noteq> []" by (cases t) auto
  then have "last (nodes t) \<in> set (nodes t)" by simp
  moreover from last_map[OF n, of fst] last_map[OF n, of snd]
  have "last (addrs t) = fst (last (nodes t))" "last (elems t) = snd (last (nodes t))"
    by simp_all
  ultimately show ?thesis by simp
qed

lemma hd_node: "t \<noteq> Tip \<Longrightarrow> (hd (addrs t), hd (elems t)) \<in> set (nodes t)"
proof -
  assume "t \<noteq> Tip"
  then have n: "nodes t \<noteq> []" by (cases t) auto
  then have "hd (nodes t) \<in> set (nodes t)" by simp
  moreover from hd_map[OF n, of fst] hd_map[OF n, of snd]
  have "hd (addrs t) = fst (hd (nodes t))" "hd (elems t) = snd (hd (nodes t))"
    by simp_all
  ultimately show ?thesis by simp
qed

lemma first_hd: "xs \<noteq> [] \<Longrightarrow> first T xs = hd xs"
  by (cases xs) auto

lemma final_last: "xs \<noteq> [] \<Longrightarrow> final T xs = last xs"
  by (cases xs) auto

lemma set_inv_head:
  assumes "set_inv s t" "t \<noteq> Tip"
  shows "head' s \<noteq> terminal' s" "It_deref s (head' s) = Some (Min (set (elems t)))"
proof -
  from assms have h: "head' s = hd (addrs t)" by (simp add: set_inv_def first_hd)
  from assms(2) have e: "elems t \<noteq> []" by (cases t) auto
  from set_inv_deref[OF assms(1) hd_node[OF assms(2)]] h
    strict_sorted_Min[OF set_inv_sorted[OF assms(1)] e]
  show "head' s \<noteq> terminal' s" "It_deref s (head' s) = Some (Min (set (elems t)))"
    by simp_all
qed

lemma set_inv_tail:
  assumes "set_inv s t" "t \<noteq> Tip"
  shows "tail' s \<noteq> terminal' s" "It_deref s (tail' s) = Some (Max (set (elems t)))"
proof -
  from assms have h: "tail' s = last (addrs t)" by (simp add: set_inv_def final_last)
  from assms(2) have e: "elems t \<noteq> []" by (cases t) auto
  from set_inv_deref[OF assms(1) last_node[OF assms(2)]] h
    strict_sorted_Max[OF e set_inv_sorted[OF assms(1)]]
  show "tail' s \<noteq> terminal' s" "It_deref s (tail' s) = Some (Max (set (elems t)))"
    by simp_all
qed

lemma set_inv_round_trip:
  assumes "set_inv s t" "a \<in> set (addrs t)"
  shows "\<exists>q. It_incr s a = Some q \<and> It_decr s q = Some a"
proof -
  from assms(2) obtain xs ys where sp: "addrs t = xs @ a # ys" by (auto simp: in_set_conv_decomp)
  from assms(1) have T: "tree_rep s t" and tl: "tail' s = final (terminal' s) (addrs t)"
    by (simp_all add: set_inv_def)
  from Node_next_list[OF T sp] have n: "It_incr s a = Some (first (terminal' s) ys)"
    by (simp add: It_incr_def)
  have "It_decr s (first (terminal' s) ys) = Some a"
  proof (cases ys)
    case Nil
    with tl sp show ?thesis by (simp add: It_decr_def)
  next
    case (Cons b ys')
    with sp have sp': "addrs t = (xs @ [a]) @ b # ys'" by simp
    from sp' T have "b \<noteq> terminal' s" by (auto simp: tree_rep_def)
    with Node_prev_list[OF T sp'] Cons show ?thesis by (simp add: It_decr_def)
  qed
  with n show ?thesis by simp
qed

subsection \<open>Every set built by the operations satisfies the invariants\<close>

lemma finite_model_set: "finite S \<Longrightarrow> finite (model_set ops S)"
  by (induction ops S rule: model_set.induct) auto

lemma run_built:
  "\<exists>s t. run ops (Set_new d) = Some s \<and> set_inv s t
     \<and> elems t = sorted_list_of_set (model_set ops {})"
proof -
  from run_new[of ops d] obtain s t where
    r: "run ops (Set_new d) = Some s" "set_inv s t" "set (elems t) = model_set ops {}" by blast
  from strict_sorted_list_of_set[OF set_inv_sorted[OF r(2)]] r(3)
  have "elems t = sorted_list_of_set (model_set ops {})" by simp
  with r show ?thesis by blast
qed

lemma run_ok: "\<exists>s. run ops (Set_new d) = Some s \<and> set_ok s"
  using run_new[of ops d] by (auto simp: set_ok_def)


section \<open>The claims\<close>

subsection \<open>Invariants\<close>

text \<open>The number of black nodes on every path from the root of a tree down to a sentinel
  leaf, and the subtrees of a tree: one for every node, and one for every leaf.\<close>

fun black_counts :: "'a tree \<Rightarrow> nat list" where
  "black_counts Tip = [0]"
| "black_counts (Bin l a c v r) =
     map (\<lambda>n. if c = BLACK then Suc n else n) (black_counts l @ black_counts r)"

fun subtrees :: "'a tree \<Rightarrow> 'a tree list" where
  "subtrees Tip = [Tip]"
| "subtrees (Bin l a c v r) = Bin l a c v r # subtrees l @ subtrees r"

lemma balanced_black_counts: "balanced t \<Longrightarrow> set (black_counts t) = {bh t}"
  by (induction t) auto

lemma balanced_subtrees: "balanced t \<Longrightarrow> u \<in> set (subtrees t) \<Longrightarrow> balanced u"
  by (induction t) auto

lemma root_color:
  assumes "tree_rep s t"
  shows "get_color s (root' s) = Some (col t)" "get_color s (terminal' s) = Some BLACK"
proof -
  from assms have "sentinel s" by (simp add: tree_rep_def)
  then obtain n where n: "heap s (terminal' s) = Some n" "color n = BLACK"
    by (auto simp: sentinel_def)
  then show "get_color s (terminal' s) = Some BLACK" by (simp add: get_color_def)
  from assms n show "get_color s (root' s) = Some (col t)"
    by (cases t) (auto simp: tree_rep_def get_color_def)
qed

text \<open>
  C1. For every finite sequence of insert and erase operations applied to an initially empty
  set, the operations all return, and the store then holds a tree \<open>t\<close> (\<open>tree_rep\<close>) of
  exactly the values inserted and not erased afterwards, with the five invariants: \<open>t\<close> is a
  binary search tree; the root and the sentinel are black; no red node has a red child; from
  every node all paths down to a sentinel leaf carry the same number of black nodes; and
  \<^verbatim>\<open>head_\<close> and \<^verbatim>\<open>tail_\<close> are the sentinel when the tree is empty, and otherwise nodes other
  than the sentinel that hold the minimum and the maximum. Every prefix of a sequence is a
  sequence, so this holds after each operation.
\<close>

theorem invariants_preserved:
  "\<exists>s t. run ops (Set_new d) = Some s \<and> tree_rep s t \<and> set (elems t) = model_set ops {}
     \<and> bst t
     \<and> get_color s (root' s) = Some BLACK \<and> get_color s (terminal' s) = Some BLACK
     \<and> no_red_red t
     \<and> (\<forall>u \<in> set (subtrees t). set (black_counts u) = {bh u})
     \<and> (if t = Tip then head' s = terminal' s \<and> tail' s = terminal' s
         else head' s \<noteq> terminal' s \<and> get_data s (head' s) = Some (Min (set (elems t)))
            \<and> tail' s \<noteq> terminal' s \<and> get_data s (tail' s) = Some (Max (set (elems t))))"
proof -
  from run_new[of ops d] obtain s t where
    r: "run ops (Set_new d) = Some s" "set_inv s t" "set (elems t) = model_set ops {}" by blast
  from r(2) have i: "tree_rep s t" "bst t" "col t = BLACK" "no_red_red t" "balanced t"
    "head' s = first (terminal' s) (addrs t)" "tail' s = final (terminal' s) (addrs t)"
    by (simp_all add: set_inv_def)
  from root_color[OF i(1)] i(3) have c: "get_color s (root' s) = Some BLACK"
    "get_color s (terminal' s) = Some BLACK" by simp_all
  have b: "\<forall>u \<in> set (subtrees t). set (black_counts u) = {bh u}"
    using balanced_subtrees[OF i(5)] by (intro ballI balanced_black_counts)
  have h: "if t = Tip then head' s = terminal' s \<and> tail' s = terminal' s
         else head' s \<noteq> terminal' s \<and> get_data s (head' s) = Some (Min (set (elems t)))
            \<and> tail' s \<noteq> terminal' s \<and> get_data s (tail' s) = Some (Max (set (elems t)))"
  proof (cases "t = Tip")
    case True
    with i(6,7) show ?thesis by simp
  next
    case False
    with set_inv_head[OF r(2)] set_inv_tail[OF r(2)] show ?thesis
      by (simp add: It_deref_def)
  qed
  from r(1,3) i(1,2,4) c b h show ?thesis by blast
qed

theorem invariants_preserved_witness:
  "\<exists>s t. run [Insert 5, Insert 3, Insert 8, Insert 1, Insert 4, Erase 5] (Set_new (0::int)) = Some s
     \<and> tree_rep s t \<and> set (elems t) = {1, 3, 4, 8}
     \<and> bst t
     \<and> get_color s (root' s) = Some BLACK \<and> get_color s (terminal' s) = Some BLACK
     \<and> no_red_red t
     \<and> (\<forall>u \<in> set (subtrees t). set (black_counts u) = {bh u})
     \<and> head' s \<noteq> terminal' s \<and> get_data s (head' s) = Some 1
     \<and> tail' s \<noteq> terminal' s \<and> get_data s (tail' s) = Some 8"
proof -
  let ?ops = "[Insert 5, Insert 3, Insert 8, Insert 1, Insert 4, Erase (5::int)]"
  have m: "model_set ?ops {} = {1, 3, 4, 8}" by code_simp
  from invariants_preserved[of ?ops 0] obtain s t where
    r: "run ?ops (Set_new 0) = Some s" "tree_rep s t" "set (elems t) = model_set ?ops {}"
      "bst t" "get_color s (root' s) = Some BLACK" "get_color s (terminal' s) = Some BLACK"
      "no_red_red t" "\<forall>u \<in> set (subtrees t). set (black_counts u) = {bh u}"
      "if t = Tip then head' s = terminal' s \<and> tail' s = terminal' s
         else head' s \<noteq> terminal' s \<and> get_data s (head' s) = Some (Min (set (elems t)))
            \<and> tail' s \<noteq> terminal' s \<and> get_data s (tail' s) = Some (Max (set (elems t)))"
    by blast
  from r(3) m have e: "set (elems t) = {1, 3, 4, 8}" by simp
  then have "t \<noteq> Tip" by auto
  with r(9) e have "head' s \<noteq> terminal' s" "get_data s (head' s) = Some 1"
    "tail' s \<noteq> terminal' s" "get_data s (tail' s) = Some 8" by simp_all
  with r e show ?thesis by blast
qed

subsection \<open>Iteration\<close>

text \<open>
  C2. For every finite sequence of insert and erase operations applied to an initially empty
  set, the operations all return, the iteration from \<^verbatim>\<open>begin()\<close> to \<^verbatim>\<open>end()\<close> returns, and the
  sequence it yields is strictly increasing and is the sorted sequence, without duplicates,
  of the values inserted and not erased afterwards.
\<close>

theorem iteration_sorted_contents:
  "\<exists>s xs. run ops (Set_new d) = Some s \<and> iterate s = Some xs \<and> sorted_wrt (<) xs
     \<and> xs = sorted_list_of_set (model_set ops {})"
proof -
  from run_built[of ops d] obtain s t where
    r: "run ops (Set_new d) = Some s" "set_inv s t"
      "elems t = sorted_list_of_set (model_set ops {})" by blast
  from set_inv_iterate[OF r(2)] set_inv_sorted[OF r(2)] r(1,3) show ?thesis by auto
qed

theorem iteration_sorted_contents_witness:
  "\<exists>s. run [Insert 5, Insert 3, Insert 8, Insert 3, Insert 1, Erase 5, Erase 7, Insert 4]
          (Set_new (0::int)) = Some s
     \<and> iterate s = Some [1, 3, 4, 8]"
proof -
  let ?ops = "[Insert 5, Insert 3, Insert 8, Insert 3, Insert 1, Erase 5, Erase 7,
    Insert (4::int)]"
  have m: "sorted_list_of_set (model_set ?ops {}) = [1, 3, 4, 8]" by code_simp
  from iteration_sorted_contents[of ?ops 0] show ?thesis unfolding m by blast
qed

subsection \<open>Lookup\<close>

text \<open>
  C3. For every set and every value \<open>v\<close>, \<^verbatim>\<open>lower_bound(v)\<close> returns; when some stored
  element is greater than or equal to \<open>v\<close> its result is a cursor other than \<^verbatim>\<open>end()\<close> on the
  smallest such element, and when every stored element is smaller than \<open>v\<close> it is \<^verbatim>\<open>end()\<close>.
  The sets are the states that satisfy the invariants, which are those the operations
  build (lemma \<open>run_ok\<close>); the stored elements are those the iteration yields.
\<close>

theorem lower_bound_correct:
  assumes "set_ok s"
  shows "\<exists>p xs. Set_lower_bound s v = Some p \<and> iterate s = Some xs
    \<and> (if \<exists>x \<in> set xs. v \<le> x
        then p \<noteq> Set_end s \<and> It_deref s p = Some (Min {x \<in> set xs. v \<le> x})
        else p = Set_end s)"
proof -
  from assms obtain t where t: "set_inv s t" by (auto simp: set_ok_def)
  then have b: "bst t" by (simp add: set_inv_def)
  define p where "p = lb (terminal' s) t v (terminal' s)"
  note lbs = set_inv_lower_bound[OF t, of v, folded p_def]
  from lb_spec[OF b, of "terminal' s" v "terminal' s"]
  consider m where "(p, m) \<in> set (nodes t)" "v \<le> m" "\<forall>x \<in> set (elems t). v \<le> x \<longrightarrow> m \<le> x"
    | "p = terminal' s" "\<forall>x \<in> set (elems t). x < v"
    unfolding p_def by blast
  then show ?thesis
  proof cases
    case 1
    from nodes_elems[OF 1(1)] 1(2) have ex: "\<exists>x \<in> set (elems t). v \<le> x" by blast
    from nodes_elems[OF 1(1)] 1(2,3) have "Min {x \<in> set (elems t). v \<le> x} = m"
      by (intro Min_eqI) auto
    with set_inv_deref[OF t 1(1)] ex lbs set_inv_iterate[OF t] show ?thesis
      by (simp add: Set_end_def)
  next
    case 2
    from 2(2) have "\<not> (\<exists>x \<in> set (elems t). v \<le> x)" by auto
    with 2(1) lbs set_inv_iterate[OF t] show ?thesis by (simp add: Set_end_def)
  qed
qed

theorem lower_bound_correct_witness:
  "\<exists>s. run [Insert 5, Insert 3, Insert 8, Insert 1, Erase 1] (Set_new (0::int)) = Some s
     \<and> set_ok s \<and> iterate s = Some [3, 5, 8]
     \<and> (\<exists>p. Set_lower_bound s 4 = Some p \<and> p \<noteq> Set_end s \<and> It_deref s p = Some 5)
     \<and> (\<exists>p. Set_lower_bound s 8 = Some p \<and> p \<noteq> Set_end s \<and> It_deref s p = Some 8)
     \<and> (\<exists>p. Set_lower_bound s 0 = Some p \<and> p \<noteq> Set_end s \<and> It_deref s p = Some 3)
     \<and> Set_lower_bound s 9 = Some (Set_end s)"
proof -
  let ?ops = "[Insert 5, Insert 3, Insert 8, Insert 1, Erase (1::int)]"
  have m: "sorted_list_of_set (model_set ?ops {}) = [3, 5, 8]" by code_simp
  from run_built[of ?ops 0] obtain s t where
    r: "run ?ops (Set_new 0) = Some s" "set_inv s t" "elems t = [3, 5, 8]"
    unfolding m by blast
  from r(2) have ok: "set_ok s" by (auto simp: set_ok_def)
  from set_inv_iterate[OF r(2)] r(3) have it: "iterate s = Some [3, 5, 8]" by simp
  have e: "Min {x \<in> set [3, 5, 8]. (4::int) \<le> x} = 5" "Min {x \<in> set [3, 5, 8]. (8::int) \<le> x} = 8"
    "Min {x \<in> set [3, 5, 8]. (0::int) \<le> x} = 3" by code_simp+
  from lower_bound_correct[OF ok, of 4] it e(1)
  have 1: "\<exists>p. Set_lower_bound s 4 = Some p \<and> p \<noteq> Set_end s \<and> It_deref s p = Some 5"
    by auto
  from lower_bound_correct[OF ok, of 8] it e(2)
  have 2: "\<exists>p. Set_lower_bound s 8 = Some p \<and> p \<noteq> Set_end s \<and> It_deref s p = Some 8"
    by auto
  from lower_bound_correct[OF ok, of 0] it e(3)
  have 3: "\<exists>p. Set_lower_bound s 0 = Some p \<and> p \<noteq> Set_end s \<and> It_deref s p = Some 3"
    by auto
  from lower_bound_correct[OF ok, of 9] it
  have 4: "Set_lower_bound s 9 = Some (Set_end s)" by auto
  from r(1) ok it 1 2 3 4 show ?thesis by blast
qed

text \<open>
  C4. For every set and every value \<open>v\<close>, \<^verbatim>\<open>find(v)\<close> returns a cursor on the node whose
  payload is \<open>v\<close> when \<open>v\<close> is stored, and the end cursor when it is not. The sets are the
  states that satisfy the invariants, which are those the operations build (lemma \<open>run_ok\<close>);
  the stored elements are those the iteration from \<^verbatim>\<open>begin()\<close> to \<^verbatim>\<open>end()\<close> yields.
\<close>

theorem find_correct:
  assumes "set_ok s"
  shows "\<exists>p xs. Set_find s v = Some p \<and> iterate s = Some xs
    \<and> (if v \<in> set xs then p \<noteq> Set_end s \<and> It_deref s p = Some v else p = Set_end s)"
proof -
  from assms obtain t where t: "set_inv s t" by (auto simp: set_ok_def)
  then have b: "bst t" by (simp add: set_inv_def)
  show ?thesis
  proof (cases "v \<in> set (elems t)")
    case True
    with b have "(lookup (terminal' s) t v, v) \<in> set (nodes t)" by (rule lookup_present)
    with set_inv_deref[OF t this] set_inv_find[OF t] set_inv_iterate[OF t] True
    show ?thesis by (simp add: Set_end_def)
  next
    case False
    then have "lookup (terminal' s) t v = terminal' s" by (rule lookup_absent)
    with set_inv_find[OF t] set_inv_iterate[OF t] False
    show ?thesis by (simp add: Set_end_def)
  qed
qed

theorem find_correct_witness:
  "\<exists>s. run [Insert 5, Insert 3, Insert 8, Insert 1, Erase 1] (Set_new (0::int)) = Some s
     \<and> set_ok s \<and> iterate s = Some [3, 5, 8]
     \<and> (\<exists>p. Set_find s 3 = Some p \<and> p \<noteq> Set_end s \<and> It_deref s p = Some 3)
     \<and> (\<exists>p. Set_find s 5 = Some p \<and> p \<noteq> Set_end s \<and> It_deref s p = Some 5)
     \<and> (\<exists>p. Set_find s 8 = Some p \<and> p \<noteq> Set_end s \<and> It_deref s p = Some 8)
     \<and> Set_find s 4 = Some (Set_end s) \<and> Set_find s 1 = Some (Set_end s)
     \<and> Set_find s 9 = Some (Set_end s)"
proof -
  let ?ops = "[Insert 5, Insert 3, Insert 8, Insert 1, Erase (1::int)]"
  have m: "sorted_list_of_set (model_set ?ops {}) = [3, 5, 8]" by code_simp
  from run_built[of ?ops 0] obtain s t where
    r: "run ?ops (Set_new 0) = Some s" "set_inv s t" "elems t = [3, 5, 8]"
    unfolding m by blast
  from r(2) have ok: "set_ok s" by (auto simp: set_ok_def)
  from set_inv_iterate[OF r(2)] r(3) have it: "iterate s = Some [3, 5, 8]" by simp
  from find_correct[OF ok, of 3] it
  have 1: "\<exists>p. Set_find s 3 = Some p \<and> p \<noteq> Set_end s \<and> It_deref s p = Some 3" by auto
  from find_correct[OF ok, of 5] it
  have 2: "\<exists>p. Set_find s 5 = Some p \<and> p \<noteq> Set_end s \<and> It_deref s p = Some 5" by auto
  from find_correct[OF ok, of 8] it
  have 3: "\<exists>p. Set_find s 8 = Some p \<and> p \<noteq> Set_end s \<and> It_deref s p = Some 8" by auto
  from find_correct[OF ok, of 4] find_correct[OF ok, of 1] find_correct[OF ok, of 9] it
  have 4: "Set_find s 4 = Some (Set_end s)" "Set_find s 1 = Some (Set_end s)"
    "Set_find s 9 = Some (Set_end s)" by auto
  from r(1) ok it 1 2 3 4 show ?thesis by blast
qed

text \<open>
  C5. The claim that \<^verbatim>\<open>find(v)\<close> equals \<^verbatim>\<open>lower_bound(v)\<close> if and only if \<open>v\<close> is present fails
  from right to left: in the set built by inserting 5, 3 and 8 the value 9 is absent, and
  \<^verbatim>\<open>find(9)\<close> and \<^verbatim>\<open>lower_bound(9)\<close> are both the end cursor, hence equal.
\<close>

theorem find_eq_lower_bound_counterexample:
  "\<exists>s p q xs. run [Insert 5, Insert 3, Insert 8] (Set_new (0::int)) = Some s
     \<and> Set_find s 9 = Some p \<and> Set_lower_bound s 9 = Some q \<and> iterate s = Some xs
     \<and> It_eq p q \<and> 9 \<notin> set xs"
proof -
  have "case run [Insert 5, Insert 3, Insert 8] (Set_new (0::int)) of
      None \<Rightarrow> False
    | Some s \<Rightarrow> Set_find s 9 = Some (Set_end s) \<and> Set_lower_bound s 9 = Some (Set_end s)
        \<and> iterate s = Some [3, 5, 8]"
    by code_simp
  then show ?thesis
    by (cases "run [Insert 5, Insert 3, Insert 8] (Set_new (0::int))") (auto simp: It_eq_def)
qed

text \<open>
  C5, amended. For every set and every value \<open>v\<close>: when \<open>v\<close> is present, \<^verbatim>\<open>find(v)\<close> and
  \<^verbatim>\<open>lower_bound(v)\<close> are equal cursors, other than \<^verbatim>\<open>end()\<close>; when \<open>v\<close> is absent, \<^verbatim>\<open>find(v)\<close> is
  \<^verbatim>\<open>end()\<close>, and it equals \<^verbatim>\<open>lower_bound(v)\<close> exactly when every stored element is smaller
  than \<open>v\<close>. So the two are equal if and only if \<open>v\<close> is present or no stored element is
  greater than or equal to \<open>v\<close>.
\<close>

theorem find_lower_bound_agree:
  assumes "set_ok s"
  shows "\<exists>p q xs. Set_find s v = Some p \<and> Set_lower_bound s v = Some q \<and> iterate s = Some xs
    \<and> (if v \<in> set xs then It_eq p q \<and> p \<noteq> Set_end s
        else p = Set_end s \<and> It_eq p q = (\<forall>x \<in> set xs. x < v))"
proof -
  from assms obtain t where t: "set_inv s t" by (auto simp: set_ok_def)
  then have b: "bst t" and T: "terminal' s \<notin> set (addrs t)"
    by (simp_all add: set_inv_def tree_rep_def)
  define p where "p = lookup (terminal' s) t v"
  define q where "q = lb (terminal' s) t v (terminal' s)"
  note f = set_inv_find[OF t, of v, folded p_def]
  note l = set_inv_lower_bound[OF t, of v, folded q_def]
  from lb_spec[OF b, of "terminal' s" v "terminal' s"]
  consider m where "(q, m) \<in> set (nodes t)" "v \<le> m" "\<forall>x \<in> set (elems t). v \<le> x \<longrightarrow> m \<le> x"
    | "q = terminal' s" "\<forall>x \<in> set (elems t). x < v"
    unfolding q_def by blast
  then have "if v \<in> set (elems t) then It_eq p q \<and> p \<noteq> Set_end s
        else p = Set_end s \<and> It_eq p q = (\<forall>x \<in> set (elems t). x < v)"
  proof cases
    case 1
    from nodes_addrs[OF 1(1)] T have qT: "q \<noteq> terminal' s" by auto
    show ?thesis
    proof (cases "v \<in> set (elems t)")
      case True
      with 1(2,3) have "m = v" by auto
      from lookup_present[OF b True, of "terminal' s"]
      have pv: "(p, v) \<in> set (nodes t)" by (simp add: p_def)
      from nodes_same_data[OF bst_distinct[OF b] pv] 1(1) \<open>m = v\<close> have "p = q" by simp
      with qT True show ?thesis by (simp add: It_eq_def Set_end_def)
    next
      case False
      from lookup_absent[OF False, of "terminal' s"] have "p = terminal' s" by (simp add: p_def)
      moreover from nodes_elems[OF 1(1)] 1(2) have "\<not> (\<forall>x \<in> set (elems t). x < v)"
        by (auto simp: not_less intro!: bexI[of _ m])
      ultimately show ?thesis using qT False by (simp add: It_eq_def Set_end_def)
    qed
  next
    case 2
    then have n: "v \<notin> set (elems t)" by auto
    from lookup_absent[OF n, of "terminal' s"] have "p = terminal' s" by (simp add: p_def)
    with 2 n show ?thesis by (simp add: It_eq_def Set_end_def)
  qed
  with f l set_inv_iterate[OF t] show ?thesis by simp
qed

theorem find_lower_bound_agree_witness:
  "\<exists>s. run [Insert 5, Insert 3, Insert 8, Insert 1, Erase 1] (Set_new (0::int)) = Some s
     \<and> set_ok s \<and> iterate s = Some [3, 5, 8]
     \<and> (\<exists>p. Set_find s 5 = Some p \<and> Set_lower_bound s 5 = Some p \<and> p \<noteq> Set_end s)
     \<and> (\<exists>q. Set_find s 4 = Some (Set_end s) \<and> Set_lower_bound s 4 = Some q \<and> q \<noteq> Set_end s)
     \<and> Set_find s 9 = Some (Set_end s) \<and> Set_lower_bound s 9 = Some (Set_end s)"
proof -
  let ?ops = "[Insert 5, Insert 3, Insert 8, Insert 1, Erase (1::int)]"
  have m: "sorted_list_of_set (model_set ?ops {}) = [3, 5, 8]" by code_simp
  from run_built[of ?ops 0] obtain s t where
    r: "run ?ops (Set_new 0) = Some s" "set_inv s t" "elems t = [3, 5, 8]"
    unfolding m by blast
  from r(2) have ok: "set_ok s" by (auto simp: set_ok_def)
  from set_inv_iterate[OF r(2)] r(3) have it: "iterate s = Some [3, 5, 8]" by simp
  from find_lower_bound_agree[OF ok, of 5] it
  have 1: "\<exists>p. Set_find s 5 = Some p \<and> Set_lower_bound s 5 = Some p \<and> p \<noteq> Set_end s"
    by (auto simp: It_eq_def)
  from find_lower_bound_agree[OF ok, of 4] it
  have 2: "\<exists>q. Set_find s 4 = Some (Set_end s) \<and> Set_lower_bound s 4 = Some q \<and> q \<noteq> Set_end s"
    by (auto simp: It_eq_def)
  from find_lower_bound_agree[OF ok, of 9] it
  have 3: "Set_find s 9 = Some (Set_end s)" "Set_lower_bound s 9 = Some (Set_end s)"
    by (auto simp: It_eq_def)
  from r(1) ok it 1 2 3 show ?thesis by blast
qed

subsection \<open>Set semantics\<close>

text \<open>
  C6. The claim that after \<^verbatim>\<open>insert(v); insert(v)\<close> the size is exactly one more than before
  the first insert fails for a value that is already stored: in the set built by inserting
  5, 3 and 8, of size 3, the size after \<^verbatim>\<open>insert(5); insert(5)\<close> is still 3.
\<close>

theorem insert_twice_counterexample:
  "\<exists>s s1 s2. run [Insert 5, Insert 3, Insert 8] (Set_new (0::int)) = Some s
     \<and> Set_insert 5 s = Some s1 \<and> Set_insert 5 s1 = Some s2
     \<and> Set_size s = 3 \<and> Set_size s2 = 3"
proof -
  have "case run [Insert 5, Insert 3, Insert 8] (Set_new (0::int)) of
      None \<Rightarrow> False
    | Some s \<Rightarrow> (case Set_insert 5 s of
          None \<Rightarrow> False
        | Some s1 \<Rightarrow> (case Set_insert 5 s1 of
              None \<Rightarrow> False
            | Some s2 \<Rightarrow> Set_size s = 3 \<and> Set_size s2 = 3))"
    by code_simp
  then show ?thesis by (auto split: option.splits)
qed

text \<open>
  C6, amended. For every set and every value \<open>v\<close>, \<^verbatim>\<open>insert(v)\<close> followed by \<^verbatim>\<open>insert(v)\<close>
  returns, and the second insert leaves the whole state as the first one left it. When \<open>v\<close>
  was not stored before the first insert, \<^verbatim>\<open>size()\<close> is afterwards exactly one more than
  before it; when \<open>v\<close> was stored, \<^verbatim>\<open>size()\<close> is unchanged. The result is a set again.
\<close>

theorem insert_twice_size:
  assumes "set_ok s"
  shows "\<exists>xs s1. iterate s = Some xs \<and> Set_insert v s = Some s1 \<and> Set_insert v s1 = Some s1
    \<and> set_ok s1 \<and> Set_size s1 = (if v \<in> set xs then Set_size s else Set_size s + 1)"
proof -
  from assms obtain t where t: "set_inv s t" by (auto simp: set_ok_def)
  show ?thesis
  proof (cases "v \<in> set (elems t)")
    case True
    from Set_insert_dup[OF t True] assms set_inv_iterate[OF t] True show ?thesis by simp
  next
    case False
    from Set_insert_new[OF t False] obtain s1 t1 where
      1: "Set_insert v s = Some s1" "set_inv s1 t1" "set (elems t1) = insert v (set (elems t))"
        "size' s1 = Suc (size' s)" by blast
    from 1(3) have "v \<in> set (elems t1)" by simp
    from Set_insert_dup[OF 1(2) this] 1 set_inv_iterate[OF t] False show ?thesis
      by (auto simp: set_ok_def Set_size_def)
  qed
qed

theorem insert_twice_size_witness:
  "\<exists>s. run [Insert 5, Insert 3, Insert 8, Insert 1, Erase 1] (Set_new (0::int)) = Some s
     \<and> set_ok s \<and> iterate s = Some [3, 5, 8] \<and> Set_size s = 3
     \<and> (\<exists>s1. Set_insert 4 s = Some s1 \<and> Set_insert 4 s1 = Some s1 \<and> Set_size s1 = 4)
     \<and> (\<exists>s1. Set_insert 5 s = Some s1 \<and> Set_insert 5 s1 = Some s1 \<and> Set_size s1 = 3)"
proof -
  let ?ops = "[Insert 5, Insert 3, Insert 8, Insert 1, Erase (1::int)]"
  have m: "sorted_list_of_set (model_set ?ops {}) = [3, 5, 8]" by code_simp
  from run_built[of ?ops 0] obtain s t where
    r: "run ?ops (Set_new 0) = Some s" "set_inv s t" "elems t = [3, 5, 8]"
    unfolding m by blast
  from r(2) have ok: "set_ok s" by (auto simp: set_ok_def)
  from set_inv_iterate[OF r(2)] r(3) have it: "iterate s = Some [3, 5, 8]" by simp
  from set_inv_size[OF r(2)] r(3) have sz: "Set_size s = 3" by simp
  from insert_twice_size[OF ok, of 4] it sz
  have 1: "\<exists>s1. Set_insert 4 s = Some s1 \<and> Set_insert 4 s1 = Some s1 \<and> Set_size s1 = 4"
    by auto
  from insert_twice_size[OF ok, of 5] it sz
  have 2: "\<exists>s1. Set_insert 5 s = Some s1 \<and> Set_insert 5 s1 = Some s1 \<and> Set_size s1 = 3"
    by auto
  from r(1) ok it sz 1 2 show ?thesis by blast
qed

text \<open>
  C7. For every set: inserting a value that is stored returns and leaves the whole state,
  the store included, as it was; so does erasing a value that is not stored; and so does
  erasing the end cursor. No error is signalled: each call returns (\<open>Some\<close>).
\<close>

theorem noop_operations:
  assumes "set_ok s"
  shows "\<exists>xs. iterate s = Some xs
    \<and> (if v \<in> set xs then Set_insert v s = Some s else Set_erase v s = Some s)
    \<and> Set_erase_it (Set_end s) s = Some s"
proof -
  from assms obtain t where t: "set_inv s t" by (auto simp: set_ok_def)
  have "Set_erase_it (Set_end s) s = Some s" by (simp add: Set_erase_it_def)
  with set_inv_iterate[OF t] Set_insert_dup[OF t, of v] Set_erase_absent[OF t, of v]
  show ?thesis by simp
qed

theorem noop_operations_witness:
  "\<exists>s. run [Insert 5, Insert 3, Insert 8, Insert 1, Erase 1] (Set_new (0::int)) = Some s
     \<and> set_ok s \<and> iterate s = Some [3, 5, 8]
     \<and> Set_insert 5 s = Some s \<and> Set_insert 8 s = Some s
     \<and> Set_erase 4 s = Some s \<and> Set_erase 1 s = Some s
     \<and> Set_erase_it (Set_end s) s = Some s"
proof -
  let ?ops = "[Insert 5, Insert 3, Insert 8, Insert 1, Erase (1::int)]"
  have m: "sorted_list_of_set (model_set ?ops {}) = [3, 5, 8]" by code_simp
  from run_built[of ?ops 0] obtain s t where
    r: "run ?ops (Set_new 0) = Some s" "set_inv s t" "elems t = [3, 5, 8]"
    unfolding m by blast
  from r(2) have ok: "set_ok s" by (auto simp: set_ok_def)
  from set_inv_iterate[OF r(2)] r(3) have it: "iterate s = Some [3, 5, 8]" by simp
  from noop_operations[OF ok, of 5] noop_operations[OF ok, of 8] it
  have 1: "Set_insert 5 s = Some s" "Set_insert 8 s = Some s" by auto
  from noop_operations[OF ok, of 4] noop_operations[OF ok, of 1] it
  have 2: "Set_erase 4 s = Some s" "Set_erase 1 s = Some s"
    "Set_erase_it (Set_end s) s = Some s" by auto
  from r(1) ok it 1 2 show ?thesis by blast
qed

subsection \<open>Cursors\<close>

lemma set_inv_incr:
  assumes "set_inv s t" "addrs t = xs @ a # ys"
  shows "It_incr s a = Some (first (terminal' s) ys)"
  using assms Node_next_list[of s t xs a ys] by (simp add: set_inv_def It_incr_def)

lemma set_inv_deref_map:
  assumes "set_inv s t"
  shows "map (It_deref s) (addrs t) = map Some (elems t)"
proof -
  have "map (It_deref s \<circ> fst) (nodes t) = map (Some \<circ> snd) (nodes t)"
    using set_inv_deref(1)[OF assms] by (intro map_cong) auto
  then have "map (It_deref s) (map fst (nodes t)) = map Some (map snd (nodes t))"
    by (simp only: map_map)
  then show ?thesis by (simp only: map_fst_nodes map_snd_nodes)
qed

lemma lookup_cases: "lookup T t v = T \<or> lookup T t v \<in> set (addrs t)"
  by (induction t) auto

lemma lb_cases: "lb T t v res = res \<or> lb T t v res \<in> set (addrs t)"
proof (induction t arbitrary: res)
  case Tip
  show ?case by simp
next
  case (Bin l a c x r)
  from Bin.IH(1)[of a] Bin.IH(2)[of res] show ?case by auto
qed

text \<open>
  C8. For every set and every valid cursor \<open>it\<close> other than \<^verbatim>\<open>end()\<close>, \<^verbatim>\<open>++it\<close> returns and
  \<^verbatim>\<open>--\<close> of its result is \<open>it\<close> again; this holds for \<^verbatim>\<open>begin()\<close> too. And for every
  non-empty set, \<^verbatim>\<open>--end()\<close> is a cursor other than \<^verbatim>\<open>end()\<close> that dereferences to the
  maximum element. The valid cursors other than \<^verbatim>\<open>end()\<close> are those that the loop from
  \<^verbatim>\<open>begin()\<close> to \<^verbatim>\<open>end()\<close> visits: they stand on the stored elements in order, and every
  cursor that \<^verbatim>\<open>begin()\<close>, \<^verbatim>\<open>find\<close> or \<^verbatim>\<open>lower_bound\<close> returns is \<^verbatim>\<open>end()\<close> or one of them.
\<close>

theorem cursor_round_trip:
  assumes "set_ok s"
  shows "\<exists>ps xs. cursors s = Some ps \<and> iterate s = Some xs
    \<and> map (It_deref s) ps = map Some xs
    \<and> (\<forall>it \<in> set ps. it \<noteq> Set_end s \<and> (\<exists>q. It_incr s it = Some q \<and> It_decr s q = Some it))
    \<and> (xs \<noteq> [] \<longrightarrow>
         (\<exists>q. It_decr s (Set_end s) = Some q \<and> q \<noteq> Set_end s
              \<and> It_deref s q = Some (Max (set xs))))
    \<and> (Set_begin s = Set_end s \<or> Set_begin s \<in> set ps)
    \<and> (\<forall>v. \<exists>p q. Set_find s v = Some p \<and> (p = Set_end s \<or> p \<in> set ps)
           \<and> Set_lower_bound s v = Some q \<and> (q = Set_end s \<or> q \<in> set ps))"
proof -
  from assms obtain t where t: "set_inv s t" by (auto simp: set_ok_def)
  then have T: "terminal' s \<notin> set (addrs t)" by (simp add: set_inv_def tree_rep_def)
  from t have "head' s = first (terminal' s) (addrs t)" by (simp add: set_inv_def)
  then have 3: "Set_begin s = Set_end s \<or> Set_begin s \<in> set (addrs t)"
    by (cases "addrs t") (simp_all add: Set_begin_def Set_end_def)
  have 4: "\<forall>v. \<exists>p q. Set_find s v = Some p \<and> (p = Set_end s \<or> p \<in> set (addrs t))
           \<and> Set_lower_bound s v = Some q \<and> (q = Set_end s \<or> q \<in> set (addrs t))"
    using set_inv_find[OF t] set_inv_lower_bound[OF t] lookup_cases[of "terminal' s" t]
      lb_cases[of "terminal' s" t _ "terminal' s"]
    by (simp add: Set_end_def)
  have 1: "\<forall>it \<in> set (addrs t). it \<noteq> Set_end s
      \<and> (\<exists>q. It_incr s it = Some q \<and> It_decr s q = Some it)"
    using set_inv_round_trip[OF t] T by (auto simp: Set_end_def)
  have 2: "elems t \<noteq> [] \<longrightarrow> (\<exists>q. It_decr s (Set_end s) = Some q \<and> q \<noteq> Set_end s
              \<and> It_deref s q = Some (Max (set (elems t))))"
  proof
    assume "elems t \<noteq> []"
    then have "t \<noteq> Tip" by auto
    from set_inv_tail[OF t this] show "\<exists>q. It_decr s (Set_end s) = Some q \<and> q \<noteq> Set_end s
              \<and> It_deref s q = Some (Max (set (elems t)))"
      by (simp add: It_decr_def Set_end_def)
  qed
  from set_inv_cursors[OF t] set_inv_iterate[OF t] set_inv_deref_map[OF t] 1 2 3 4
  show ?thesis by blast
qed

theorem cursor_round_trip_witness:
  "\<exists>s p1 p2 p3. run [Insert 5, Insert 3, Insert 8, Insert 1, Erase 1] (Set_new (0::int)) = Some s
     \<and> set_ok s \<and> iterate s = Some [3, 5, 8] \<and> cursors s = Some [p1, p2, p3]
     \<and> It_deref s p1 = Some 3 \<and> It_deref s p2 = Some 5 \<and> It_deref s p3 = Some 8
     \<and> It_incr s p1 = Some p2 \<and> It_decr s p2 = Some p1
     \<and> It_incr s p2 = Some p3 \<and> It_decr s p3 = Some p2
     \<and> It_incr s p3 = Some (Set_end s) \<and> It_decr s (Set_end s) = Some p3"
proof -
  let ?ops = "[Insert 5, Insert 3, Insert 8, Insert 1, Erase (1::int)]"
  have m: "sorted_list_of_set (model_set ?ops {}) = [3, 5, 8]" by code_simp
  from run_built[of ?ops 0] obtain s t where
    r: "run ?ops (Set_new 0) = Some s" "set_inv s t" "elems t = [3, 5, 8]"
    unfolding m by blast
  from r(2) have ok: "set_ok s" by (auto simp: set_ok_def)
  from set_inv_iterate[OF r(2)] r(3) have it: "iterate s = Some [3, 5, 8]" by simp
  from cursor_round_trip[OF ok] it obtain ps where
    c: "cursors s = Some ps" "map (It_deref s) ps = map Some [3, 5, 8]"
      "\<forall>it \<in> set ps. \<exists>q. It_incr s it = Some q \<and> It_decr s q = Some it"
    by auto
  from c(2) obtain p1 p2 p3 where ps: "ps = [p1, p2, p3]"
    by (auto simp: map_eq_Cons_conv)
  with c(2) have d: "It_deref s p1 = Some 3" "It_deref s p2 = Some 5" "It_deref s p3 = Some 8"
    by simp_all
  from set_inv_cursors[OF r(2)] c(1) ps have a: "addrs t = [p1, p2, p3]" by simp
  from set_inv_incr[OF r(2), of "[]" p1 "[p2, p3]"] set_inv_incr[OF r(2), of "[p1]" p2 "[p3]"]
    set_inv_incr[OF r(2), of "[p1, p2]" p3 "[]"] a
  have i: "It_incr s p1 = Some p2" "It_incr s p2 = Some p3" "It_incr s p3 = Some (Set_end s)"
    by (simp_all add: Set_end_def)
  from c(3) ps i have "It_decr s p2 = Some p1" "It_decr s p3 = Some p2"
    "It_decr s (Set_end s) = Some p3" by auto
  with r(1) ok it c(1) ps d i show ?thesis by blast
qed

text \<open>
  C10. On an empty set \<^verbatim>\<open>--end()\<close> returns and is the end cursor itself; and only on an empty
  set: for every set, \<^verbatim>\<open>--end()\<close> is \<^verbatim>\<open>end()\<close> exactly when \<^verbatim>\<open>empty()\<close> holds.
\<close>

theorem decrement_end_empty:
  assumes "set_ok s"
  shows "(It_decr s (Set_end s) = Some (Set_end s)) = Set_empty s"
proof -
  from assms obtain t where t: "set_inv s t" by (auto simp: set_ok_def)
  then have T: "terminal' s \<notin> set (addrs t)" and tl: "tail' s = final (terminal' s) (addrs t)"
    and sz: "size' s = length (addrs t)" by (simp_all add: set_inv_def tree_rep_def)
  show ?thesis
  proof (cases "addrs t = []")
    case True
    with tl sz show ?thesis by (simp add: It_decr_def Set_end_def Set_empty_def Set_size_def)
  next
    case False
    then have "last (addrs t) \<in> set (addrs t)" by simp
    with T have "last (addrs t) \<noteq> terminal' s" by auto
    with False tl sz show ?thesis
      by (simp add: It_decr_def Set_end_def Set_empty_def Set_size_def final_last)
  qed
qed

theorem decrement_end_empty_witness:
  "(\<exists>s. run [Insert 1, Insert 2, Erase 2, Erase 1] (Set_new (0::int)) = Some s \<and> set_ok s
       \<and> Set_empty s \<and> It_decr s (Set_end s) = Some (Set_end s))
   \<and> (\<exists>s. run [Insert 1, Insert 2, Erase 2] (Set_new (0::int)) = Some s \<and> set_ok s
       \<and> \<not> Set_empty s \<and> It_decr s (Set_end s) \<noteq> Some (Set_end s))
   \<and> set_ok (Set_new (0::int)) \<and> Set_empty (Set_new (0::int))
   \<and> It_decr (Set_new (0::int)) (Set_end (Set_new (0::int))) = Some (Set_end (Set_new (0::int)))"
proof -
  let ?a = "[Insert 1, Insert 2, Erase 2, Erase (1::int)]"
  let ?b = "[Insert 1, Insert 2, Erase (2::int)]"
  have m: "sorted_list_of_set (model_set ?a {}) = []" "sorted_list_of_set (model_set ?b {}) = [1]"
    by code_simp+
  from run_built[of ?a 0] obtain s t where
    r: "run ?a (Set_new 0) = Some s" "set_inv s t" "elems t = []"
    unfolding m by blast
  from r(2) have ok: "set_ok s" by (auto simp: set_ok_def)
  from set_inv_size[OF r(2)] r(3) have e: "Set_empty s" by (simp add: Set_empty_def)
  from decrement_end_empty[OF ok] e have 1: "It_decr s (Set_end s) = Some (Set_end s)" by simp
  from run_built[of ?b 0] obtain s' t' where
    r': "run ?b (Set_new 0) = Some s'" "set_inv s' t'" "elems t' = [1]"
    unfolding m by blast
  from r'(2) have ok': "set_ok s'" by (auto simp: set_ok_def)
  from set_inv_size[OF r'(2)] r'(3) have e': "\<not> Set_empty s'" by (simp add: Set_empty_def)
  from decrement_end_empty[OF ok'] e' have 2: "It_decr s' (Set_end s') \<noteq> Some (Set_end s')"
    by simp
  have ok0: "set_ok (Set_new (0::int))" using set_inv_new[of "0::int"] by (auto simp: set_ok_def)
  have e0: "Set_empty (Set_new (0::int))" by (simp add: Set_empty_def Set_size_def Set_new_def)
  from decrement_end_empty[OF ok0] e0
  have 3: "It_decr (Set_new (0::int)) (Set_end (Set_new (0::int)))
      = Some (Set_end (Set_new (0::int)))" by simp
  from r(1) ok e 1 r'(1) ok' e' 2 ok0 e0 3 show ?thesis by blast
qed

subsection \<open>Size\<close>

lemma set_inv_card:
  assumes "set_inv s t"
  shows "card (dom (heap s) - {terminal' s}) = length (addrs t)"
proof -
  from assms have "dom (heap s) = insert (terminal' s) (set (addrs t))"
    "terminal' s \<notin> set (addrs t)" "distinct (addrs t)"
    by (simp_all add: set_inv_def tree_rep_def)
  then have "dom (heap s) - {terminal' s} = set (addrs t)" by auto
  with \<open>distinct (addrs t)\<close> show ?thesis by (simp add: distinct_card)
qed

text \<open>
  C9. For every finite sequence of insert and erase operations applied to an initially empty
  set, the operations all return and \<^verbatim>\<open>size()\<close> is then the number of nodes in the store
  besides the sentinel, the length of the iteration from \<^verbatim>\<open>begin()\<close> to \<^verbatim>\<open>end()\<close>, and the
  number of values inserted and not erased afterwards; and \<^verbatim>\<open>empty()\<close> holds exactly when
  that number is zero.
\<close>

theorem size_counts_nodes:
  "\<exists>s xs. run ops (Set_new d) = Some s \<and> iterate s = Some xs
     \<and> Set_size s = length xs \<and> Set_size s = card (dom (heap s) - {terminal' s})
     \<and> Set_size s = card (model_set ops {})
     \<and> Set_empty s = (xs = [])"
proof -
  from run_new[of ops d] obtain s t where
    r: "run ops (Set_new d) = Some s" "set_inv s t" "set (elems t) = model_set ops {}" by blast
  from r(2) have "distinct (elems t)" by (simp add: set_inv_def bst_distinct)
  then have "card (set (elems t)) = length (elems t)" by (rule distinct_card)
  with r(3) have c: "card (model_set ops {}) = length (elems t)" by simp
  have e: "Set_empty s = (elems t = [])"
    using set_inv_size[OF r(2)] by (simp add: Set_empty_def del: length_elems)
  from set_inv_size[OF r(2)] set_inv_card[OF r(2)] c set_inv_iterate[OF r(2)] r(1) e
  show ?thesis by simp
qed

theorem size_counts_nodes_witness:
  "(\<exists>s. run [Insert 5, Insert 3, Insert 8, Insert 3, Erase 5, Erase 7] (Set_new (0::int)) = Some s
       \<and> iterate s = Some [3, 8] \<and> Set_size s = 2
       \<and> card (dom (heap s) - {terminal' s}) = 2 \<and> \<not> Set_empty s)
   \<and> (\<exists>s. run [Insert 5, Insert 3, Erase 5, Erase 3] (Set_new (0::int)) = Some s
       \<and> iterate s = Some [] \<and> Set_size s = 0
       \<and> card (dom (heap s) - {terminal' s}) = 0 \<and> Set_empty s)"
proof -
  let ?a = "[Insert 5, Insert 3, Insert 8, Insert 3, Erase 5, Erase (7::int)]"
  let ?b = "[Insert 5, Insert 3, Erase 5, Erase (3::int)]"
  have m: "card (model_set ?a {}) = 2" "card (model_set ?b {}) = 0" by code_simp+
  from run_built[of ?a 0] obtain s0 t0 where
    r: "run ?a (Set_new 0) = Some s0" "set_inv s0 t0"
      "elems t0 = sorted_list_of_set (model_set ?a {})" by blast
  have "sorted_list_of_set (model_set ?a {}) = [3, 8]" by code_simp
  with r(3) set_inv_iterate[OF r(2)] have it: "iterate s0 = Some [3, 8]" by simp
  from size_counts_nodes[of ?a 0] r(1) it m(1)
  have 1: "\<exists>s. run ?a (Set_new 0) = Some s \<and> iterate s = Some [3, 8] \<and> Set_size s = 2
       \<and> card (dom (heap s) - {terminal' s}) = 2 \<and> \<not> Set_empty s" by auto
  from size_counts_nodes[of ?b 0] m(2)
  have 2: "\<exists>s. run ?b (Set_new 0) = Some s \<and> iterate s = Some [] \<and> Set_size s = 0
       \<and> card (dom (heap s) - {terminal' s}) = 0 \<and> Set_empty s" by auto
  from 1 2 show ?thesis by blast
qed

end
